(* ===== verification/Bench_Prelude.thy ===== *)
theory Bench_Prelude
  imports Complex_Main "HOL-Library.Word"
begin

text \<open>
  What every component of the model shares: the machine integers of the C++ code, the
  values that stand for undefined behaviour and thrown exceptions, byte blocks with
  bounds-checked \<open>memcpy\<close>, the little-endian layout of integers in memory (the code copies
  integers with \<open>memcpy\<close>; both ends of every benchmark run on little-endian hosts), and the
  loop combinator of the error monad.
\<close>

section \<open>Machine integers and faults\<close>

type_synonym u8 = "8 word"
type_synonym u16 = "16 word"
type_synonym u32 = "32 word"
type_synonym u64 = "64 word"
type_synonym bytes = "u8 list"

text \<open>
  \<open>Div_by_zero\<close>, \<open>Out_of_bounds\<close>, \<open>Int_overflow\<close> and \<open>Null_deref\<close> stand for undefined
  behaviour of the C++ program; \<open>Thrown\<close> is a \<open>std::runtime_error\<close> with its message.
\<close>

datatype fault =
    Div_by_zero
  | Out_of_bounds
  | Int_overflow
  | Null_deref
  | Thrown string

type_synonym 'a res = "fault + 'a"

lemma unat_u64_less: "unat (w :: u64) < 2 ^ 64"
  using unsigned_less [of w, where 'a = nat] by simp

lemma unat_u32_less: "unat (w :: u32) < 2 ^ 32"
  using unsigned_less [of w, where 'a = nat] by simp

lemma unat_u16_less: "unat (w :: u16) < 2 ^ 16"
  using unsigned_less [of w, where 'a = nat] by simp

named_theorems res_simps \<open>rewriting of computations in the error monad\<close>
named_theorems mem_simps \<open>reads and writes of byte blocks\<close>

text \<open>Sequencing and loops work over any error type, since the command-line parsers have their own.\<close>

definition rbind :: "'e + 'a \<Rightarrow> ('a \<Rightarrow> 'e + 'b) \<Rightarrow> 'e + 'b" where
  "rbind m f = (case m of Inl e \<Rightarrow> Inl e | Inr x \<Rightarrow> f x)"

lemma rbind_Inl [simp]: "rbind (Inl e) f = Inl e"
  by (simp add: rbind_def)

lemma rbind_Inr [simp]: "rbind (Inr x) f = f x"
  by (simp add: rbind_def)

lemma rbind_eq_Inr [res_simps]: "rbind m f = Inr y \<longleftrightarrow> (\<exists>x. m = Inr x \<and> f x = Inr y)"
  by (cases m) auto

lemma rbind_assoc: "rbind (rbind m f) g = rbind m (\<lambda>x. rbind (f x) g)"
  by (cases m) auto

text \<open>A \<open>for\<close> loop over a list of indices whose body may fault.\<close>

fun foldE :: "('i \<Rightarrow> 's \<Rightarrow> 'e + 's) \<Rightarrow> 'i list \<Rightarrow> 's \<Rightarrow> 'e + 's" where
  "foldE f [] s = Inr s"
| "foldE f (i # is) s = rbind (f i s) (foldE f is)"

lemma foldE_append: "foldE f (is @ js) s = rbind (foldE f is s) (foldE f js)"
proof (induction "is" arbitrary: s)
  case (Cons i "is")
  show ?case by (cases "f i s") (simp_all add: Cons)
qed simp

lemma foldE_invariant:
  assumes "foldE f is s = Inr s'" and "P s"
    and "\<And>i s s'. i \<in> set is \<Longrightarrow> P s \<Longrightarrow> f i s = Inr s' \<Longrightarrow> P s'"
  shows "P s'"
  using assms by (induction "is" arbitrary: s) (auto simp: res_simps)

text \<open>A loop that builds a list, one element per index.\<close>

fun mapE :: "('i \<Rightarrow> 'e + 'a) \<Rightarrow> 'i list \<Rightarrow> 'e + 'a list" where
  "mapE f [] = Inr []"
| "mapE f (i # is) = rbind (f i) (\<lambda>x. rbind (mapE f is) (\<lambda>xs. Inr (x # xs)))"

lemma mapE_all_Inr: "(\<And>i. i \<in> set is \<Longrightarrow> f i = Inr (g i)) \<Longrightarrow> mapE f is = Inr (map g is)"
  by (induction "is") auto

section \<open>Byte blocks\<close>

text \<open>
  \<open>write_at off bs blk\<close> is \<open>memcpy(blk.data() + off, bs, n)\<close>: it faults where the copy would
  leave the block, which the C++ code does not check.
\<close>

definition write_at :: "nat \<Rightarrow> bytes \<Rightarrow> bytes \<Rightarrow> bytes res" where
  "write_at off bs blk =
     (if off + length bs \<le> length blk
      then Inr (take off blk @ bs @ drop (off + length bs) blk)
      else Inl Out_of_bounds)"

definition read_at :: "nat \<Rightarrow> nat \<Rightarrow> bytes \<Rightarrow> bytes res" where
  "read_at off n blk =
     (if off + n \<le> length blk then Inr (take n (drop off blk)) else Inl Out_of_bounds)"

lemma write_at_length [mem_simps]: "write_at off bs blk = Inr blk' \<Longrightarrow> length blk' = length blk"
  by (auto simp: write_at_def split: if_splits)

lemma write_at_ok_iff [mem_simps]:
  "(\<exists>blk'. write_at off bs blk = Inr blk') \<longleftrightarrow> off + length bs \<le> length blk"
  by (auto simp: write_at_def)

lemma write_at_fault [mem_simps]:
  "length blk < off + length bs \<Longrightarrow> write_at off bs blk = Inl Out_of_bounds"
  by (simp add: write_at_def)

lemma write_at_nth:
  assumes "write_at off bs blk = Inr blk'" and "j < length blk"
  shows "blk' ! j = (if off \<le> j \<and> j < off + length bs then bs ! (j - off) else blk ! j)"
proof -
  have le: "off + length bs \<le> length blk"
    and b: "blk' = take off blk @ bs @ drop (off + length bs) blk"
    using assms(1) by (auto simp: write_at_def split: if_splits)
  show ?thesis
    using le assms(2) unfolding b by (auto simp: nth_append min_def)
qed

text \<open>What was written is read back, and a disjoint slice is untouched.\<close>

lemma write_at_same:
  assumes "write_at off bs blk = Inr blk'"
  shows "take (length bs) (drop off blk') = bs"
  using assms by (auto simp: write_at_def split: if_splits)

lemma write_at_disjoint:
  assumes w: "write_at off bs blk = Inr blk'" and d: "o' + n \<le> off \<or> off + length bs \<le> o'"
  shows "take n (drop o' blk') = take n (drop o' blk)"
proof (rule nth_equalityI)
  show "length (take n (drop o' blk')) = length (take n (drop o' blk))"
    using write_at_length [OF w] by simp
next
  fix i assume "i < length (take n (drop o' blk'))"
  then have i: "i < n" "o' + i < length blk"
    using write_at_length [OF w] by auto
  then have "blk' ! (o' + i) = blk ! (o' + i)"
    using write_at_nth [OF w i(2)] d by auto
  then show "take n (drop o' blk') ! i = take n (drop o' blk) ! i"
    using i write_at_length [OF w] by simp
qed

section \<open>Little-endian integers\<close>

fun nat_bytes :: "nat \<Rightarrow> nat \<Rightarrow> bytes" where
  "nat_bytes 0 v = []"
| "nat_bytes (Suc n) v = of_nat (v mod 256) # nat_bytes n (v div 256)"

fun le_nat :: "bytes \<Rightarrow> nat" where
  "le_nat [] = 0"
| "le_nat (b # bs) = unat b + 256 * le_nat bs"

definition le_bytes :: "'a::len word \<Rightarrow> bytes" where
  "le_bytes w = nat_bytes (LENGTH('a) div 8) (unat w)"

definition le_word :: "bytes \<Rightarrow> 'a::len word" where
  "le_word bs = of_nat (le_nat bs)"

lemma length_nat_bytes [simp]: "length (nat_bytes n v) = n"
  by (induction n arbitrary: v) auto

lemma length_le_bytes [simp]: "length (le_bytes (w :: 'a::len word)) = LENGTH('a) div 8"
  by (simp add: le_bytes_def)

lemma unat_of_nat_byte [simp]: "unat (of_nat (v mod 256) :: u8) = v mod 256"
  by (simp add: unat_of_nat)

lemma le_nat_nat_bytes: "le_nat (nat_bytes n v) = v mod 256 ^ n"
proof (induction n arbitrary: v)
  case (Suc n)
  have "v mod 256 + 256 * (v div 256 mod 256 ^ n) = v mod (256 * 256 ^ n)"
    by (simp add: mod_mult2_eq)
  with Suc show ?case by simp
qed simp

lemma le_word_le_bytes:
  assumes "8 dvd LENGTH('a)"
  shows "le_word (le_bytes (w :: 'a::len word)) = w"
proof -
  have "(256 :: nat) ^ (LENGTH('a) div 8) = 2 ^ (8 * (LENGTH('a) div 8))"
    by (simp add: power_mult)
  also have "\<dots> = 2 ^ LENGTH('a)" using assms by simp
  finally have "unat w mod 256 ^ (LENGTH('a) div 8) = unat w"
    using unsigned_less [of w] by simp
  then show ?thesis by (simp add: le_word_def le_bytes_def le_nat_nat_bytes)
qed

lemma le_word_le_bytes_u16 [simp]: "le_word (le_bytes (w :: u16)) = w"
  by (rule le_word_le_bytes) simp

lemma le_word_le_bytes_u32 [simp]: "le_word (le_bytes (w :: u32)) = w"
  by (rule le_word_le_bytes) simp

lemma le_word_le_bytes_u64 [simp]: "le_word (le_bytes (w :: u64)) = w"
  by (rule le_word_le_bytes) simp

end
