(* ===== verification/Float64.thy ===== *)
theory Float64
  imports Bench_Prelude
begin

text \<open>
  The C++ type \<open>double\<close> (IEEE binary64, round to nearest, ties to even). A finite double is
  identified with the rational number it denotes, and every arithmetic operation of the
  code is the exact operation followed by \<open>fl\<close>, the rounding to the nearest binary64
  value. All statistics of the program stay far below the overflow threshold, so they use
  \<open>rat\<close> with \<open>fl\<close>; the type \<open>f64\<close> adds the infinities and NaNs, which only \<open>--rate-hz\<close>
  can take. Zero is not signed: no operation of the program can tell the two zeros apart.
\<close>

section \<open>Rounding\<close>

definition round_even :: "rat \<Rightarrow> int" where
  "round_even x =
     (let n = \<lfloor>x\<rfloor>; d = x - of_int n in
      if d < 1 / 2 then n else if 1 / 2 < d then n + 1 else if even n then n else n + 1)"

fun nlog2 :: "nat \<Rightarrow> nat" where
  "nlog2 n = (if n < 2 then 0 else Suc (nlog2 (n div 2)))"

declare nlog2.simps [simp del]

definition ilog2 :: "rat \<Rightarrow> int" where
  "ilog2 x =
     (let (p, q) = quotient_of x; k = int (nlog2 (nat p)) - int (nlog2 (nat q)) in
      if 2 powi k \<le> x then k else k - 1)"

text \<open>The exponent of the binade of \<open>x\<close>, with the gradual underflow of subnormals.\<close>

definition f64_exp :: "rat \<Rightarrow> int" where
  "f64_exp x = max (ilog2 \<bar>x\<bar>) (- 1022)"

definition f64_ulp :: "rat \<Rightarrow> rat" where
  "f64_ulp x = 2 powi (f64_exp x - 52)"

definition fl :: "rat \<Rightarrow> rat" where
  "fl x = (if x = 0 then 0 else of_int (round_even (x / f64_ulp x)) * f64_ulp x)"

lemma round_even_of_int [simp]: "round_even (of_int n) = n"
  by (simp add: round_even_def)

lemma round_even_ge: "of_int n \<le> x \<Longrightarrow> n \<le> round_even x"
  by (auto simp: round_even_def Let_def le_floor_iff intro: le_floor_iff [THEN iffD2] order_trans)

lemma round_even_le: "x \<le> of_int n \<Longrightarrow> round_even x \<le> n"
proof -
  assume x: "x \<le> of_int n"
  show ?thesis
  proof (cases "x = of_int n")
    case False
    with x have "\<lfloor>x\<rfloor> < n" by (simp add: floor_less_iff)
    then show ?thesis by (auto simp: round_even_def Let_def)
  qed simp
qed

lemma round_even_mono:
  assumes "x \<le> y" shows "round_even x \<le> round_even y"
proof (cases "\<lfloor>x\<rfloor> = \<lfloor>y\<rfloor>")
  case True
  then show ?thesis using assms by (auto simp: round_even_def Let_def)
next
  case False
  then have "\<lfloor>x\<rfloor> + 1 \<le> \<lfloor>y\<rfloor>" using floor_mono [OF assms] by linarith
  moreover have "round_even x \<le> \<lfloor>x\<rfloor> + 1" by (auto simp: round_even_def Let_def)
  moreover have "\<lfloor>y\<rfloor> \<le> round_even y" by (auto simp: round_even_def Let_def)
  ultimately show ?thesis by linarith
qed

lemma round_even_error: "\<bar>of_int (round_even x) - x\<bar> \<le> 1 / 2"
proof -
  define n where "n = \<lfloor>x\<rfloor>"
  have "of_int n \<le> x" "x < of_int n + 1" unfolding n_def by linarith+
  then show ?thesis unfolding round_even_def Let_def n_def [symmetric] by (auto simp: abs_if)
qed

lemma nlog2_bounds: "0 < n \<Longrightarrow> 2 ^ nlog2 n \<le> n \<and> n < 2 ^ Suc (nlog2 n)"
proof (induction n rule: nlog2.induct)
  case (1 n)
  show ?case
  proof (cases "n < 2")
    case True
    then show ?thesis using 1 by (subst (1 2) nlog2.simps) auto
  next
    case False
    then have IH: "2 ^ nlog2 (n div 2) \<le> n div 2 \<and> n div 2 < 2 ^ Suc (nlog2 (n div 2))"
      using 1 by simp
    have e: "nlog2 n = Suc (nlog2 (n div 2))" using False by (subst nlog2.simps) simp
    show ?thesis unfolding e using IH by auto
  qed
qed

lemma ilog2_bounds:
  assumes "0 < x"
  shows "2 powi ilog2 x \<le> x" and "x < 2 powi (ilog2 x + 1)"
proof -
  obtain p q where pq: "quotient_of x = (p, q)" by (cases "quotient_of x")
  have q: "0 < q" using quotient_of_denom_pos [OF pq] .
  have x: "x = of_int p / of_int q" using quotient_of_div [OF pq] .
  have p: "0 < p" using assms q x by (simp add: zero_less_divide_iff)
  define a where "a = nlog2 (nat p)"
  define c where "c = nlog2 (nat q)"
  have "2 ^ a \<le> nat p" "nat p < 2 ^ Suc a" "2 ^ c \<le> nat q" "nat q < 2 ^ Suc c"
    using nlog2_bounds [of "nat p"] nlog2_bounds [of "nat q"] p q by (simp_all add: a_def c_def)
  then have "of_nat (2 ^ a) \<le> (of_nat (nat p) :: rat)" "(of_nat (nat p) :: rat) < of_nat (2 ^ Suc a)"
    "of_nat (2 ^ c) \<le> (of_nat (nat q) :: rat)" "(of_nat (nat q) :: rat) < of_nat (2 ^ Suc c)"
    by (simp_all only: of_nat_le_iff of_nat_less_iff)
  then have b: "(2::rat) ^ a \<le> of_int p" "of_int p < (2::rat) ^ Suc a" "(2::rat) ^ c \<le> of_int q" "of_int q < (2::rat) ^ Suc c"
    using p q by simp_all
  have qp: "(0::rat) < of_int q" using q by simp
  define k where "k = int a - int c"
  have pk: "(2::rat) powi k = 2 ^ a / 2 ^ c" unfolding k_def by (simp add: power_int_diff)
  have up: "x < 2 powi (k + 1)"
  proof -
    have "of_int p * 2 ^ c < (2::rat) ^ Suc a * of_int q"
      using b(2,3) p q by (intro mult_less_le_imp_less) auto
    then have "of_int p / of_int q < (2::rat) ^ Suc a / 2 ^ c"
      using qp by (simp add: divide_less_eq less_divide_eq field_simps)
    then show ?thesis by (simp add: x pk power_int_add mult.commute)
  qed
  have lo: "2 powi (k - 1) < x"
  proof -
    have "(2::rat) ^ a * of_int q < of_int p * 2 ^ Suc c"
      using b(1,4) p q by (intro mult_le_less_imp_less) auto
    then have "(2::rat) ^ a / 2 ^ Suc c < of_int p / of_int q"
      using qp by (simp add: divide_less_eq less_divide_eq field_simps)
    then show ?thesis by (simp add: x pk power_int_diff)
  qed
  have il: "ilog2 x = (if 2 powi k \<le> x then k else k - 1)"
    by (simp add: ilog2_def pq a_def c_def k_def Let_def)
  show "2 powi ilog2 x \<le> x" using lo by (simp add: il)
  show "x < 2 powi (ilog2 x + 1)" using up by (simp add: il)
qed

section \<open>Properties of rounding\<close>

lemma f64_ulp_pos [simp]: "0 < f64_ulp x"
  by (simp add: f64_ulp_def)

lemma fl_0 [simp]: "fl 0 = 0"
  by (simp add: fl_def)

lemma fl_nonneg: "0 \<le> x \<Longrightarrow> 0 \<le> fl x"
proof -
  assume x: "0 \<le> x"
  have "0 \<le> round_even (x / f64_ulp x)" using x f64_ulp_pos [of x]
    by (intro round_even_ge) (simp add: less_imp_le)
  then show ?thesis by (simp add: fl_def less_imp_le)
qed

lemma ilog2_mono:
  assumes "0 < x" and "x \<le> y" shows "ilog2 x \<le> ilog2 y"
proof (rule ccontr)
  assume "\<not> ilog2 x \<le> ilog2 y"
  then have "ilog2 y + 1 \<le> ilog2 x" by simp
  then have "(2::rat) powi (ilog2 y + 1) \<le> 2 powi ilog2 x"
    by (intro power_int_increasing) auto
  then show False using ilog2_bounds [of x] ilog2_bounds [of y] assms by linarith
qed

lemma ilog2_unique:
  assumes "2 powi k \<le> x" and "x < 2 powi (k + 1)"
  shows "ilog2 x = k"
proof -
  have x: "0 < x" using assms(1) by (rule less_le_trans [rotated]) simp
  have "\<not> ilog2 x + 1 \<le> k"
    using power_int_increasing [of "ilog2 x + 1" k "2::rat"] ilog2_bounds [OF x] assms(1) by auto
  moreover have "\<not> k + 1 \<le> ilog2 x"
    using power_int_increasing [of "k + 1" "ilog2 x" "2::rat"] ilog2_bounds [OF x] assms(2) by auto
  ultimately show ?thesis by linarith
qed

text \<open>A value whose quotient by its unit in the last place is an integer is a double.\<close>

lemma fl_exact:
  assumes "x = of_int m * f64_ulp x" shows "fl x = x"
proof (cases "x = 0")
  case False
  have "x / f64_ulp x = of_int m"
    using assms f64_ulp_pos [of x] by (metis less_numeral_extra(3) nonzero_eq_divide_eq)
  then show ?thesis using assms False by (simp add: fl_def)
qed simp

lemma fl_exact_power:
  assumes "x = of_int m * 2 powi k" and "k \<ge> f64_exp x - 52"
  shows "fl x = x"
proof (rule fl_exact)
  define d where "d = nat (k - (f64_exp x - 52))"
  have "(2::rat) powi k = 2 powi (int d + (f64_exp x - 52))" using assms(2) by (simp add: d_def)
  also have "\<dots> = 2 powi int d * 2 powi (f64_exp x - 52)" by (rule power_int_add) simp
  finally have "(2::rat) powi k = 2 ^ d * f64_ulp x" by (simp add: f64_ulp_def)
  then show "x = of_int (m * 2 ^ d) * f64_ulp x" using assms(1) by simp
qed

lemma fl_of_nat [simp]:
  assumes "n \<le> 2 ^ 53" shows "fl (of_nat n) = of_nat n"
proof (cases "n = 0 \<or> n = 2 ^ 53")
  case True
  have "ilog2 (2 ^ 53) = 53" by (rule ilog2_unique) simp_all
  then have "fl (2 ^ 53) = 2 ^ 53"
    by (intro fl_exact_power [of _ 1 53]) (simp_all add: f64_exp_def)
  then show ?thesis using True by auto
next
  case False
  then have n: "0 < n" "n < 2 ^ 53" using assms by auto
  have "ilog2 (of_nat n) \<le> 52"
  proof (rule ccontr)
    assume "\<not> ilog2 (of_nat n) \<le> 52"
    then have "(2::rat) powi 53 \<le> 2 powi ilog2 (of_nat n)" by (intro power_int_increasing) auto
    also have "\<dots> \<le> of_nat n" using n by (intro ilog2_bounds) simp
    finally have "(of_nat (2 ^ 53) :: rat) \<le> of_nat n" by simp
    then show False using n(2) by (simp only: of_nat_le_iff)
  qed
  then show ?thesis by (intro fl_exact_power [of _ "int n" 0]) (simp_all add: f64_exp_def)
qed

lemma fl_1 [simp]: "fl 1 = 1"
  using fl_of_nat [of 1] by simp

lemma fl_mono:
  assumes "0 \<le> x" and "x \<le> y" shows "fl x \<le> fl y"
proof (cases "x = 0")
  case True
  then show ?thesis using fl_nonneg assms by simp
next
  case False
  then have x: "0 < x" and y: "0 < y" using assms by auto
  have e: "f64_exp x \<le> f64_exp y" using ilog2_mono [OF x assms(2)] x y by (auto simp: f64_exp_def)
  show ?thesis
  proof (cases "f64_exp x = f64_exp y")
    case True
    then have u: "f64_ulp x = f64_ulp y" by (simp add: f64_ulp_def)
    have "x / f64_ulp y \<le> y / f64_ulp y" using assms(2) by (simp add: divide_right_mono less_imp_le)
    then have "round_even (x / f64_ulp y) \<le> round_even (y / f64_ulp y)" by (rule round_even_mono)
    then have "(of_int (round_even (x / f64_ulp y)) :: rat) \<le> of_int (round_even (y / f64_ulp y))" by simp
    then show ?thesis using x y u by (simp add: fl_def mult_right_mono less_imp_le)
  next
    case lt: False
    define ex where "ex = f64_exp x"
    define ey where "ey = f64_exp y"
    have ll: "ex + 1 \<le> ey" using e lt by (simp add: ex_def ey_def)
    have ey: "ey = ilog2 y" using ll x y by (auto simp: ex_def ey_def f64_exp_def)
    have "x < 2 powi (ilog2 x + 1)" by (rule ilog2_bounds(2) [OF x])
    also have "\<dots> \<le> (2::rat) powi (ex + 1)" using x by (intro power_int_increasing) (auto simp: ex_def f64_exp_def)
    also have "\<dots> = of_int (2 ^ 53) * 2 powi (ex - 52)" by (simp add: power_int_diff power_int_add)
    finally have "x / 2 powi (ex - 52) \<le> of_int (2 ^ 53)" by (simp add: pos_divide_le_eq)
    then have "round_even (x / 2 powi (ex - 52)) \<le> 2 ^ 53" by (rule round_even_le)
    then have "of_int (round_even (x / 2 powi (ex - 52))) * 2 powi (ex - 52) \<le> of_int (2 ^ 53) * (2::rat) powi (ex - 52)"
      by (intro mult_right_mono of_int_le_iff [THEN iffD2]) simp_all
    then have "fl x \<le> 2 powi (ex + 1)"
      using x by (simp add: fl_def f64_ulp_def ex_def power_int_diff power_int_add)
    also have "\<dots> \<le> 2 powi ey" using ll by (intro power_int_increasing) auto
    also have "\<dots> \<le> fl y"
    proof -
      have "of_int (2 ^ 52) * 2 powi (ey - 52) = (2::rat) powi ey" by (simp add: power_int_diff)
      also have "\<dots> \<le> y" unfolding ey by (rule ilog2_bounds(1) [OF y])
      finally have "of_int (2 ^ 52) \<le> y / 2 powi (ey - 52)" by (simp add: pos_le_divide_eq)
      then have "2 ^ 52 \<le> round_even (y / 2 powi (ey - 52))" by (rule round_even_ge)
      then have "of_int (2 ^ 52) * 2 powi (ey - 52) \<le> of_int (round_even (y / 2 powi (ey - 52))) * (2::rat) powi (ey - 52)"
        by (intro mult_right_mono of_int_le_iff [THEN iffD2]) simp_all
      then show ?thesis using y by (simp add: fl_def f64_ulp_def ey_def power_int_diff)
    qed
    finally show ?thesis .
  qed
qed

lemma fl_le_nat: "0 \<le> x \<Longrightarrow> x \<le> of_nat n \<Longrightarrow> n \<le> 2 ^ 53 \<Longrightarrow> fl x \<le> of_nat n"
  using fl_mono [of x "of_nat n"] by simp

lemma fl_error: "\<bar>fl x - x\<bar> \<le> f64_ulp x / 2"
proof (cases "x = 0")
  case False
  let ?u = "f64_ulp x"
  have "\<bar>of_int (round_even (x / ?u)) - x / ?u\<bar> * ?u \<le> 1 / 2 * ?u"
    by (intro mult_right_mono round_even_error) (simp add: less_imp_le)
  moreover have "\<bar>of_int (round_even (x / ?u)) - x / ?u\<bar> * ?u = \<bar>(of_int (round_even (x / ?u)) - x / ?u) * ?u\<bar>"
    by (simp add: abs_mult abs_of_pos)
  moreover have "(of_int (round_even (x / ?u)) - x / ?u) * ?u = fl x - x"
    using False less_imp_neq [OF f64_ulp_pos [of x]] by (simp add: fl_def left_diff_distrib)
  ultimately show ?thesis by simp
qed (simp add: less_imp_le)

text \<open>In the normal range the relative error is at most \<open>2 ^ -53\<close>.\<close>

lemma fl_relative_error:
  assumes "0 < x" and "2 powi (- 1022) \<le> x"
  shows "\<bar>fl x - x\<bar> \<le> x / 2 ^ 53"
proof -
  have "(2::rat) powi (- 1022) < 2 powi (ilog2 x + 1)"
    using assms(2) ilog2_bounds(2) [OF assms(1)] by (rule le_less_trans)
  then have "- 1022 < ilog2 x + 1"
    using power_int_increasing [of "ilog2 x + 1" "- 1022" "2::rat"] by force
  then have "f64_exp x = ilog2 x" using assms(1) by (simp add: f64_exp_def)
  then have "f64_ulp x = 2 powi ilog2 x / 2 ^ 52" by (simp add: f64_ulp_def power_int_diff)
  also have "\<dots> \<le> x / 2 ^ 52" using ilog2_bounds(1) [OF assms(1)] by (simp add: divide_right_mono)
  finally have "f64_ulp x / 2 \<le> x / 2 ^ 53" by simp
  then show ?thesis using fl_error [of x] by linarith
qed

text \<open>\<open>static_cast<double>\<close> of unsigned integers.\<close>

definition dbl_of_u64 :: "u64 \<Rightarrow> rat" where
  "dbl_of_u64 w = fl (of_nat (unat w))"

definition dbl_of_size :: "nat \<Rightarrow> rat" where
  "dbl_of_size n = fl (of_nat n)"

lemma dbl_of_size_exact [simp]: "n \<le> 2 ^ 53 \<Longrightarrow> dbl_of_size n = of_nat n"
  by (simp add: dbl_of_size_def)

lemma dbl_of_u64_exact: "unat w \<le> 2 ^ 53 \<Longrightarrow> dbl_of_u64 w = of_nat (unat w)"
  using fl_of_nat [of "unat w"] by (simp add: dbl_of_u64_def)

section \<open>Evaluating \<open>fl\<close> at a concrete value\<close>

lemma round_even_unique:
  assumes "\<bar>of_int n - x\<bar> < 1 / 2" shows "round_even x = n"
proof -
  have "\<bar>of_int (round_even x) - of_int n\<bar> < (1::rat)"
    using round_even_error [of x] assms by linarith
  then have "\<bar>of_int (round_even x - n)\<bar> < (1::rat)" by simp
  then show ?thesis by linarith
qed

lemma fl_eval:
  assumes "2 powi e \<le> x" and "x < 2 powi (e + 1)" and "- 1022 \<le> e"
    and "\<bar>of_int m - x / 2 powi (e - 52)\<bar> < 1 / 2"
  shows "fl x = of_int m * 2 powi (e - 52)"
proof -
  have "0 < x" using assms(1) by (rule less_le_trans [rotated]) simp
  moreover have "ilog2 x = e" using assms(1,2) by (rule ilog2_unique)
  ultimately show ?thesis
    using assms(3) round_even_unique [OF assms(4)] by (simp add: fl_def f64_ulp_def f64_exp_def)
qed

section \<open>Doubles with infinities and NaN\<close>

datatype f64 = Fin rat | Inf bool | NaN bool \<comment> \<open>the flag is the sign bit\<close>

definition f64_of_rat :: "rat \<Rightarrow> f64" where
  "f64_of_rat x = (let r = fl x in if \<bar>r\<bar> < 2 ^ 1024 then Fin r else Inf (r < 0))"

text \<open>\<open>x <= 0\<close>, false for NaN.\<close>

fun f64_le_zero :: "f64 \<Rightarrow> bool" where
  "f64_le_zero (Fin x) = (x \<le> 0)"
| "f64_le_zero (Inf neg) = neg"
| "f64_le_zero (NaN neg) = False"

text \<open>\<open>1.0 / x\<close>; only used for \<open>x > 0\<close> or NaN.\<close>

fun f64_recip :: "f64 \<Rightarrow> f64" where
  "f64_recip (Fin x) = (if x = 0 then Inf False else f64_of_rat (1 / x))"
| "f64_recip (Inf neg) = Fin 0"
| "f64_recip (NaN neg) = NaN neg"

end
