(* ===== verification/CText.thy ===== *)
theory CText
  imports Float64
begin

text \<open>
  The pieces of the C and C++ standard library that the command lines and the reports go
  through: \<open>strtoull\<close>, \<open>atoi\<close>, \<open>atof\<close>, \<open>std::to_string\<close>, the \<open>%zu\<close>, \<open>%d\<close> and
  \<open>%.Nf\<close> conversions of \<open>printf\<close>, and prefix tests on \<open>string_view\<close>. Strings are
  \<open>char list\<close> without terminator. \<open>atoi\<close> and \<open>atof\<close> have undefined behaviour when the
  value does not fit (C17 7.22.1), which is \<open>None\<close> here. An \<open>int\<close> of the program is an
  Isabelle \<open>int\<close>; \<open>int_range\<close> tells which values fit its 32 bits.
\<close>

section \<open>Characters and digits\<close>

definition c_isspace :: "char \<Rightarrow> bool" where
  "c_isspace c = (let n = (of_char c :: nat) in n = 32 \<or> 9 \<le> n \<and> n \<le> 13)"

definition digit_val :: "char \<Rightarrow> nat option" where
  "digit_val c = (let n = (of_char c :: nat) in if 48 \<le> n \<and> n \<le> 57 then Some (n - 48) else None)"

definition hex_val :: "char \<Rightarrow> nat option" where
  "hex_val c = (let n = (of_char c :: nat) in
     if 48 \<le> n \<and> n \<le> 57 then Some (n - 48)
     else if 65 \<le> n \<and> n \<le> 70 then Some (n - 55)
     else if 97 \<le> n \<and> n \<le> 102 then Some (n - 87) else None)"

definition lower :: "char \<Rightarrow> char" where
  "lower c = (let n = (of_char c :: nat) in if 65 \<le> n \<and> n \<le> 90 then char_of (n + 32) else c)"

fun scan :: "(char \<Rightarrow> nat option) \<Rightarrow> string \<Rightarrow> nat list \<times> string" where
  "scan val [] = ([], [])"
| "scan val (c # cs) =
     (case val c of None \<Rightarrow> ([], c # cs)
      | Some d \<Rightarrow> (let (ds, rest) = scan val cs in (d # ds, rest)))"

definition digits_value :: "nat \<Rightarrow> nat list \<Rightarrow> nat" where
  "digits_value base = foldl (\<lambda>acc d. base * acc + d) 0"

definition skip_space :: "string \<Rightarrow> string" where
  "skip_space = dropWhile c_isspace"

fun scan_sign :: "string \<Rightarrow> bool \<times> string" where
  "scan_sign (c # cs) = (if c = CHR ''-'' then (True, cs) else if c = CHR ''+'' then (False, cs) else (False, c # cs))"
| "scan_sign [] = (False, [])"

section \<open>String to number\<close>

text \<open>\<open>strtoull(v, nullptr, 10)\<close>: a minus sign negates in the unsigned type.\<close>

definition strtoull :: "string \<Rightarrow> u64" where
  "strtoull v =
     (let (neg, s) = scan_sign (skip_space v); (ds, _) = scan digit_val s; n = digits_value 10 ds in
      if 2 ^ 64 \<le> n then - 1 else if neg then - of_nat n else of_nat n)"

definition int_range :: "int \<Rightarrow> bool" where
  "int_range i \<longleftrightarrow> - (2 ^ 31) \<le> i \<and> i < 2 ^ 31"

definition atoi :: "string \<Rightarrow> int option" where
  "atoi v =
     (let (neg, s) = scan_sign (skip_space v); (ds, _) = scan digit_val s;
          i = (if neg then - int (digits_value 10 ds) else int (digits_value 10 ds)) in
      if int_range i then Some i else None)"

text \<open>
  \<open>strtod\<close>: an optional sign, then \<open>inf\<close>, \<open>nan\<close>, a hexadecimal or a decimal
  floating constant. A number is a digit string with an optional point; \<open>frac\<close> counts the
  digits after it.
\<close>

definition scan_mantissa :: "(char \<Rightarrow> nat option) \<Rightarrow> string \<Rightarrow> nat list \<times> nat \<times> string" where
  "scan_mantissa val s =
     (let (is, rest) = scan val s in
      case rest of
        c # cs \<Rightarrow> (if c = CHR ''.'' then let (fs, rest') = scan val cs in
                     if is = [] \<and> fs = [] then ([], 0, rest) else (is @ fs, length fs, rest')
                   else (is, 0, rest))
      | [] \<Rightarrow> (is, 0, rest))"

definition scan_exponent :: "char \<Rightarrow> string \<Rightarrow> int" where
  "scan_exponent mark s =
     (case s of
        c # cs \<Rightarrow> (if lower c = mark then let (neg, t) = scan_sign cs; (ds, _) = scan digit_val t in
                     if neg then - int (digits_value 10 ds) else int (digits_value 10 ds)
                   else 0)
      | [] \<Rightarrow> 0)"

definition has_prefix_nocase :: "string \<Rightarrow> string \<Rightarrow> bool" where
  "has_prefix_nocase p s = (length p \<le> length s \<and> map lower (take (length p) s) = p)"

definition strtod_magnitude :: "string \<Rightarrow> rat" where
  "strtod_magnitude s =
     (let hex = (if has_prefix_nocase ''0x'' s then fst (scan_mantissa hex_val (drop 2 s)) else []) in
      if hex \<noteq> []
      then let (ds, frac, rest) = scan_mantissa hex_val (drop 2 s) in
        of_nat (digits_value 16 ds) * 2 powi (scan_exponent CHR ''p'' rest - 4 * int frac)
      else let (ds, frac, rest) = scan_mantissa digit_val s in
        if ds = [] then 0
        else of_nat (digits_value 10 ds) * 10 powi (scan_exponent CHR ''e'' rest - int frac))"

definition atof :: "string \<Rightarrow> f64 option" where
  "atof v =
     (let (neg, s) = scan_sign (skip_space v) in
      if has_prefix_nocase ''inf'' s then Some (Inf neg)
      else if has_prefix_nocase ''nan'' s then Some (NaN neg)
      else case f64_of_rat (if neg then - strtod_magnitude s else strtod_magnitude s) of
             Fin x \<Rightarrow> Some (Fin x)
           | _ \<Rightarrow> None)"

section \<open>Number to string\<close>

definition digit_char :: "nat \<Rightarrow> char" where
  "digit_char d = char_of (48 + d)"

fun show_nat :: "nat \<Rightarrow> string" where
  "show_nat n = (if n < 10 then [digit_char n] else show_nat (n div 10) @ [digit_char (n mod 10)])"

declare show_nat.simps [simp del]

definition show_int :: "int \<Rightarrow> string" where
  "show_int i = (if i < 0 then CHR ''-'' # show_nat (nat (- i)) else show_nat (nat i))"

text \<open>The low \<open>k\<close> decimal digits, with leading zeros.\<close>

fun pad_digits :: "nat \<Rightarrow> nat \<Rightarrow> string" where
  "pad_digits 0 n = []"
| "pad_digits (Suc k) n = pad_digits k (n div 10) @ [digit_char (n mod 10)]"

text \<open>\<open>%.kf\<close> of a finite double: its exact value, rounded to \<open>k\<close> decimals, ties to even.\<close>

definition show_fixed :: "nat \<Rightarrow> rat \<Rightarrow> string" where
  "show_fixed k x =
     (let n = nat (round_even (\<bar>x\<bar> * 10 ^ k)) in
      (if x < 0 then ''-'' else '''') @ show_nat (n div 10 ^ k) @
      (if k = 0 then '''' else CHR ''.'' # pad_digits k n))"

fun show_fixed_f64 :: "nat \<Rightarrow> f64 \<Rightarrow> string" where
  "show_fixed_f64 k (Fin x) = show_fixed k x"
| "show_fixed_f64 k (Inf neg) = (if neg then ''-inf'' else ''inf'')"
| "show_fixed_f64 k (NaN neg) = (if neg then ''-nan'' else ''nan'')"

text \<open>Evaluation of concrete conversions by the simplifier.\<close>

lemma digit_char_eval [simp]:
  "digit_char 0 = CHR ''0''" "digit_char (Suc 0) = CHR ''1''" "digit_char 1 = CHR ''1''" "digit_char 2 = CHR ''2''"
  "digit_char 3 = CHR ''3''" "digit_char 4 = CHR ''4''" "digit_char 5 = CHR ''5''" "digit_char 6 = CHR ''6''"
  "digit_char 7 = CHR ''7''" "digit_char 8 = CHR ''8''" "digit_char 9 = CHR ''9''"
  by (simp_all add: digit_char_def char_of_def bit_0)

lemma pad_digits_numeral [simp]:
  "pad_digits (numeral k) n = pad_digits (pred_numeral k) (n div 10) @ [digit_char (n mod 10)]"
  by (simp only: numeral_eq_Suc [of k] pad_digits.simps)

lemma round_even_numeral [simp]: "round_even (numeral n) = numeral n"
  using round_even_of_int [of "numeral n"] by simp

lemmas text_eval = scan_sign.simps skip_space_def c_isspace_def digit_val_def hex_val_def lower_def
  digits_value_def scan_mantissa_def scan_exponent_def has_prefix_nocase_def strtod_magnitude_def
  show_nat.simps show_fixed_def char_of_def bit_0

section \<open>Prefixes\<close>

definition StartsWith :: "string \<Rightarrow> string \<Rightarrow> bool" where
  "StartsWith s p \<longleftrightarrow> length p \<le> length s \<and> take (length p) s = p"

text \<open>The lambda \<open>take\<close> of both option parsers.\<close>

definition take_value :: "string \<Rightarrow> string \<Rightarrow> string option" where
  "take_value a key = (if StartsWith a key then Some (drop (length key) a) else None)"

section \<open>Round trips of printed numbers\<close>

lemma digit_val_digit_char [simp]: "d < 10 \<Longrightarrow> digit_val (digit_char d) = Some d"
  by (simp add: digit_val_def digit_char_def Let_def)

lemma digit_char_not_space [simp]: "d < 10 \<Longrightarrow> \<not> c_isspace (digit_char d)"
  by (simp add: c_isspace_def digit_char_def Let_def)

definition digits_of :: "nat \<Rightarrow> nat list" where
  "digits_of n = map (\<lambda>c. the (digit_val c)) (show_nat n)"

lemma show_nat_map_digits:
  "show_nat n = map digit_char (digits_of n) \<and> (\<forall>d\<in>set (digits_of n). d < 10) \<and>
   digits_value 10 (digits_of n) = n \<and> digits_of n \<noteq> []"
proof (induction n rule: show_nat.induct)
  case (1 n)
  show ?case
  proof (cases "n < 10")
    case True
    then have "show_nat n = [digit_char n]" by (subst show_nat.simps) simp
    then show ?thesis using True by (simp add: digits_of_def digits_value_def)
  next
    case False
    then have s: "show_nat n = show_nat (n div 10) @ [digit_char (n mod 10)]"
      by (subst show_nat.simps) simp
    then have d: "digits_of n = digits_of (n div 10) @ [n mod 10]" by (simp add: digits_of_def)
    have v: "10 * (n div 10) + n mod 10 = n" by simp
    show ?thesis
      using 1 False s d v by (simp add: digits_value_def)
  qed
qed

lemmas show_nat_digits = show_nat_map_digits [THEN conjunct1]
lemmas digits_of_less = show_nat_map_digits [THEN conjunct2, THEN conjunct1]
lemmas digits_value_digits_of [simp] = show_nat_map_digits [THEN conjunct2, THEN conjunct2, THEN conjunct1]
lemmas digits_of_nonempty [simp] = show_nat_map_digits [THEN conjunct2, THEN conjunct2, THEN conjunct2]

lemma scan_digits:
  assumes "\<forall>d\<in>set ds. d < 10"
  shows "scan digit_val (map digit_char ds @ rest) =
    (let (ds', r) = scan digit_val rest in (ds @ ds', r))"
  using assms by (induction ds) (auto simp: Let_def split: prod.splits)

lemma scan_show_nat [simp]: "scan digit_val (show_nat n) = (digits_of n, [])"
  using scan_digits [OF digits_of_less, of n "[]"] by (simp add: show_nat_digits)

lemma show_nat_hd:
  "\<exists>d cs. show_nat n = digit_char d # cs \<and> d < 10"
proof -
  obtain d ds where "digits_of n = d # ds" by (cases "digits_of n") auto
  then show ?thesis using digits_of_less [of n] by (auto simp: show_nat_digits)
qed

lemma skip_space_show_nat [simp]: "skip_space (show_nat n) = show_nat n"
  using show_nat_hd [of n] by (auto simp: skip_space_def)

lemma digit_char_neq:
  "d < 10 \<Longrightarrow> digit_char d \<noteq> CHR ''-'' \<and> digit_char d \<noteq> CHR ''+'' \<and> digit_char d \<noteq> CHR '','' \<and> digit_char d \<noteq> CHR '':''"
proof -
  assume d: "d < 10"
  then have v: "(of_char (digit_char d) :: nat) = 48 + d" by (simp add: digit_char_def)
  show ?thesis by (intro conjI notI) (use v d in simp_all)
qed

lemma scan_sign_show_nat [simp]: "scan_sign (show_nat n) = (False, show_nat n)"
  using show_nat_hd [of n] digit_char_neq by auto

lemma strtoull_show_nat: "n < 2 ^ 64 \<Longrightarrow> strtoull (show_nat n) = of_nat n"
  by (simp add: strtoull_def)

lemma strtoull_show_u64 [simp]: "strtoull (show_nat (unat w)) = w"
  using unat_u64_less [of w] by (simp add: strtoull_show_nat)

lemma atoi_show_int [simp]:
  assumes "int_range i" shows "atoi (show_int i) = Some i"
proof (cases "i < 0")
  case True
  then have "skip_space (show_int i) = CHR ''-'' # show_nat (nat (- i))"
    by (simp add: show_int_def skip_space_def c_isspace_def)
  then show ?thesis using True assms by (simp add: atoi_def)
next
  case False
  then show ?thesis using assms by (simp add: atoi_def show_int_def)
qed

end
