(* ===== verification/Stats.thy ===== *)
theory Stats
  imports CText "HOL-Library.Multiset"
begin

text \<open>
  The statistics of the three harnesses: means and percentiles of latency samples
  (\<open>vsomeip/bench/bench_common.h\<close>, \<open>benchmarks/net/net_common.h\<close>, \<open>benchmarks/common.h\<close>),
  the Google-Benchmark counters, and the take statistics of the multithreaded benches.
  Every floating-point operation is followed by its rounding \<open>fl\<close>. The percentile functions
  index the sorted samples without a check, so they fault where the index is out of range.
\<close>

section \<open>Mean and percentile\<close>

definition fl_sum :: "rat list \<Rightarrow> rat" where
  "fl_sum xs = foldl (\<lambda>s x. fl (s + x)) 0 xs"

definition MeanUs :: "rat list \<Rightarrow> rat" where
  "MeanUs us = (if us = [] then 0 else fl (fl_sum us / dbl_of_size (length us)))"

text \<open>\<open>static_cast<std::size_t>(double)\<close>: truncation, undefined outside \<open>(-1, 2^64)\<close>.\<close>

definition size_of_dbl :: "rat \<Rightarrow> nat res" where
  "size_of_dbl x = (if - 1 < x \<and> x < 2 ^ 64 then Inr (nat \<lfloor>x\<rfloor>) else Inl Int_overflow)"

definition nthE :: "'a list \<Rightarrow> nat \<Rightarrow> 'a res" where
  "nthE xs i = (if i < length xs then Inr (xs ! i) else Inl Out_of_bounds)"

definition PercentileUs :: "rat list \<Rightarrow> rat \<Rightarrow> rat res" where
  "PercentileUs us p =
     (if us = [] then Inr 0
      else let us = sort us; idx = fl (p * dbl_of_size (length us - 1)) in
        rbind (size_of_dbl idx) (\<lambda>lo.
        let hi = min (lo + 1) (length us - 1); frac = fl (idx - dbl_of_size lo) in
        rbind (nthE us lo) (\<lambda>a. rbind (nthE us hi) (\<lambda>b.
        Inr (fl (fl (a * fl (1 - frac)) + fl (b * frac)))))))"

text \<open>The copies of the same two functions in the network harness and in \<open>common.h\<close>.\<close>

definition MeanUs_net :: "rat list \<Rightarrow> rat" where
  "MeanUs_net us = (if us = [] then 0 else fl (fl_sum us / dbl_of_size (length us)))"

definition PercentileUs_net :: "rat list \<Rightarrow> rat \<Rightarrow> rat res" where
  "PercentileUs_net us p =
     (if us = [] then Inr 0
      else let us = sort us; idx = fl (p * dbl_of_size (length us - 1)) in
        rbind (size_of_dbl idx) (\<lambda>lo.
        let hi = min (lo + 1) (length us - 1); frac = fl (idx - dbl_of_size lo) in
        rbind (nthE us lo) (\<lambda>a. rbind (nthE us hi) (\<lambda>b.
        Inr (fl (fl (a * fl (1 - frac)) + fl (b * frac)))))))"

definition Percentile :: "rat list \<Rightarrow> rat \<Rightarrow> rat res" where
  "Percentile v p =
     (if v = [] then Inr 0
      else let v = sort v; idx = fl (p * dbl_of_size (length v - 1)) in
        rbind (size_of_dbl idx) (\<lambda>lo.
        let hi = min (lo + 1) (length v - 1); frac = fl (idx - dbl_of_size lo) in
        rbind (nthE v lo) (\<lambda>a. rbind (nthE v hi) (\<lambda>b.
        Inr (fl (fl (a * fl (1 - frac)) + fl (b * frac)))))))"

text \<open>The two literals \<open>0.50\<close> and \<open>0.99\<close>.\<close>

definition p50 :: rat where "p50 = 1 / 2"
definition p99 :: rat where "p99 = fl (99 / 100)"

text \<open>\<open>*std::min_element\<close> and \<open>*std::max_element\<close> of a nonempty range.\<close>

definition min_element :: "rat list \<Rightarrow> rat" where "min_element xs = foldl min (hd xs) (tl xs)"
definition max_element :: "rat list \<Rightarrow> rat" where "max_element xs = foldl max (hd xs) (tl xs)"

section \<open>Google-Benchmark counters\<close>

text \<open>\<open>state.counters\<close>: the latest value assigned to each name.\<close>

type_synonym counters = "string \<rightharpoonup> rat"

definition lit_1e9 :: rat where "lit_1e9 = 1000000000"
definition lit_1em9 :: rat where "lit_1em9 = fl (1 / 1000000000)"

definition OneWayLatencySec :: "u64 \<Rightarrow> u64 \<Rightarrow> rat" where
  "OneWayLatencySec send_ns now =
     (if now \<le> send_ns then 0 else fl (dbl_of_u64 (now - send_ns) * lit_1em9))"

definition ReportLatencyCounters :: "counters \<Rightarrow> rat list \<Rightarrow> counters res" where
  "ReportLatencyCounters cs lat_sec =
     (if lat_sec = [] then Inr cs
      else rbind (Percentile lat_sec p50) (\<lambda>med. rbind (Percentile lat_sec p99) (\<lambda>hi.
        Inr (cs(''min_ns'' \<mapsto> fl (min_element lat_sec * lit_1e9),
                ''max_ns'' \<mapsto> fl (max_element lat_sec * lit_1e9),
                ''median_ns'' \<mapsto> fl (med * lit_1e9),
                ''p99_ns'' \<mapsto> fl (hi * lit_1e9))))))"

section \<open>Take statistics\<close>

record MtTakeStats =
  mt_n :: u64
  mt_n_queued :: u64
  mt_sum_e2e :: rat
  mt_sum_queued_e2e :: rat
  mt_sum_fresh_e2e :: rat
  mt_sum_wait :: rat

definition mt_init :: MtTakeStats where
  "mt_init = \<lparr>mt_n = 0, mt_n_queued = 0, mt_sum_e2e = 0, mt_sum_queued_e2e = 0,
     mt_sum_fresh_e2e = 0, mt_sum_wait = 0\<rparr>"

definition Record :: "rat \<Rightarrow> bool \<Rightarrow> rat \<Rightarrow> MtTakeStats \<Rightarrow> MtTakeStats" where
  "Record e2e_sec was_queued wait_sec m =
     (let m = m\<lparr>mt_n := mt_n m + 1, mt_sum_e2e := fl (mt_sum_e2e m + e2e_sec),
                mt_sum_wait := fl (mt_sum_wait m + wait_sec)\<rparr> in
      if was_queued
      then m\<lparr>mt_n_queued := mt_n_queued m + 1, mt_sum_queued_e2e := fl (mt_sum_queued_e2e m + e2e_sec)\<rparr>
      else m\<lparr>mt_sum_fresh_e2e := fl (mt_sum_fresh_e2e m + e2e_sec)\<rparr>)"

definition Report :: "counters \<Rightarrow> MtTakeStats \<Rightarrow> counters" where
  "Report cs m =
     (if mt_n m = 0 then cs
      else let cs = cs(''queued_pct'' \<mapsto> fl (fl (100 * dbl_of_u64 (mt_n_queued m)) / dbl_of_u64 (mt_n m)),
                       ''wait_ns'' \<mapsto> fl (fl (mt_sum_wait m / dbl_of_u64 (mt_n m)) * lit_1e9));
               cs = (if 0 < mt_n_queued m
                     then cs(''queued_lat_ns'' \<mapsto> fl (fl (mt_sum_queued_e2e m / dbl_of_u64 (mt_n_queued m)) * lit_1e9))
                     else cs);
               n_fresh = mt_n m - mt_n_queued m in
           if 0 < n_fresh
           then cs(''fresh_lat_ns'' \<mapsto> fl (fl (mt_sum_fresh_e2e m / dbl_of_u64 n_fresh) * lit_1e9))
           else cs)"

section \<open>Percentiles are safe and exact where rounding is\<close>

lemma percentile_copies: "PercentileUs_net = PercentileUs" "Percentile = PercentileUs" "MeanUs_net = MeanUs"
  by (simp_all add: fun_eq_iff PercentileUs_net_def PercentileUs_def Percentile_def MeanUs_net_def MeanUs_def)

text \<open>The two indices and the weight, for a probability \<open>p\<close> and \<open>n\<close> samples.\<close>

definition pct_idx :: "nat \<Rightarrow> rat \<Rightarrow> rat" where
  "pct_idx n p = fl (p * dbl_of_size (n - 1))"

lemma pct_idx_range:
  assumes "0 \<le> p" and "p \<le> 1" and "n - 1 \<le> 2 ^ 53"
  shows "0 \<le> pct_idx n p" and "pct_idx n p \<le> of_nat (n - 1)"
proof -
  have "0 \<le> p * of_nat (n - 1)" using assms(1) by simp
  then show "0 \<le> pct_idx n p" using assms(3) by (simp add: pct_idx_def fl_nonneg)
  have "p * of_nat (n - 1) \<le> of_nat (n - 1)" using assms(1,2) by (intro mult_left_le_one_le) auto
  then have "fl (p * of_nat (n - 1)) \<le> of_nat (n - 1)"
    using assms by (intro fl_le_nat) auto
  then show "pct_idx n p \<le> of_nat (n - 1)" using assms(3) by (simp add: pct_idx_def)
qed

lemma PercentileUs_value:
  assumes "us \<noteq> []" and "0 \<le> p" and "p \<le> 1" and "length us \<le> 2 ^ 53"
  defines "n \<equiv> length us"
  defines "lo \<equiv> nat \<lfloor>pct_idx n p\<rfloor>"
  defines "w \<equiv> fl (pct_idx n p - of_nat lo)"
  shows "lo < n" and "0 \<le> w" and "w \<le> 1"
    and "PercentileUs us p = Inr (fl (fl (sort us ! lo * fl (1 - w)) + fl (sort us ! min (lo + 1) (n - 1) * w)))"
proof -
  have n: "0 < n" "n - 1 \<le> 2 ^ 53" using assms by auto
  note r = pct_idx_range [OF assms(2,3) n(2)]
  have "\<lfloor>pct_idx n p\<rfloor> \<le> int (n - 1)" using r(2) by (simp add: floor_le_iff)
  then have lo: "lo \<le> n - 1" by (simp add: lo_def)
  then show lt: "lo < n" using n(1) by simp
  have lor: "of_nat lo = (of_int \<lfloor>pct_idx n p\<rfloor> :: rat)" using r(1) by (simp add: lo_def)
  have d: "0 \<le> pct_idx n p - of_nat lo" "pct_idx n p - of_nat lo \<le> 1"
    unfolding lor by linarith+
  show "0 \<le> w" unfolding w_def using d(1) by (rule fl_nonneg)
  show "w \<le> 1" unfolding w_def using fl_mono [OF d] by simp
  have "pct_idx n p < 2 ^ 64"
  proof -
    have "pct_idx n p \<le> of_nat (n - 1)" by (rule r(2))
    also have "\<dots> \<le> of_nat (2 ^ 53)" using n(2) by (simp only: of_nat_le_iff)
    finally show ?thesis by simp
  qed
  then have "size_of_dbl (pct_idx n p) = Inr lo"
    using r(1) by (simp add: size_of_dbl_def lo_def)
  moreover have "dbl_of_size lo = of_nat lo" using lo n(2) by simp
  moreover have "min (lo + 1) (n - 1) < n" using n(1) by simp
  ultimately show "PercentileUs us p = Inr (fl (fl (sort us ! lo * fl (1 - w)) + fl (sort us ! min (lo + 1) (n - 1) * w)))"
    using assms(1) lt by (simp add: PercentileUs_def n_def nthE_def w_def Let_def pct_idx_def)
qed


text \<open>Any probability literal of the code is between 0 and 1, so reports never fault.\<close>

lemma p99_bounds: "0 \<le> p99" "p99 \<le> 1"
proof -
  show "0 \<le> p99" unfolding p99_def by (rule fl_nonneg) simp
  show "p99 \<le> 1" unfolding p99_def using fl_mono [of "99 / 100" 1] by simp
qed

lemma PercentileUs_total:
  assumes "0 \<le> p" and "p \<le> 1" and "length us \<le> 2 ^ 53"
  shows "\<exists>m. PercentileUs us p = Inr m"
proof (cases "us = []")
  case True
  then show ?thesis by (simp add: PercentileUs_def)
next
  case False
  then show ?thesis using PercentileUs_value(4) [OF False assms] by blast
qed

text \<open>Halving a double is exact outside the subnormals.\<close>

lemma ilog2_half: "0 < x \<Longrightarrow> ilog2 (x / 2) = ilog2 x - 1"
  by (rule ilog2_unique) (use ilog2_bounds [of x] in \<open>simp_all add: power_int_diff power_int_add\<close>)

lemma fl_half:
  assumes "fl a = a" and "2 powi (- 1021) \<le> a" shows "fl (a / 2) = a / 2"
proof -
  have a: "0 < a" using assms(2) by (rule less_le_trans [rotated]) simp
  have "(2::rat) powi (- 1021) < 2 powi (ilog2 a + 1)"
    using assms(2) ilog2_bounds(2) [OF a] by (rule le_less_trans)
  then have "- 1021 \<le> ilog2 a"
    using power_int_increasing [of "ilog2 a + 1" "- 1021" "2::rat"] by force
  then have "f64_exp (a / 2) = f64_exp a - 1"
    using a ilog2_half [OF a] by (simp add: f64_exp_def)
  then have u: "f64_ulp (a / 2) = f64_ulp a / 2"
    by (simp add: f64_ulp_def power_int_diff)
  have "of_int (round_even (a / f64_ulp a)) * f64_ulp a = a"
    using assms(1) a by (simp add: fl_def)
  then show ?thesis using a by (simp add: fl_def u)
qed

lemma pct_idx_p50:
  assumes "0 < n" and "n \<le> 2 ^ 52" shows "pct_idx n p50 = of_nat (n - 1) / 2"
proof -
  have "fl (of_nat (n - 1) / 2) = of_nat (n - 1) / 2" if n1: "n \<noteq> 1"
  proof (rule fl_exact_power [where m = "int (n - 1)" and k = "- 1"])
    show "of_nat (n - 1) / 2 = (of_int (int (n - 1)) * 2 powi - 1 :: rat)" by simp
    have "ilog2 (of_nat (n - 1) / 2) \<le> 51"
    proof (rule ccontr)
      have pos: "(0::rat) < of_nat (n - 1) / 2" using assms(1) n1 by simp
      assume "\<not> ilog2 (of_nat (n - 1) / 2) \<le> 51"
      then have "(2::rat) powi 52 \<le> 2 powi ilog2 (of_nat (n - 1) / 2)" by (intro power_int_increasing) auto
      also have "\<dots> \<le> of_nat (n - 1) / 2" by (rule ilog2_bounds(1) [OF pos])
      finally have "(of_nat (2 ^ 53) :: rat) \<le> of_nat (n - 1)" by simp
      then have "2 ^ 53 \<le> n - 1" by (simp only: of_nat_le_iff)
      then show False using assms(2) by simp
    qed
    then show "f64_exp (of_nat (n - 1) / 2) - 52 \<le> - 1"
      by (simp add: f64_exp_def)
  qed
  moreover have "n - 1 \<le> 2 ^ 53" using assms(2) by simp
  ultimately show ?thesis by (cases "n = 1") (simp_all add: pct_idx_def p50_def)
qed

lemma PercentileUs_median:
  assumes "us \<noteq> []" and "length us \<le> 2 ^ 52"
    and dbl: "\<And>v. v \<in> set us \<Longrightarrow> fl v = v \<and> 2 powi (- 1021) \<le> v"
  shows "\<exists>m. PercentileUs us p50 = Inr m \<and>
    sort us ! ((length us - 1) div 2) \<le> m \<and> m \<le> sort us ! (length us div 2)"
proof -
  define n where "n = length us"
  have n: "0 < n" "n \<le> 2 ^ 52" using assms by (simp_all add: n_def)
  have idx: "pct_idx n p50 = of_nat (n - 1) / 2" by (rule pct_idx_p50 [OF n])
  define lo where "lo = (n - 1) div 2"
  have "\<lfloor>(of_nat (n - 1) / 2 :: rat)\<rfloor> = int lo"
    unfolding lo_def using floor_divide_of_nat_eq [of "n - 1" 2] by simp
  then have lo: "nat \<lfloor>pct_idx n p50\<rfloor> = lo" by (simp add: idx)
  have v: "PercentileUs us p50 = Inr (fl (fl (sort us ! lo * fl (1 - fl (of_nat (n - 1) / 2 - of_nat lo))) +
      fl (sort us ! min (lo + 1) (n - 1) * fl (of_nat (n - 1) / 2 - of_nat lo))))"
  proof -
    have "0 \<le> p50" "p50 \<le> 1" "length us \<le> 2 ^ 53" using assms(2) by (simp_all add: p50_def)
    from PercentileUs_value(4) [OF assms(1) this] show ?thesis
      unfolding n_def [symmetric] lo unfolding idx .
  qed
  have mem: "fl (sort us ! i) = sort us ! i \<and> 2 powi (- 1021) \<le> sort us ! i" if "i < n" for i
    using dbl [of "sort us ! i"] that nth_mem [of i "sort us"] by (simp add: n_def)
  show ?thesis
  proof (cases "even n")
    case False
    then have "n - 1 = 2 * lo" "n div 2 = lo" by (auto simp: lo_def elim!: oddE)
    then have "PercentileUs us p50 = Inr (fl (fl (sort us ! lo)))" using v by simp
    moreover have "lo < n" using n(1) unfolding lo_def by linarith
    then have "fl (sort us ! lo) = sort us ! lo" using mem by blast
    ultimately show ?thesis using \<open>n div 2 = lo\<close> by (simp add: n_def lo_def)
  next
    case True
    then have k: "n - 1 = 2 * lo + 1" "n div 2 = lo + 1" using n(1) by (auto simp: lo_def elim!: evenE)
    then have w: "of_nat (n - 1) / 2 - of_nat lo = (1 / 2 :: rat)" by (simp add: add_divide_distrib)
    have half: "fl (1 / 2) = 1 / 2" using fl_half [of 1] by simp
    define a b where "a = sort us ! lo" and "b = sort us ! (lo + 1)"
    have lt: "lo + 1 < n" using k by linarith
    have ab: "a \<le> b" unfolding a_def b_def using lt by (intro sorted_nth_mono) (simp_all add: n_def)
    have fa: "fl a = a" "fl (a / 2) = a / 2" "0 \<le> a" and fb: "fl b = b" "fl (b / 2) = b / 2"
      using mem [of lo] mem [of "lo + 1"] lt fl_half order_trans [OF less_imp_le]
      by (auto simp: a_def b_def intro!: fl_half elim: order_trans [rotated])
    have "min (lo + 1) (n - 1) = lo + 1" using lt by simp
    then have "PercentileUs us p50 = Inr (fl (fl (a * fl (1 - fl (1 / 2))) + fl (b * fl (1 / 2))))"
      using v unfolding w a_def b_def by simp
    then have "PercentileUs us p50 = Inr (fl (a / 2 + b / 2))"
      using fa fb unfolding half by (simp add: half)
    moreover have "a \<le> fl (a / 2 + b / 2)" using fl_mono [of a "a / 2 + b / 2"] ab fa by simp
    moreover have "fl (a / 2 + b / 2) \<le> b" using fl_mono [of "a / 2 + b / 2" b] ab fa fb by simp
    ultimately show ?thesis using k by (auto simp: a_def b_def n_def lo_def)
  qed
qed

section \<open>Take statistics of a run\<close>

type_synonym take_sample = "rat \<times> bool \<times> rat"

definition Record_all :: "take_sample list \<Rightarrow> MtTakeStats \<Rightarrow> MtTakeStats" where
  "Record_all rs m = foldl (\<lambda>m (e2e, queued, wait). Record e2e queued wait m) m rs"

lemma length_filter_all: "length (filter P xs) = length xs \<longleftrightarrow> (\<forall>x\<in>set xs. P x)"
proof (induction xs)
  case (Cons x xs)
  have "length (filter P xs) \<noteq> Suc (length xs)" using length_filter_le [of P xs] by linarith
  then show ?case using Cons by auto
qed simp

lemma Record_all_counts:
  "mt_n (Record_all rs m) = mt_n m + of_nat (length rs) \<and>
   mt_n_queued (Record_all rs m) = mt_n_queued m + of_nat (length (filter (\<lambda>(e, q, w). q) rs))"
proof (induction rs arbitrary: m)
  case (Cons r rs)
  obtain e q w where r: "r = (e, q, w)" by (cases r) auto
  have "mt_n (Record e q w m) = mt_n m + 1 \<and> mt_n_queued (Record e q w m) = mt_n_queued m + (if q then 1 else 0)"
    by (simp add: Record_def Let_def)
  then show ?case using Cons [of "Record e q w m"] by (simp add: r Record_all_def add.assoc)
qed (simp add: Record_all_def)

lemma unat_Record_all:
  assumes "length rs < 2 ^ 64"
  shows "unat (mt_n (Record_all rs mt_init)) = length rs"
    and "unat (mt_n_queued (Record_all rs mt_init)) = length (filter (\<lambda>(e, q, w). q) rs)"
proof -
  have "length (filter (\<lambda>(e, q, w). q) rs) < 2 ^ 64" using assms length_filter_le [of _ rs] by (rule le_less_trans [rotated])
  then show "unat (mt_n (Record_all rs mt_init)) = length rs"
    "unat (mt_n_queued (Record_all rs mt_init)) = length (filter (\<lambda>(e, q, w). q) rs)"
    using Record_all_counts [of rs mt_init] assms by (simp_all add: mt_init_def unat_of_nat)
qed

section \<open>Properties\<close>

text \<open>
  C27. The median the reports print lies between the two middle samples of the sorted list, for
  up to \<open>2 ^ 52\<close> samples that are normal doubles: rounding does not push it out.
\<close>

theorem reported_median_between_middle_samples:
  assumes "us \<noteq> []" and "length us \<le> 2 ^ 52"
    and "\<forall>v\<in>set us. fl v = v \<and> 2 powi (- 1021) \<le> v"
  shows "\<exists>m. PercentileUs us p50 = Inr m \<and>
    sort us ! ((length us - 1) div 2) \<le> m \<and> m \<le> sort us ! (length us div 2)"
  using PercentileUs_median [OF assms(1,2)] assms(3) by blast

lemma reported_median_between_middle_samples_witness:
  "\<exists>m. PercentileUs [4, 1, 2] p50 = Inr m \<and> 2 \<le> m \<and> m \<le> 2"
proof -
  have "fl 1 = 1" "fl 2 = 2" "fl 4 = 4" using fl_of_nat [of 1] fl_of_nat [of 2] fl_of_nat [of 4] by simp_all
  moreover have "(2::rat) powi (- 1021) \<le> 2 powi 0" by (rule power_int_increasing) simp_all
  ultimately have "\<forall>v\<in>set [4, 1, 2]. fl v = v \<and> (2::rat) powi (- 1021) \<le> v" by simp
  from reported_median_between_middle_samples [OF _ _ this] show ?thesis by simp
qed

text \<open>
  The take counters of a multithreaded run are exact and never wrap: the number of samples,
  the number of queued ones, and their difference (the fresh ones). The report has an entry for
  queued samples exactly when there are some, one for fresh samples exactly when there are
  some, and a percentage from 0 to 100.
\<close>

theorem take_report_exact:
  assumes "rs \<noteq> []" and "length rs \<le> 2 ^ 46"
  defines "m \<equiv> Record_all rs mt_init"
  shows "unat (mt_n m) = length rs \<and> unat (mt_n_queued m) = length (filter (\<lambda>(e, q, w). q) rs) \<and>
    (Report Map.empty m ''queued_lat_ns'' \<noteq> None \<longleftrightarrow> (\<exists>(e, q, w)\<in>set rs. q)) \<and>
    (Report Map.empty m ''fresh_lat_ns'' \<noteq> None \<longleftrightarrow> (\<exists>(e, q, w)\<in>set rs. \<not> q)) \<and>
    (\<exists>p. Report Map.empty m ''queued_pct'' = Some p \<and> 0 \<le> p \<and> p \<le> 100)"
proof -
  define k where "k = length (filter (\<lambda>(e, q, w). q) rs)"
  have k: "k \<le> length rs" "k = 0 \<longleftrightarrow> \<not> (\<exists>(e, q, w)\<in>set rs. q)" "k = length rs \<longleftrightarrow> \<not> (\<exists>(e, q, w)\<in>set rs. \<not> q)"
  proof -
    show "k \<le> length rs" by (simp add: k_def)
    show "k = 0 \<longleftrightarrow> \<not> (\<exists>(e, q, w)\<in>set rs. q)" by (auto simp: k_def filter_empty_conv)
    show "k = length rs \<longleftrightarrow> \<not> (\<exists>(e, q, w)\<in>set rs. \<not> q)"
      unfolding k_def length_filter_all by auto
  qed
  have u: "unat (mt_n m) = length rs" "unat (mt_n_queued m) = k"
    using unat_Record_all [of rs] assms(2) by (simp_all add: m_def k_def)
  have n0: "mt_n m \<noteq> 0" using u(1) assms(1) by auto
  have fresh: "unat (mt_n m - mt_n_queued m) = length rs - k"
    using u k(1) by (simp add: unat_sub_if')
  have "0 < mt_n m - mt_n_queued m \<longleftrightarrow> k \<noteq> length rs"
    using fresh k(1) by (auto simp: word_less_nat_alt)
  moreover have "0 < mt_n_queued m \<longleftrightarrow> k \<noteq> 0" using u(2) by (simp add: word_less_nat_alt)
  moreover have "\<exists>p. Report Map.empty m ''queued_pct'' = Some p \<and> 0 \<le> p \<and> p \<le> 100"
  proof -
    have "dbl_of_u64 (mt_n m) = of_nat (length rs)" "dbl_of_u64 (mt_n_queued m) = of_nat k"
      using u k(1) assms(2) by (simp_all add: dbl_of_u64_def)
    moreover have "fl (100 * of_nat k) = 100 * of_nat k"
      using fl_of_nat [of "100 * k"] k(1) assms(2) by simp
    moreover have "0 \<le> (100 * of_nat k / of_nat (length rs) :: rat)" "100 * of_nat k / of_nat (length rs) \<le> (100 :: rat)"
      using k(1) assms(1) by (simp_all add: divide_le_eq)
    moreover from this have "0 \<le> fl (100 * of_nat k / of_nat (length rs))" "fl (100 * of_nat k / of_nat (length rs)) \<le> 100"
      using fl_nonneg fl_le_nat [of "100 * of_nat k / of_nat (length rs)" 100] by simp_all
    ultimately show ?thesis using n0 by (simp add: Report_def Let_def)
  qed
  ultimately show ?thesis using u k n0 by (simp add: Report_def Let_def k_def [symmetric])
qed

lemma take_report_exact_witness:
  "unat (mt_n (Record_all [(1, True, 0), (2, False, 1)] mt_init)) = 2 \<and>
   Report Map.empty (Record_all [(1, True, 0), (2, False, 1)] mt_init) ''fresh_lat_ns'' \<noteq> None"
  using take_report_exact [of "[(1, True, 0), (2, False, 1)]"] by simp

end
