(* ===== verification/Fragment.thy ===== *)
theory Fragment
  imports Bench_Prelude "HOL-Library.Sublist"
begin

text \<open>
  The user-space chunking layer of the vsomeip benchmark (\<open>vsomeip/bench/constants.h\<close> and
  \<open>vsomeip/bench/fragment.h\<close>): how a frame is split into notifications, the packed chunk
  header, and the subscriber's \<open>FrameTracker\<close>, which recognises a complete frame without
  reassembling it. \<open>size_t\<close> is \<open>u64\<close>, so \<open>PlanChunks\<close> keeps the wrap-around of its
  unsigned arithmetic and faults where the C++ code divides by zero.
\<close>

section \<open>Constants\<close>

definition kServiceId :: u16 where "kServiceId = 0xBEEF"
definition kInstanceId :: u16 where "kInstanceId = 0x0001"
definition kEventgroupId :: u16 where "kEventgroupId = 0x0001"
definition kEventId :: u16 where "kEventId = 0x8001"
definition kEchoMethodId :: u16 where "kEchoMethodId = 0x0001"

definition kBenchSendNsOffset :: nat where "kBenchSendNsOffset = 0"
definition kBenchSeqOffset :: nat where "kBenchSeqOffset = 8"
definition kBenchHeaderBytes :: nat where "kBenchHeaderBytes = 12"
definition kE2eHeaderBytes :: nat where "kE2eHeaderBytes = 12"

text \<open>The two builds differ in the macro \<open>VSOMEIP_BENCH_COVESA_E2E_HOLES\<close>.\<close>

datatype build = Covesa_Build | Sgmenon_Build

fun kE2eHoleBytes :: "build \<Rightarrow> nat" where
  "kE2eHoleBytes Covesa_Build = kE2eHeaderBytes"
| "kE2eHoleBytes Sgmenon_Build = 0"

section \<open>The chunk header\<close>

record ChunkHeader =
  hdr_seq :: u32
  hdr_index :: u16
  hdr_count :: u16

text \<open>\<open>#pragma pack(1)\<close>: the three fields follow each other without padding.\<close>

definition sizeof_ChunkHeader :: nat where "sizeof_ChunkHeader = 8"

definition encode_header :: "ChunkHeader \<Rightarrow> bytes" where
  "encode_header h = le_bytes (hdr_seq h) @ le_bytes (hdr_index h) @ le_bytes (hdr_count h)"

definition decode_header :: "bytes \<Rightarrow> ChunkHeader" where
  "decode_header bs =
     \<lparr>hdr_seq = le_word (take 4 bs), hdr_index = le_word (take 2 (drop 4 bs)),
      hdr_count = le_word (take 2 (drop 6 bs))\<rparr>"

definition kChunkSendNsOffset :: nat where "kChunkSendNsOffset = sizeof_ChunkHeader"
definition kMinFrameBytes :: nat where "kMinFrameBytes = kChunkSendNsOffset + 8"

lemmas frag_consts = kE2eHeaderBytes_def sizeof_ChunkHeader_def kChunkSendNsOffset_def
  kMinFrameBytes_def kBenchHeaderBytes_def kBenchSendNsOffset_def kBenchSeqOffset_def

section \<open>Planning and writing chunks\<close>

record ChunkPlan =
  plan_count :: u64
  plan_len :: u64

definition PlanChunks :: "u64 \<Rightarrow> u64 \<Rightarrow> ChunkPlan res" where
  "PlanChunks sz max_datagram =
     (let budget = max_datagram - of_nat kE2eHeaderBytes in
      if budget = 0 then Inl Div_by_zero
      else let count = (sz + budget - 1) div budget in
        if count = 0 then Inl Div_by_zero
        else Inr \<lparr>plan_count = count, plan_len = (sz + count - 1) div count\<rparr>)"

definition chunk_header :: "u32 \<Rightarrow> ChunkPlan \<Rightarrow> nat \<Rightarrow> ChunkHeader" where
  "chunk_header seq plan i =
     \<lparr>hdr_seq = seq, hdr_index = of_nat i, hdr_count = ucast (plan_count plan)\<rparr>"

definition WriteChunkHeaders :: "bytes \<Rightarrow> u32 \<Rightarrow> ChunkPlan \<Rightarrow> bytes res" where
  "WriteChunkHeaders block seq plan =
     foldE (\<lambda>i blk. write_at (unat (of_nat i * plan_len plan)) (encode_header (chunk_header seq plan i)) blk)
       [0..<unat (plan_count plan)] block"

definition StampSendNs :: "bytes \<Rightarrow> u64 \<Rightarrow> bytes res" where
  "StampSendNs block send_ns = write_at kChunkSendNsOffset (le_bytes send_ns) block"

section \<open>The frame tracker\<close>

record CompletedFrame =
  frame_seq :: u32
  frame_send_ns :: u64

record FrameTracker =
  trk_active :: bool
  trk_seq :: u32
  trk_next :: u16
  trk_send_ns :: u64

definition init_tracker :: FrameTracker where
  "init_tracker = \<lparr>trk_active = False, trk_seq = 0, trk_next = 0, trk_send_ns = 0\<rparr>"

definition start_frame :: "ChunkHeader \<Rightarrow> bytes \<Rightarrow> FrameTracker \<Rightarrow> FrameTracker" where
  "start_frame hdr d t =
     t\<lparr>trk_active := True, trk_seq := hdr_seq hdr, trk_next := 0,
       trk_send_ns := le_word (take 8 (drop kChunkSendNsOffset d))\<rparr>"

text \<open>The part of \<open>ingest\<close> after the chunk-0 branch.\<close>

definition follow_chunk :: "ChunkHeader \<Rightarrow> FrameTracker \<Rightarrow> CompletedFrame option \<times> FrameTracker" where
  "follow_chunk hdr t =
     (if \<not> trk_active t \<or> hdr_seq hdr \<noteq> trk_seq t \<or> hdr_index hdr \<noteq> trk_next t
      then (None, t\<lparr>trk_active := False\<rparr>)
      else let t = t\<lparr>trk_next := trk_next t + 1\<rparr> in
        if trk_next t < hdr_count hdr then (None, t)
        else (Some \<lparr>frame_seq = trk_seq t, frame_send_ns = trk_send_ns t\<rparr>, t\<lparr>trk_active := False\<rparr>))"

definition ingest :: "build \<Rightarrow> bytes \<Rightarrow> FrameTracker \<Rightarrow> CompletedFrame option \<times> FrameTracker" where
  "ingest b data t =
     (if length data < kE2eHoleBytes b + sizeof_ChunkHeader then (None, t)
      else let d = drop (kE2eHoleBytes b) data; hdr = decode_header (take sizeof_ChunkHeader d) in
        if hdr_index hdr = 0
        then if length d < kMinFrameBytes then (None, t\<lparr>trk_active := False\<rparr>)
             else follow_chunk hdr (start_frame hdr d t)
        else follow_chunk hdr t)"

text \<open>Feeding the payloads of a sequence of notifications, in arrival order.\<close>

fun ingest_all :: "build \<Rightarrow> bytes list \<Rightarrow> FrameTracker \<Rightarrow> CompletedFrame option list \<times> FrameTracker" where
  "ingest_all b [] t = ([], t)"
| "ingest_all b (p # ps) t =
     (let (out, t') = ingest b p t; (outs, t'') = ingest_all b ps t' in (out # outs, t''))"

section \<open>Lemmas on the header and the plan\<close>

lemma length_encode_header [simp]: "length (encode_header h) = sizeof_ChunkHeader"
  by (simp add: encode_header_def frag_consts)

lemma decode_encode_header_append [simp]: "decode_header (encode_header h @ rest) = h"
  by (simp add: decode_header_def encode_header_def)

lemma decode_encode_header [simp]: "decode_header (encode_header h) = h"
  using decode_encode_header_append [of h "[]"] by simp

lemma ceil_div_bounds:
  fixes s b :: nat
  assumes "0 < s" and "0 < b"
  defines "c \<equiv> (s + b - 1) div b"
  shows "0 < c" and "(c - 1) * b < s" and "s \<le> c * b"
proof -
  have e: "s + b - 1 = c * b + (s + b - 1) mod b" by (simp add: c_def)
  have m: "(s + b - 1) mod b < b" using assms(2) by simp
  show le: "s \<le> c * b" using e m by linarith
  then show "0 < c" using assms(1) by (cases "c = 0") auto
  then obtain c' where c': "c = Suc c'" by (cases c) auto
  have "c * b \<le> s + b - 1" using e by linarith
  then have "c' * b < s" using assms(1,2) by (simp add: c')
  then show "(c - 1) * b < s" by (simp add: c')
qed

text \<open>
  The unsigned plan computed by the code is the exact one as long as nothing wraps, which
  holds for all sizes below \<open>2 ^ 63\<close> and every \<open>--max-datagram\<close> above 12 and below
  \<open>2 ^ 63\<close>.
\<close>

lemma unat_ceil_div:
  fixes s b :: u64
  assumes "0 < unat s" and "0 < unat b" and "unat s + unat b \<le> 2 ^ 64"
  shows "unat ((s + b - 1) div b) = (unat s + unat b - 1) div unat b"
proof -
  have "unat (b - 1) = unat b - 1" by (rule unat_minus_one) (use assms(2) in auto)
  then have "unat (s + (b - 1)) = unat s + (unat b - 1)"
    using assms by (simp add: unat_plus_if')
  moreover have "unat (s + b - 1) = unat (s + (b - 1))" by (simp add: add_diff_eq)
  ultimately have "unat (s + b - 1) = unat s + unat b - 1" using assms(2) by linarith
  then show ?thesis by (simp add: unat_div)
qed

definition plan_tiles :: "ChunkPlan \<Rightarrow> nat \<Rightarrow> bool" where
  "plan_tiles plan n \<longleftrightarrow>
     (let c = unat (plan_count plan); l = unat (plan_len plan) in
      0 < c \<and> 0 < l \<and> (c - 1) * l < n \<and> n \<le> c * l \<and> n < 2 ^ 64)"

lemma PlanChunks_exact:
  assumes "12 < unat md" and "unat md < 2 ^ 63" and "0 < unat sz" and "unat sz < 2 ^ 63"
  defines "c \<equiv> (unat sz + (unat md - 12) - 1) div (unat md - 12)"
  shows "\<exists>plan. PlanChunks sz md = Inr plan \<and> unat (plan_count plan) = c \<and>
    unat (plan_len plan) = (unat sz + c - 1) div c"
proof -
  define b :: u64 where "b = md - 12"
  have ub: "unat b = unat md - 12" using assms(1) by (simp add: b_def unat_sub_if')
  have b0: "b \<noteq> 0" using ub assms(1) by (metis unat_0 zero_less_diff less_numeral_extra(3))
  have uc: "unat ((sz + b - 1) div b) = c"
    using unat_ceil_div [of sz b] ub assms by (simp add: c_def)
  have cpos: "0 < c" and cle: "(c - 1) * unat b < unat sz"
    using ceil_div_bounds [of "unat sz" "unat b"] ub assms by (simp_all add: c_def)
  have "1 \<le> unat b" using ub assms(1) by simp
  then have "c - 1 \<le> (c - 1) * unat b" by simp
  then have "c \<le> unat sz" using cpos cle by linarith
  then have "unat ((sz + (sz + b - 1) div b - 1) div ((sz + b - 1) div b)) = (unat sz + c - 1) div c"
    using unat_ceil_div [of sz "(sz + b - 1) div b"] uc cpos assms by simp
  moreover have "(sz + b - 1) div b \<noteq> 0" using uc cpos by (metis unat_0 less_numeral_extra(3))
  ultimately show ?thesis
    using uc b0 by (simp add: PlanChunks_def b_def frag_consts Let_def)
qed

lemma PlanChunks_tiles:
  assumes "12 < unat md" and "unat md < 2 ^ 63" and "0 < unat sz" and "unat sz < 2 ^ 63"
  shows "\<exists>plan. PlanChunks sz md = Inr plan \<and> plan_tiles plan (unat sz) \<and>
    unat (plan_len plan) \<le> unat md - 12"
proof -
  define b where "b = unat md - 12"
  define c where "c = (unat sz + b - 1) div b"
  define l where "l = (unat sz + c - 1) div c"
  obtain plan where p: "PlanChunks sz md = Inr plan" "unat (plan_count plan) = c" "unat (plan_len plan) = l"
    using PlanChunks_exact [OF assms] unfolding b_def c_def l_def by blast
  have c: "0 < c" "(c - 1) * b < unat sz" "unat sz \<le> c * b"
    using ceil_div_bounds [of "unat sz" b] assms by (simp_all add: c_def b_def)
  have l: "0 < l" "(l - 1) * c < unat sz" "unat sz \<le> l * c"
    using ceil_div_bounds [of "unat sz" c] c assms by (simp_all add: l_def)
  have "(l - 1) * c < b * c" using l(2) c(3) by (metis less_le_trans mult.commute)
  then have "l - 1 < b" by (simp only: mult_less_cancel2)
  then have lb: "l \<le> b" by linarith
  then have "(c - 1) * l \<le> (c - 1) * b" by simp
  then have "(c - 1) * l < unat sz" using c(2) by linarith
  moreover have "unat sz \<le> c * l" using l(3) by (simp add: mult.commute)
  ultimately have "plan_tiles plan (unat sz)"
    using c(1) l(1) p(2,3) unat_u64_less [of sz] unfolding plan_tiles_def Let_def by blast
  then show ?thesis using p lb by (auto simp: b_def)
qed

lemma PlanChunks_no_budget:
  assumes "unat md \<le> 12" and "13 \<le> unat sz"
  shows "PlanChunks sz md = Inl Div_by_zero"
proof (cases "md = 12")
  case True
  then show ?thesis by (simp add: PlanChunks_def frag_consts)
next
  case False
  define b where "b = md - 12"
  have "unat md \<noteq> unat (12 :: u64)" using False by (metis word_unat_eq_iff)
  then have m: "unat md < 12" using assms(1) by simp
  have ub: "unat b = unat md + 2 ^ 64 - 12" using m by (simp add: b_def unat_sub_if')
  then have b0: "b \<noteq> 0" using m by auto
  have "unat (b - 1) = unat b - 1" by (rule unat_minus_one [OF b0])
  then have "unat (sz + (b - 1)) = unat sz + (unat b - 1) - 2 ^ 64"
    using assms ub by (simp add: unat_plus_if')
  then have "unat (sz + b - 1) < unat b"
    using ub m assms(2) unat_u64_less [of sz] by (simp add: add_diff_eq)
  then have "(sz + b - 1) div b = 0"
    by (simp add: word_unat_eq_iff unat_div)
  with b0 show ?thesis by (simp add: PlanChunks_def b_def frag_consts Let_def)
qed

text \<open>
  Where the last chunk has room for a header (\<open>plan_roomy\<close>), writing the headers never
  leaves the block, and each chunk then starts with its own header.
\<close>

definition plan_roomy :: "ChunkPlan \<Rightarrow> nat \<Rightarrow> bool" where
  "plan_roomy plan n \<longleftrightarrow>
     (unat (plan_count plan) - 1) * unat (plan_len plan) + sizeof_ChunkHeader \<le> n"

definition chunk_off :: "ChunkPlan \<Rightarrow> nat \<Rightarrow> nat" where
  "chunk_off plan i = unat (of_nat i * plan_len plan)"

lemma chunk_off_exact:
  assumes "plan_tiles plan n" and "i < unat (plan_count plan)"
  shows "chunk_off plan i = i * unat (plan_len plan)"
proof -
  let ?l = "unat (plan_len plan)"
  have "i * ?l \<le> (unat (plan_count plan) - 1) * ?l" using assms(2) by (intro mult_le_mono1) linarith
  also have "\<dots> < 2 ^ 64" using assms(1) by (simp add: plan_tiles_def Let_def)
  finally have lt: "i * ?l < 2 ^ 64" .
  have "i < 2 ^ 64" using assms(2) unat_u64_less [of "plan_count plan"] by linarith
  then have "unat (of_nat i :: u64) = i" by (simp add: unat_of_nat)
  then show ?thesis using lt by (simp add: chunk_off_def unat_word_ariths)
qed

lemma plan_chunk_room:
  assumes "plan_tiles plan n" and "plan_roomy plan n" and "i < unat (plan_count plan)"
  shows "chunk_off plan i + sizeof_ChunkHeader \<le> n"
    and "\<And>j. j < i \<Longrightarrow> chunk_off plan j + sizeof_ChunkHeader \<le> chunk_off plan i"
proof -
  let ?c = "unat (plan_count plan)" and ?l = "unat (plan_len plan)"
  have "i * ?l \<le> (?c - 1) * ?l" using assms(3) by (intro mult_le_mono1) linarith
  then show "chunk_off plan i + sizeof_ChunkHeader \<le> n"
    using assms(2) unfolding chunk_off_exact [OF assms(1,3)] plan_roomy_def by linarith
  fix j assume "j < i"
  then have "2 \<le> ?c" using assms(3) by linarith
  then have "n \<le> (?c - 1) * ?l + ?l"
    using assms(1) by (cases ?c) (auto simp: plan_tiles_def Let_def)
  then have l8: "sizeof_ChunkHeader \<le> ?l" using assms(2) by (simp add: plan_roomy_def)
  have "(j + 1) * ?l \<le> i * ?l" using \<open>j < i\<close> by (intro mult_le_mono1) simp
  then have "j * ?l + sizeof_ChunkHeader \<le> i * ?l" using l8 by simp
  then show "chunk_off plan j + sizeof_ChunkHeader \<le> chunk_off plan i"
    using assms \<open>j < i\<close> by (simp add: chunk_off_exact)
qed

lemma WriteChunkHeaders_prefix:
  assumes "plan_tiles plan (length blk)" and "plan_roomy plan (length blk)"
    and "k \<le> unat (plan_count plan)"
  shows "\<exists>blk'. foldE (\<lambda>i. write_at (chunk_off plan i) (encode_header (chunk_header sq plan i))) [0..<k] blk = Inr blk' \<and>
    length blk' = length blk \<and>
    (\<forall>i<k. take sizeof_ChunkHeader (drop (chunk_off plan i) blk') = encode_header (chunk_header sq plan i)) \<and>
    (\<forall>j<length blk. (\<forall>i<k. \<not> (chunk_off plan i \<le> j \<and> j < chunk_off plan i + sizeof_ChunkHeader)) \<longrightarrow> blk' ! j = blk ! j)"
  using assms(3)
proof (induction k)
  case 0
  then show ?case by simp
next
  case (Suc k)
  let ?f = "\<lambda>i. write_at (chunk_off plan i) (encode_header (chunk_header sq plan i))"
  obtain b where b: "foldE ?f [0..<k] blk = Inr b" "length b = length blk"
    "\<forall>i<k. take sizeof_ChunkHeader (drop (chunk_off plan i) b) = encode_header (chunk_header sq plan i)"
    "\<forall>j<length blk. (\<forall>i<k. \<not> (chunk_off plan i \<le> j \<and> j < chunk_off plan i + sizeof_ChunkHeader)) \<longrightarrow> b ! j = blk ! j"
    using Suc by auto
  have k: "k < unat (plan_count plan)" using Suc.prems by simp
  note room = plan_chunk_room [OF assms(1,2) k]
  obtain b' where w: "?f k b = Inr b'"
    using room(1) b(2) by (auto simp: write_at_def)
  have "take sizeof_ChunkHeader (drop (chunk_off plan i) b') = encode_header (chunk_header sq plan i)" if "i < Suc k" for i
  proof (cases "i = k")
    case True
    then show ?thesis using write_at_same [OF w] by simp
  next
    case False
    then have "i < k" using that by simp
    then show ?thesis
      using write_at_disjoint [OF w, of "chunk_off plan i" sizeof_ChunkHeader] room(2) b(3) by simp
  qed
  moreover have "b' ! j = blk ! j"
    if "j < length blk" and "\<forall>i<Suc k. \<not> (chunk_off plan i \<le> j \<and> j < chunk_off plan i + sizeof_ChunkHeader)" for j
    using write_at_nth [OF w, of j] b(2,4) that by (auto simp: less_Suc_eq)
  ultimately show ?case
    using b(1,2) w write_at_length [OF w] by (simp add: foldE_append)
qed

lemma WriteChunkHeaders_as_offsets:
  "WriteChunkHeaders blk sq plan =
     foldE (\<lambda>i. write_at (chunk_off plan i) (encode_header (chunk_header sq plan i))) [0..<unat (plan_count plan)] blk"
  by (simp add: WriteChunkHeaders_def chunk_off_def)

text \<open>
  Without that room the code writes past the end of the block: the last header does not
  fit, whatever the earlier ones did.
\<close>

lemma foldE_write_length:
  "foldE (\<lambda>i. write_at (off i) (bs i)) is blk = Inr blk' \<Longrightarrow> length blk' = length blk"
  by (rule foldE_invariant [where P = "\<lambda>b. length b = length blk"]) (auto dest: write_at_length)

lemma foldE_write_fault:
  "foldE (\<lambda>i. write_at (off i) (bs i)) is blk = Inl e \<Longrightarrow> e = Out_of_bounds"
proof (induction "is" arbitrary: blk)
  case (Cons i "is")
  then show ?case by (cases "write_at (off i) (bs i) blk") (auto simp: write_at_def split: if_splits)
qed simp

lemma WriteChunkHeaders_overrun:
  assumes "plan_tiles plan (length blk)" and "\<not> plan_roomy plan (length blk)"
  shows "WriteChunkHeaders blk sq plan = Inl Out_of_bounds"
proof -
  let ?c = "unat (plan_count plan)"
  let ?f = "\<lambda>i. write_at (chunk_off plan i) (encode_header (chunk_header sq plan i))"
  have c: "0 < ?c" using assms(1) by (simp add: plan_tiles_def Let_def)
  then have split: "[0..<?c] = [0..<?c - 1] @ [?c - 1]"
    by (metis One_nat_def Suc_pred upt_Suc_append zero_le)
  have off: "chunk_off plan (?c - 1) = (?c - 1) * unat (plan_len plan)"
    using chunk_off_exact [OF assms(1)] c by simp
  show ?thesis
  proof (cases "foldE ?f [0..<?c - 1] blk")
    case (Inl e)
    then have "e = Out_of_bounds" by (rule foldE_write_fault)
    then show ?thesis using Inl by (simp add: WriteChunkHeaders_as_offsets split foldE_append del: upt_Suc)
  next
    case (Inr b)
    then have "length b = length blk" by (rule foldE_write_length)
    then have "?f (?c - 1) b = Inl Out_of_bounds"
      using assms(2) off by (intro write_at_fault) (simp add: plan_roomy_def)
    then show ?thesis using Inr by (simp add: WriteChunkHeaders_as_offsets split foldE_append del: upt_Suc)
  qed
qed

section \<open>What the tracker recognises\<close>

definition long_payload :: "build \<Rightarrow> bytes \<Rightarrow> bool" where
  "long_payload b p \<longleftrightarrow> kE2eHoleBytes b + sizeof_ChunkHeader \<le> length p"

definition payload_header :: "build \<Rightarrow> bytes \<Rightarrow> ChunkHeader" where
  "payload_header b p = decode_header (take sizeof_ChunkHeader (drop (kE2eHoleBytes b) p))"

definition payload_stamp :: "build \<Rightarrow> bytes \<Rightarrow> u64" where
  "payload_stamp b p = le_word (take 8 (drop kChunkSendNsOffset (drop (kE2eHoleBytes b) p)))"

text \<open>
  A run: consecutive payloads with headers (seq, 0), (seq, 1), ..., the first of which has
  room for the send time and carries it. A run is pending while every chunk announces more
  chunks than have arrived.
\<close>

definition chunk_run :: "build \<Rightarrow> u32 \<Rightarrow> u64 \<Rightarrow> bytes list \<Rightarrow> bool" where
  "chunk_run b sq ns r \<longleftrightarrow>
     (\<forall>i<length r. long_payload b (r ! i) \<and> hdr_seq (payload_header b (r ! i)) = sq \<and>
        unat (hdr_index (payload_header b (r ! i))) = i) \<and>
     (r \<noteq> [] \<longrightarrow> payload_stamp b (hd r) = ns \<and> kE2eHoleBytes b + kMinFrameBytes \<le> length (hd r))"

definition pending_run :: "build \<Rightarrow> bytes list \<Rightarrow> bool" where
  "pending_run b r \<longleftrightarrow> (\<forall>i<length r. Suc i < unat (hdr_count (payload_header b (r ! i))))"

definition completed_by :: "build \<Rightarrow> bytes list \<Rightarrow> CompletedFrame \<Rightarrow> bool" where
  "completed_by b hist f \<longleftrightarrow>
     (\<exists>pre r p. filter (long_payload b) hist = pre @ r @ [p] \<and>
        chunk_run b (frame_seq f) (frame_send_ns f) (r @ [p]) \<and> pending_run b r \<and>
        unat (hdr_count (payload_header b p)) \<le> Suc (length r))"

text \<open>
  The invariant between the tracker and the payloads it has seen: an active tracker stands
  for a pending run at the end of the payloads that were long enough to hold a header.
\<close>

definition tracker_inv :: "build \<Rightarrow> bytes list \<Rightarrow> FrameTracker \<Rightarrow> bool" where
  "tracker_inv b hist t \<longleftrightarrow>
     (trk_active t \<longrightarrow> (\<exists>pre r. filter (long_payload b) hist = pre @ r \<and>
        chunk_run b (trk_seq t) (trk_send_ns t) r \<and> pending_run b r \<and>
        r \<noteq> [] \<and> length r = unat (trk_next t)))"

lemma chunk_run_snoc:
  assumes "chunk_run b sq ns r" and "long_payload b p" and "hdr_seq (payload_header b p) = sq"
    and "unat (hdr_index (payload_header b p)) = length r"
    and "r = [] \<Longrightarrow> payload_stamp b p = ns \<and> kE2eHoleBytes b + kMinFrameBytes \<le> length p"
  shows "chunk_run b sq ns (r @ [p])"
proof -
  have "long_payload b ((r @ [p]) ! i) \<and> hdr_seq (payload_header b ((r @ [p]) ! i)) = sq \<and>
      unat (hdr_index (payload_header b ((r @ [p]) ! i))) = i" if "i < length (r @ [p])" for i
    using assms that by (cases "i < length r") (simp_all add: chunk_run_def nth_append)
  moreover have "payload_stamp b (hd (r @ [p])) = ns \<and> kE2eHoleBytes b + kMinFrameBytes \<le> length (hd (r @ [p]))"
    using assms(1,5) by (cases r) (simp_all add: chunk_run_def)
  ultimately show ?thesis by (simp add: chunk_run_def)
qed

lemma pending_run_snoc:
  "pending_run b r \<Longrightarrow> Suc (length r) < unat (hdr_count (payload_header b p)) \<Longrightarrow> pending_run b (r @ [p])"
  by (auto simp: pending_run_def nth_append less_Suc_eq)

lemma pending_run_short:
  assumes "pending_run b r" shows "length r < 65535 \<or> r = []"
proof (cases r rule: rev_cases)
  case (snoc r' p)
  then have "length r < unat (hdr_count (payload_header b p))"
    using assms by (auto simp: pending_run_def nth_append dest: spec [of _ "length r'"])
  then show ?thesis using unat_u16_less [of "hdr_count (payload_header b p)"] by simp
qed simp

lemma follow_chunk_inv:
  assumes fc: "follow_chunk (payload_header b p) t = (out, t')" and long: "long_payload b p"
    and run: "trk_active t \<Longrightarrow> filter (long_payload b) hist = pre @ r \<and>
      chunk_run b (trk_seq t) (trk_send_ns t) r \<and> pending_run b r \<and> length r = unat (trk_next t) \<and>
      (r = [] \<longrightarrow> payload_stamp b p = trk_send_ns t \<and> kE2eHoleBytes b + kMinFrameBytes \<le> length p)"
  shows "tracker_inv b (hist @ [p]) t' \<and> (\<forall>f. out = Some f \<longrightarrow> completed_by b (hist @ [p]) f)"
proof (cases "\<not> trk_active t \<or> hdr_seq (payload_header b p) \<noteq> trk_seq t \<or> hdr_index (payload_header b p) \<noteq> trk_next t")
  case True
  then show ?thesis using fc by (auto simp: follow_chunk_def tracker_inv_def)
next
  case False
  let ?h = "payload_header b p"
  from run False have r: "filter (long_payload b) hist = pre @ r"
    "chunk_run b (trk_seq t) (trk_send_ns t) r" "pending_run b r" "length r = unat (trk_next t)"
    "r = [] \<Longrightarrow> payload_stamp b p = trk_send_ns t \<and> kE2eHoleBytes b + kMinFrameBytes \<le> length p"
    by auto
  have run': "chunk_run b (trk_seq t) (trk_send_ns t) (r @ [p])"
    using chunk_run_snoc [OF r(2) long] False r(4,5) by auto
  have "length r < 65535" using pending_run_short [OF r(3)] by auto
  then have nx: "unat (trk_next t + 1) = Suc (length r)"
    using r(4) by (simp add: unat_plus_if')
  have hist: "filter (long_payload b) (hist @ [p]) = pre @ r @ [p]"
    using r(1) long by simp
  show ?thesis
  proof (cases "trk_next t + 1 < hdr_count ?h")
    case True
    then have "Suc (length r) < unat (hdr_count ?h)" using nx by (simp add: word_less_nat_alt)
    then have "pending_run b (r @ [p])" by (rule pending_run_snoc [OF r(3)])
    then have "tracker_inv b (hist @ [p]) (t\<lparr>trk_next := trk_next t + 1\<rparr>)"
      using run' nx hist unfolding tracker_inv_def by (intro impI exI [of _ pre] exI [of _ "r @ [p]"]) simp
    then show ?thesis using fc False True by (auto simp: follow_chunk_def Let_def)
  next
    case le: False
    then have "unat (hdr_count ?h) \<le> Suc (length r)" using nx by (simp add: word_less_nat_alt)
    then have "completed_by b (hist @ [p]) \<lparr>frame_seq = trk_seq t, frame_send_ns = trk_send_ns t\<rparr>"
      using run' r(3) hist unfolding completed_by_def by (intro exI [of _ pre] exI [of _ r] exI [of _ p]) simp
    then show ?thesis using fc False le by (auto simp: follow_chunk_def Let_def tracker_inv_def)
  qed
qed

lemma ingest_inv:
  assumes inv: "tracker_inv b hist t" and i: "ingest b p t = (out, t')"
  shows "tracker_inv b (hist @ [p]) t' \<and> (\<forall>f. out = Some f \<longrightarrow> completed_by b (hist @ [p]) f)"
proof (cases "long_payload b p")
  case False
  then show ?thesis using assms by (auto simp: ingest_def long_payload_def tracker_inv_def)
next
  case long: True
  have hdr: "decode_header (take sizeof_ChunkHeader (drop (kE2eHoleBytes b) p)) = payload_header b p"
    by (simp add: payload_header_def)
  show ?thesis
  proof (cases "hdr_index (payload_header b p) = 0")
    case False
    then have fc: "follow_chunk (payload_header b p) t = (out, t')"
      using i long by (simp add: ingest_def long_payload_def hdr Let_def)
    show ?thesis
    proof (cases "trk_active t")
      case True
      then obtain pre r where r: "filter (long_payload b) hist = pre @ r"
        "chunk_run b (trk_seq t) (trk_send_ns t) r" "pending_run b r" "r \<noteq> []" "length r = unat (trk_next t)"
        using inv by (auto simp: tracker_inv_def)
      show ?thesis by (rule follow_chunk_inv [OF fc long, of hist pre r]) (use r in auto)
    next
      case False
      then show ?thesis using follow_chunk_inv [OF fc long, of hist "[]" "[]"] by simp
    qed
  next
    case zero: True
    show ?thesis
    proof (cases "length (drop (kE2eHoleBytes b) p) < kMinFrameBytes")
      case True
      then show ?thesis using i long zero
        by (auto simp: ingest_def long_payload_def hdr Let_def tracker_inv_def)
    next
      case False
      define t0 where "t0 = start_frame (payload_header b p) (drop (kE2eHoleBytes b) p) t"
      have fc: "follow_chunk (payload_header b p) t0 = (out, t')"
        using i long zero False by (simp add: ingest_def long_payload_def hdr Let_def t0_def)
      show ?thesis
        by (rule follow_chunk_inv [OF fc long, of hist "filter (long_payload b) hist" "[]"])
           (use False in \<open>auto simp: t0_def start_frame_def chunk_run_def pending_run_def payload_stamp_def frag_consts\<close>)
    qed
  qed
qed

lemma ingest_all_inv:
  assumes "tracker_inv b hist t" and "ingest_all b ps t = (outs, t')"
  shows "length outs = length ps \<and> tracker_inv b (hist @ ps) t' \<and>
    (\<forall>n<length ps. \<forall>f. outs ! n = Some f \<longrightarrow> completed_by b (hist @ take (Suc n) ps) f)"
  using assms
proof (induction ps arbitrary: hist t outs)
  case Nil
  then show ?case by simp
next
  case (Cons p ps)
  obtain out t1 outs1 where s: "ingest b p t = (out, t1)" "ingest_all b ps t1 = (outs1, t')" "outs = out # outs1"
    using Cons.prems(2) by (auto simp: Let_def split: prod.splits)
  note inv = ingest_inv [OF Cons.prems(1) s(1)]
  note IH = Cons.IH [OF conjunct1 [OF inv] s(2)]
  show ?case
  proof (intro conjI allI impI)
    show "length outs = length (p # ps)" using IH s(3) by simp
    show "tracker_inv b (hist @ p # ps) t'" using IH by simp
    fix n f assume n: "n < length (p # ps)" and o: "outs ! n = Some f"
    show "completed_by b (hist @ take (Suc n) (p # ps)) f"
    proof (cases n)
      case 0
      then show ?thesis using o s(3) inv by simp
    next
      case (Suc m)
      then show ?thesis using n o s(3) IH by auto
    qed
  qed
qed

section \<open>Complete frames, and frames with losses\<close>

definition is_frame :: "build \<Rightarrow> u32 \<Rightarrow> u64 \<Rightarrow> bytes list \<Rightarrow> bool" where
  "is_frame b sq ns ps \<longleftrightarrow>
     ps \<noteq> [] \<and> length ps \<le> 65535 \<and> chunk_run b sq ns ps \<and>
     (\<forall>p\<in>set ps. hdr_count (payload_header b p) = of_nat (length ps))"

definition tracker_at :: "bool \<Rightarrow> u32 \<Rightarrow> nat \<Rightarrow> u64 \<Rightarrow> FrameTracker" where
  "tracker_at act sq i ns = \<lparr>trk_active = act, trk_seq = sq, trk_next = of_nat i, trk_send_ns = ns\<rparr>"

lemma unat_of_nat_u16: "n \<le> 65535 \<Longrightarrow> unat (of_nat n :: u16) = n"
  by (simp add: unat_of_nat)

lemma ingest_all_append:
  "ingest_all b (ps @ qs) t =
     (let (o1, t1) = ingest_all b ps t; (o2, t2) = ingest_all b qs t1 in (o1 @ o2, t2))"
  by (induction ps arbitrary: t) (auto simp: Let_def split: prod.splits)

lemma ingest_long:
  assumes "long_payload b p"
  shows "ingest b p t =
    (if hdr_index (payload_header b p) = 0
     then if length p < kE2eHoleBytes b + kMinFrameBytes then (None, t\<lparr>trk_active := False\<rparr>)
          else follow_chunk (payload_header b p)
            \<lparr>trk_active = True, trk_seq = hdr_seq (payload_header b p), trk_next = 0, trk_send_ns = payload_stamp b p\<rparr>
     else follow_chunk (payload_header b p) t)"
proof -
  have "length (drop (kE2eHoleBytes b) p) < kMinFrameBytes \<longleftrightarrow> length p < kE2eHoleBytes b + kMinFrameBytes"
    using assms by (auto simp: long_payload_def)
  moreover have "start_frame h (drop (kE2eHoleBytes b) p) t =
      \<lparr>trk_active = True, trk_seq = hdr_seq h, trk_next = 0, trk_send_ns = payload_stamp b p\<rparr>" for h
    by (simp add: start_frame_def payload_stamp_def)
  ultimately show ?thesis
    using assms unfolding ingest_def payload_header_def [symmetric] long_payload_def Let_def by simp
qed

lemma ingest_frame_chunk:
  assumes fr: "is_frame b sq ns ps" and i: "i < length ps"
    and t: "i = 0 \<or> t = tracker_at True sq i ns"
  shows "ingest b (ps ! i) t =
    (if Suc i < length ps then None else Some \<lparr>frame_seq = sq, frame_send_ns = ns\<rparr>,
     tracker_at (Suc i < length ps) sq (Suc i) ns)"
proof -
  let ?p = "ps ! i" and ?h = "payload_header b (ps ! i)"
  have n: "length ps \<le> 65535" and run: "chunk_run b sq ns ps"
    and cnt: "hdr_count ?h = of_nat (length ps)"
    using fr i by (auto simp: is_frame_def)
  have p: "long_payload b ?p" "hdr_seq ?h = sq" "unat (hdr_index ?h) = i"
    using run i by (auto simp: chunk_run_def)
  have idx: "hdr_index ?h = of_nat i"
    using arg_cong [OF p(3), of "of_nat :: nat \<Rightarrow> u16"] by simp
  have lt: "(of_nat i + 1 :: u16) < of_nat (length ps) \<longleftrightarrow> Suc i < length ps"
    using unat_of_nat_u16 [of "Suc i"] unat_of_nat_u16 [OF n] i n
    by (simp add: word_less_nat_alt add.commute)
  have follow: "follow_chunk ?h (tracker_at True sq i ns) =
      (if Suc i < length ps then None else Some \<lparr>frame_seq = sq, frame_send_ns = ns\<rparr>,
       tracker_at (Suc i < length ps) sq (Suc i) ns)"
    using lt by (simp add: follow_chunk_def tracker_at_def p(2) idx cnt Let_def add.commute)
  show ?thesis
  proof (cases "i = 0")
    case True
    then have "hd ps = ps ! 0" using i by (simp add: hd_conv_nth)
    then have "payload_stamp b ?p = ns" "kE2eHoleBytes b + kMinFrameBytes \<le> length ?p"
      using run i True by (auto simp: chunk_run_def)
    then have "ingest b ?p t = follow_chunk ?h (tracker_at True sq i ns)"
      unfolding ingest_long [OF p(1)] using idx True p(2) by (simp add: tracker_at_def)
    then show ?thesis using follow by simp
  next
    case False
    then have "hdr_index ?h \<noteq> 0" using p(3) by auto
    then have "ingest b ?p t = follow_chunk ?h (tracker_at True sq i ns)"
      using t False by (simp add: ingest_long [OF p(1)])
    then show ?thesis using follow by simp
  qed
qed

lemma ingest_frame_prefix:
  assumes fr: "is_frame b sq ns ps" and "k < length ps"
  shows "ingest_all b (take (Suc k) ps) t =
    (replicate k None @ [if Suc k < length ps then None else Some \<lparr>frame_seq = sq, frame_send_ns = ns\<rparr>],
     tracker_at (Suc k < length ps) sq (Suc k) ns)"
  using assms(2)
proof (induction k)
  case 0
  then have "take (Suc 0) ps = [ps ! 0]" by (simp add: take_Suc_conv_app_nth)
  then show ?case using ingest_frame_chunk [OF fr 0, of t] by simp
next
  case (Suc k)
  then have k: "k < length ps" by simp
  show ?case
    using Suc.IH [OF k] Suc.prems ingest_frame_chunk [OF fr Suc.prems, of "tracker_at True sq (Suc k) ns"]
    by (simp add: take_Suc_conv_app_nth [OF Suc.prems] ingest_all_append Let_def replicate_append_same)
qed

lemma ingest_frame:
  assumes fr: "is_frame b sq ns ps"
  shows "ingest_all b ps t =
    (replicate (length ps - 1) None @ [Some \<lparr>frame_seq = sq, frame_send_ns = ns\<rparr>],
     tracker_at False sq (length ps) ns)"
proof -
  have n: "length ps - 1 < length ps" "Suc (length ps - 1) = length ps"
    using fr by (cases ps; simp add: is_frame_def)+
  from ingest_frame_prefix [OF fr n(1), of t] show ?thesis unfolding n(2) by simp
qed

lemma tracker_inv_inactive: "\<not> trk_active t \<Longrightarrow> tracker_inv b hist t"
  by (simp add: tracker_inv_def)

lemma ingest_frame_loss:
  assumes fr: "is_frame b sq ns ps" and sub: "subseq qs ps" and ne: "qs \<noteq> ps"
    and t: "\<not> trk_active t" and i: "ingest_all b qs t = (outs, t')"
  shows "outs = replicate (length qs) None"
proof (rule replicate_eqI)
  note inv = ingest_all_inv [OF tracker_inv_inactive [OF t, of b "[]"] i]
  show "length outs = length qs" using inv by simp
  fix out assume "out \<in> set outs"
  then obtain n where n: "n < length qs" "outs ! n = out"
    using inv by (auto simp: in_set_conv_nth)
  show "out = None"
  proof (rule ccontr)
    assume "out \<noteq> None"
    then obtain f where "completed_by b (take (Suc n) qs) f"
      using inv n by auto
    then obtain pre r p where h: "filter (long_payload b) (take (Suc n) qs) = pre @ r @ [p]"
      "unat (hdr_count (payload_header b p)) \<le> Suc (length r)"
      by (auto simp: completed_by_def)
    have "p \<in> set (filter (long_payload b) (take (Suc n) qs))" by (simp add: h(1))
    then have "p \<in> set qs" by (auto dest: in_set_takeD)
    then have "p \<in> set ps" using list_emb_set [OF sub] by metis
    then have "length ps \<le> Suc (length r)"
      using h(2) fr by (simp add: is_frame_def unat_of_nat_u16)
    also have "\<dots> \<le> length (filter (long_payload b) (take (Suc n) qs))" by (simp add: h(1))
    also have "\<dots> \<le> length qs" by (rule le_trans [OF length_filter_le]) simp
    finally have "length ps \<le> length qs" .
    then show False using sub ne by (metis antisym list_emb_length subseq_same_length)
  qed
qed

section \<open>Properties\<close>

text \<open>
  C13. \<open>PlanChunks\<close> covers the frame with the least number of chunks that fit the datagram with
  the E2E header: the chunks tile the frame without gap or empty chunk, each leaves room for
  the header, and the count is the frame size divided by the room, rounded up.
\<close>

theorem PlanChunks_minimal_tiling:
  assumes "12 < unat md" and "unat md < 2 ^ 63" and "0 < unat sz" and "unat sz < 2 ^ 63"
  shows "\<exists>plan. PlanChunks sz md = Inr plan \<and> plan_tiles plan (unat sz) \<and>
    unat (plan_len plan) + kE2eHeaderBytes \<le> unat md \<and>
    unat (plan_count plan) = (unat sz + (unat md - 12) - 1) div (unat md - 12)"
proof -
  obtain plan where "PlanChunks sz md = Inr plan" "plan_tiles plan (unat sz)" "unat (plan_len plan) \<le> unat md - 12"
    using PlanChunks_tiles [OF assms] by blast
  moreover obtain plan' where "PlanChunks sz md = Inr plan'"
    "unat (plan_count plan') = (unat sz + (unat md - 12) - 1) div (unat md - 12)"
    using PlanChunks_exact [OF assms] by blast
  ultimately show ?thesis using assms(1) by (auto simp: frag_consts)
qed

lemma PlanChunks_minimal_tiling_witness:
  "\<exists>plan. PlanChunks 4096 1400 = Inr plan \<and> plan_tiles plan 4096 \<and>
    unat (plan_len plan) + kE2eHeaderBytes \<le> 1400 \<and> unat (plan_count plan) = 3"
  using PlanChunks_minimal_tiling [of 1400 4096] by simp

text \<open>
  C14. A datagram limit of at most the E2E header's 12 bytes, which the command line accepts,
  makes the plan of every frame of 13 bytes or more a division by zero.
\<close>

theorem PlanChunks_division_by_zero:
  assumes "unat md \<le> 12" and "13 \<le> unat sz"
  shows "PlanChunks sz md = Inl Div_by_zero"
  by (rule PlanChunks_no_budget [OF assms])

lemma PlanChunks_division_by_zero_witness: "PlanChunks 4096 12 = Inl Div_by_zero"
  by (rule PlanChunks_division_by_zero) simp_all

text \<open>
  C12. For a plan that tiles the frame, writing the chunk headers stays inside the frame exactly
  when the last chunk has room for a header; otherwise it writes beyond the end of the buffer.
\<close>

theorem WriteChunkHeaders_in_bounds_iff:
  assumes "plan_tiles plan (length block)"
  shows "if plan_roomy plan (length block)
    then \<exists>block'. WriteChunkHeaders block sq plan = Inr block' \<and> length block' = length block \<and>
      (\<forall>i<unat (plan_count plan). take sizeof_ChunkHeader (drop (i * unat (plan_len plan)) block') =
         encode_header (chunk_header sq plan i))
    else WriteChunkHeaders block sq plan = Inl Out_of_bounds"
proof (cases "plan_roomy plan (length block)")
  case True
  obtain b1 where "WriteChunkHeaders block sq plan = Inr b1" "length b1 = length block"
    "\<And>i. i < unat (plan_count plan) \<Longrightarrow> take sizeof_ChunkHeader (drop (chunk_off plan i) b1) = encode_header (chunk_header sq plan i)"
    using WriteChunkHeaders_prefix [OF assms True le_refl, of sq] by (auto simp: WriteChunkHeaders_as_offsets)
  then show ?thesis using True chunk_off_exact [OF assms] by simp
next
  case False
  then show ?thesis using WriteChunkHeaders_overrun [OF assms] by simp
qed

lemma WriteChunkHeaders_in_bounds_iff_witness:
  "WriteChunkHeaders (replicate 21 0) 7 \<lparr>plan_count = 3, plan_len = 10\<rparr> = Inl Out_of_bounds"
  using WriteChunkHeaders_in_bounds_iff [of "\<lparr>plan_count = 3, plan_len = 10\<rparr>" "replicate 21 0" 7]
  by (simp add: plan_tiles_def plan_roomy_def frag_consts)

text \<open>
  C11. Whatever payloads arrive in whatever order, a frame that the tracker reports was
  received completely: the last payloads are its chunks 0, 1, ..., consecutively and in order,
  the last of them announces no further chunk, and sequence number and send time are theirs.
\<close>

theorem tracker_reports_only_complete_frames:
  assumes "ingest_all b ps init_tracker = (outs, t)" and "n < length ps" and "outs ! n = Some f"
  shows "completed_by b (take (Suc n) ps) f"
  using ingest_all_inv [of b "[]" init_tracker ps outs t] assms
  by (simp add: tracker_inv_inactive init_tracker_def)

lemma tracker_reports_only_complete_frames_witness:
  "completed_by Sgmenon_Build [encode_header \<lparr>hdr_seq = 5, hdr_index = 0, hdr_count = 1\<rparr> @ le_bytes (9 :: u64)]
     \<lparr>frame_seq = 5, frame_send_ns = 9\<rparr>"
proof -
  have "ingest_all Sgmenon_Build [encode_header \<lparr>hdr_seq = 5, hdr_index = 0, hdr_count = 1\<rparr> @ le_bytes (9 :: u64)] init_tracker =
    ([Some \<lparr>frame_seq = 5, frame_send_ns = 9\<rparr>], \<lparr>trk_active = False, trk_seq = 5, trk_next = 1, trk_send_ns = 9\<rparr>)"
    by (simp add: ingest_def init_tracker_def frag_consts start_frame_def follow_chunk_def Let_def)
  from tracker_reports_only_complete_frames [OF this, of 0] show ?thesis by simp
qed

text \<open>
  A complete frame is reported exactly at its last chunk, with its number and send time,
  from any state the tracker may have been left in.
\<close>

theorem tracker_reports_complete_frame:
  assumes "is_frame b sq ns ps"
  shows "ingest_all b ps t =
    (replicate (length ps - 1) None @ [Some \<lparr>frame_seq = sq, frame_send_ns = ns\<rparr>], tracker_at False sq (length ps) ns)"
  by (rule ingest_frame [OF assms])

lemma tracker_reports_complete_frame_witness:
  "ingest_all Sgmenon_Build
     [encode_header \<lparr>hdr_seq = 5, hdr_index = 0, hdr_count = 2\<rparr> @ le_bytes (9 :: u64),
      encode_header \<lparr>hdr_seq = 5, hdr_index = 1, hdr_count = 2\<rparr>] (tracker_at True 4 1 8) =
   ([None, Some \<lparr>frame_seq = 5, frame_send_ns = 9\<rparr>], tracker_at False 5 2 9)"
  using tracker_reports_complete_frame [of Sgmenon_Build 5 9
     "[encode_header \<lparr>hdr_seq = 5, hdr_index = 0, hdr_count = 2\<rparr> @ le_bytes (9 :: u64),
      encode_header \<lparr>hdr_seq = 5, hdr_index = 1, hdr_count = 2\<rparr>]" "tracker_at True 4 1 8"]
  by (simp add: is_frame_def chunk_run_def long_payload_def payload_header_def payload_stamp_def frag_consts
      less_Suc_eq_0_disj numeral_2_eq_2)

end
