(* ===== verification/Bench_Common.thy ===== *)
theory Bench_Common
  imports Stats Fragment
begin

text \<open>
  What the vsomeip publisher and subscriber share (\<open>vsomeip/bench/bench_common.h\<close>): the
  command line, the CSV line of a run, the stamp of an echo payload and the marker file that
  tells the publisher's container that the subscriber is done.
\<close>

unbundle bit_operations_syntax

section \<open>Options\<close>

record Options =
  opt_stack :: string
  opt_transport :: string
  opt_size :: u64
  opt_count :: int
  opt_warmup :: int
  opt_rate_hz :: f64
  opt_max_datagram :: u64
  opt_rpc_calls :: int

definition default_options :: Options where
  "default_options = \<lparr>opt_stack = '''', opt_transport = ''udp'', opt_size = 4096, opt_count = 1000,
     opt_warmup = 50, opt_rate_hz = Fin 1000, opt_max_datagram = 1400, opt_rpc_calls = 0\<rparr>"

text \<open>
  The ways \<open>ParseOptions\<close> returns \<open>false\<close>, and the undefined behaviour of \<open>atoi\<close> and
  \<open>atof\<close> on a value out of range.
\<close>

datatype parse_error =
    Help
  | Unknown_arg string
  | Invalid_options
  | Bad_transport
  | Undefined_number

definition int_arg :: "string \<Rightarrow> (int \<Rightarrow> 'o) \<Rightarrow> parse_error + 'o" where
  "int_arg v upd = (case atoi v of None \<Rightarrow> Inl Undefined_number | Some i \<Rightarrow> Inr (upd i))"

text \<open>The \<open>else if\<close> chain of one argument.\<close>

definition parse_arg :: "string \<Rightarrow> Options \<Rightarrow> parse_error + Options" where
  "parse_arg a out =
     (case take_value a ''--size='' of Some v \<Rightarrow> Inr (out\<lparr>opt_size := strtoull v\<rparr>) | None \<Rightarrow>
      case take_value a ''--count='' of Some v \<Rightarrow> int_arg v (\<lambda>i. out\<lparr>opt_count := i\<rparr>) | None \<Rightarrow>
      case take_value a ''--warmup='' of Some v \<Rightarrow> int_arg v (\<lambda>i. out\<lparr>opt_warmup := i\<rparr>) | None \<Rightarrow>
      case take_value a ''--rate-hz='' of Some v \<Rightarrow>
        (case atof v of None \<Rightarrow> Inl Undefined_number | Some r \<Rightarrow> Inr (out\<lparr>opt_rate_hz := r\<rparr>)) | None \<Rightarrow>
      case take_value a ''--max-datagram='' of Some v \<Rightarrow> Inr (out\<lparr>opt_max_datagram := strtoull v\<rparr>) | None \<Rightarrow>
      case take_value a ''--stack='' of Some v \<Rightarrow> Inr (out\<lparr>opt_stack := v\<rparr>) | None \<Rightarrow>
      case take_value a ''--transport='' of Some v \<Rightarrow> Inr (out\<lparr>opt_transport := v\<rparr>) | None \<Rightarrow>
      case take_value a ''--rpc-calls='' of Some v \<Rightarrow> int_arg v (\<lambda>i. out\<lparr>opt_rpc_calls := i\<rparr>) | None \<Rightarrow>
      if a = ''--help'' \<or> a = ''-h'' then Inl Help else Inl (Unknown_arg a))"

text \<open>\<open>args\<close> is \<open>argv[1..argc-1]\<close>.\<close>

definition ParseOptions :: "string list \<Rightarrow> Options \<Rightarrow> parse_error + Options" where
  "ParseOptions args out =
     rbind (foldE parse_arg args out) (\<lambda>out.
     if unat (opt_size out) < kBenchHeaderBytes \<or> opt_count out \<le> 0 \<or> f64_le_zero (opt_rate_hz out)
     then Inl Invalid_options
     else if opt_transport out \<noteq> ''udp'' \<and> opt_transport out \<noteq> ''tcp'' then Inl Bad_transport
     else Inr out)"

section \<open>The CSV line\<close>

definition join :: "string \<Rightarrow> string list \<Rightarrow> string" where
  "join sep fs = (case fs of [] \<Rightarrow> [] | f # fs \<Rightarrow> f @ concat (map (\<lambda>g. sep @ g) fs))"

definition PrintCsv :: "Options \<Rightarrow> rat list \<Rightarrow> u64 \<Rightarrow> string res" where
  "PrintCsv opt latency_us gap_count =
     rbind (PercentileUs latency_us p50) (\<lambda>lo. rbind (PercentileUs latency_us p99) (\<lambda>hi.
     Inr (join '','' [opt_stack opt, show_nat (unat (opt_size opt)), show_fixed_f64 1 (opt_rate_hz opt),
       show_nat (length latency_us), show_fixed 3 (MeanUs latency_us), show_fixed 3 lo,
       show_fixed 3 hi, show_nat (unat gap_count)] @ ''\<newline>'')))"

section \<open>The marker file\<close>

text \<open>
  The file system is a map from paths to contents; \<open>can_open\<close> says for which paths
  \<open>fopen(path, "w")\<close> succeeds.
\<close>

type_synonym fs = "string \<rightharpoonup> string"

definition TouchBenchSubDone :: "string option \<Rightarrow> (string \<Rightarrow> bool) \<Rightarrow> fs \<Rightarrow> fs" where
  "TouchBenchSubDone sync_dir can_open f =
     (case sync_dir of None \<Rightarrow> f
      | Some dir \<Rightarrow> let path = dir @ ''/.bench-sub-done'' in
          if can_open path then f(path \<mapsto> ''1'') else f)"

section \<open>The echo payload\<close>

definition StampPayload :: "bytes \<Rightarrow> nat \<Rightarrow> u64 \<Rightarrow> u32 \<Rightarrow> bytes res" where
  "StampPayload data len send_ns sq =
     (if len < kBenchHeaderBytes then Inr data
      else rbind (write_at kBenchSendNsOffset (le_bytes send_ns) data) (\<lambda>d.
           rbind (write_at kBenchSeqOffset (le_bytes sq) d) (\<lambda>d.
           foldE (\<lambda>i. write_at i [ucast ((of_nat i * 131 + ucast sq :: u64) AND 0xff)])
             [kBenchHeaderBytes..<len] d)))"

definition ReadStamp :: "bytes \<Rightarrow> (u64 \<times> u32) option" where
  "ReadStamp data =
     (if length data < kBenchHeaderBytes then None
      else Some (le_word (take 8 (drop kBenchSendNsOffset data)), le_word (take 4 (drop kBenchSeqOffset data))))"

section \<open>What an accepted command line guarantees\<close>

definition options_ok :: "Options \<Rightarrow> bool" where
  "options_ok o' \<longleftrightarrow> kBenchHeaderBytes \<le> unat (opt_size o') \<and> 0 < opt_count o' \<and>
     \<not> f64_le_zero (opt_rate_hz o') \<and> opt_transport o' \<in> {''udp'', ''tcp''}"

definition options_in_range :: "Options \<Rightarrow> bool" where
  "options_in_range o' \<longleftrightarrow>
     int_range (opt_count o') \<and> int_range (opt_warmup o') \<and> int_range (opt_rpc_calls o')"

lemma ParseOptions_ok: "ParseOptions args out = Inr out' \<Longrightarrow> options_ok out'"
  by (auto simp: ParseOptions_def res_simps options_ok_def split: if_splits)

lemma atoi_range: "atoi v = Some i \<Longrightarrow> int_range i"
  by (auto simp: atoi_def Let_def split: prod.splits if_splits)

lemma parse_arg_range:
  "parse_arg a out = Inr out' \<Longrightarrow> options_in_range out \<Longrightarrow> options_in_range out'"
  by (auto simp: parse_arg_def int_arg_def options_in_range_def dest: atoi_range split: option.splits if_splits)

lemma ParseOptions_range:
  assumes "ParseOptions args default_options = Inr out"
  shows "options_in_range out"
proof -
  have "foldE parse_arg args default_options = Inr out"
    using assms by (auto simp: ParseOptions_def res_simps split: if_splits)
  moreover have "options_in_range default_options"
    by (simp add: options_in_range_def default_options_def int_range_def)
  ultimately show ?thesis by (rule foldE_invariant) (rule parse_arg_range)
qed

text \<open>Printing the options as arguments and parsing them back.\<close>

definition render_args :: "Options \<Rightarrow> string list" where
  "render_args o' =
     [''--size='' @ show_nat (unat (opt_size o')), ''--count='' @ show_int (opt_count o'),
      ''--warmup='' @ show_int (opt_warmup o'), ''--max-datagram='' @ show_nat (unat (opt_max_datagram o')),
      ''--stack='' @ opt_stack o', ''--transport='' @ opt_transport o', ''--rpc-calls='' @ show_int (opt_rpc_calls o')]"

lemma take_value_same [simp]: "take_value (key @ v) key = Some v"
  by (simp add: take_value_def StartsWith_def)

lemma parse_arg_rendered [simp]:
  "parse_arg (''--size='' @ v) out = Inr (out\<lparr>opt_size := strtoull v\<rparr>)"
  "parse_arg (''--count='' @ v) out = int_arg v (\<lambda>i. out\<lparr>opt_count := i\<rparr>)"
  "parse_arg (''--warmup='' @ v) out = int_arg v (\<lambda>i. out\<lparr>opt_warmup := i\<rparr>)"
  "parse_arg (''--max-datagram='' @ v) out = Inr (out\<lparr>opt_max_datagram := strtoull v\<rparr>)"
  "parse_arg (''--stack='' @ v) out = Inr (out\<lparr>opt_stack := v\<rparr>)"
  "parse_arg (''--transport='' @ v) out = Inr (out\<lparr>opt_transport := v\<rparr>)"
  "parse_arg (''--rpc-calls='' @ v) out = int_arg v (\<lambda>i. out\<lparr>opt_rpc_calls := i\<rparr>)"
  by (simp_all add: parse_arg_def take_value_def StartsWith_def)

lemma ParseOptions_render:
  assumes "options_ok o'" and "options_in_range o'" and "opt_rate_hz o' = Fin 1000"
  shows "ParseOptions (render_args o') default_options = Inr o'"
proof -
  have "foldE parse_arg (render_args o') default_options = Inr o'"
    using assms(2,3) unfolding render_args_def foldE.simps parse_arg_rendered
    by (simp add: int_arg_def options_in_range_def default_options_def)
  then show ?thesis using assms(1) by (auto simp: ParseOptions_def options_ok_def)
qed

section \<open>The CSV line splits into its fields\<close>

fun split_on :: "char \<Rightarrow> string \<Rightarrow> string list" where
  "split_on c [] = [[]]"
| "split_on c (x # xs) =
     (if x = c then [] # split_on c xs
      else case split_on c xs of [] \<Rightarrow> [[x]] | f # fs \<Rightarrow> (x # f) # fs)"

lemma split_on_nonempty: "split_on c s \<noteq> []"
  by (induction s) (auto split: list.splits)

lemma split_on_field: "c \<notin> set f \<Longrightarrow> split_on c f = [f]"
  by (induction f) auto

lemma split_on_append: "c \<notin> set f \<Longrightarrow> split_on c (f @ c # s) = f # split_on c s"
  by (induction f) auto

lemma split_on_join:
  "fs \<noteq> [] \<Longrightarrow> \<forall>f\<in>set fs. c \<notin> set f \<Longrightarrow> split_on c (join [c] fs) = fs"
proof (induction fs rule: induct_list012)
  case (3 f g fs)
  have "join [c] (f # g # fs) = f @ c # join [c] (g # fs)" by (simp add: join_def)
  then show ?case using 3 by (simp add: split_on_append)
qed (auto simp: join_def split_on_field)

lemma digits_no_comma:
  assumes "\<forall>d\<in>set ds. d < 10" shows "CHR '','' \<notin> set (map digit_char ds)"
  using assms digit_char_neq by fastforce

lemma show_nat_no_comma [simp]: "CHR '','' \<notin> set (show_nat n)"
  using digits_no_comma [OF digits_of_less] by (simp add: show_nat_digits)

lemma pad_digits_no_comma [simp]: "CHR '','' \<notin> set (pad_digits k n)"
proof (induction k arbitrary: n)
  case (Suc k)
  have "CHR '','' \<noteq> digit_char (n mod 10)" using digit_char_neq [of "n mod 10"] by force
  then show ?case using Suc by simp
qed simp

lemma show_fixed_no_comma [simp]: "CHR '','' \<notin> set (show_fixed k x)"
  by (simp add: show_fixed_def Let_def)

lemma show_fixed_f64_no_comma [simp]: "CHR '','' \<notin> set (show_fixed_f64 k x)"
  by (cases x) auto

lemma PrintCsv_fields:
  assumes "PrintCsv opt lat gaps = Inr line" and "CHR '','' \<notin> set (opt_stack opt)"
  shows "\<exists>body rate mean lo hi. line = body @ ''\<newline>'' \<and>
    split_on CHR '','' body = [opt_stack opt, show_nat (unat (opt_size opt)), rate, show_nat (length lat),
      mean, lo, hi, show_nat (unat gaps)]"
proof -
  obtain a b where "line = join '','' [opt_stack opt, show_nat (unat (opt_size opt)),
      show_fixed_f64 1 (opt_rate_hz opt), show_nat (length lat), show_fixed 3 (MeanUs lat),
      show_fixed 3 a, show_fixed 3 b, show_nat (unat gaps)] @ ''\<newline>''"
    using assms(1) by (auto simp: PrintCsv_def res_simps)
  moreover have "split_on CHR '','' (join '','' [opt_stack opt, show_nat (unat (opt_size opt)),
      show_fixed_f64 1 (opt_rate_hz opt), show_nat (length lat), show_fixed 3 (MeanUs lat),
      show_fixed 3 a, show_fixed 3 b, show_nat (unat gaps)]) =
      [opt_stack opt, show_nat (unat (opt_size opt)),
      show_fixed_f64 1 (opt_rate_hz opt), show_nat (length lat), show_fixed 3 (MeanUs lat),
      show_fixed 3 a, show_fixed 3 b, show_nat (unat gaps)]"
    by (rule split_on_join) (use assms(2) in auto)
  ultimately show ?thesis by blast
qed

lemma PrintCsv_total:
  assumes "length lat \<le> 2 ^ 53" shows "\<exists>line. PrintCsv opt lat gaps = Inr line"
proof -
  obtain a where "PercentileUs lat p50 = Inr a"
    using PercentileUs_total [of p50] assms by (auto simp: p50_def)
  moreover obtain b where "PercentileUs lat p99 = Inr b"
    using PercentileUs_total [OF p99_bounds assms] by blast
  ultimately show ?thesis by (simp add: PrintCsv_def)
qed

section \<open>The echo stamp is read back\<close>

definition fill_byte :: "u32 \<Rightarrow> nat \<Rightarrow> u8" where
  "fill_byte sq i = ucast ((of_nat i * 131 + ucast sq :: u64) AND 0xff)"

lemma fill_loop:
  assumes "n \<le> length d" and "m \<le> n"
  shows "foldE (\<lambda>i. write_at i [fill_byte sq i]) [m..<n] d =
    Inr (take m d @ map (fill_byte sq) [m..<n] @ drop n d)"
  using assms
proof (induction n)
  case (Suc n)
  show ?case
  proof (cases "m = Suc n")
    case False
    then have m: "m \<le> n" using Suc.prems by simp
    then have IH: "foldE (\<lambda>i. write_at i [fill_byte sq i]) [m..<n] d =
        Inr (take m d @ map (fill_byte sq) [m..<n] @ drop n d)"
      using Suc by simp
    have "n < length d" using Suc.prems by simp
    then have "write_at n [fill_byte sq n] (take m d @ map (fill_byte sq) [m..<n] @ drop n d) =
        Inr (take m d @ map (fill_byte sq) [m..<n] @ [fill_byte sq n] @ drop (Suc n) d)"
      using m by (simp add: write_at_def)
    then show ?thesis using m IH by (simp add: foldE_append)
  qed simp
qed simp

lemma StampPayload_ReadStamp:
  assumes "kBenchHeaderBytes \<le> length data"
  shows "\<exists>d. StampPayload data (length data) ns sq = Inr d \<and> length d = length data \<and>
    ReadStamp d = Some (ns, sq) \<and> (\<forall>i. kBenchHeaderBytes \<le> i \<longrightarrow> i < length data \<longrightarrow> d ! i = fill_byte sq i)"
proof -
  have l: "12 \<le> length data" using assms by (simp add: frag_consts)
  define d where "d = le_bytes ns @ le_bytes sq @ map (fill_byte sq) [12..<length data]"
  have "write_at 0 (le_bytes ns) data = Inr (le_bytes ns @ drop 8 data)"
    using l by (simp add: write_at_def)
  moreover have "write_at 8 (le_bytes sq) (le_bytes ns @ drop 8 data) = Inr (le_bytes ns @ le_bytes sq @ drop 12 data)"
    using l by (simp add: write_at_def)
  moreover have "foldE (\<lambda>i. write_at i [fill_byte sq i]) [12..<length data] (le_bytes ns @ le_bytes sq @ drop 12 data) = Inr d"
    using l by (subst fill_loop) (auto simp: d_def)
  ultimately have "StampPayload data (length data) ns sq = Inr d"
    using l by (simp add: StampPayload_def frag_consts fill_byte_def)
  moreover have "ReadStamp d = Some (ns, sq)" using l by (simp add: ReadStamp_def d_def frag_consts)
  moreover have "length d = length data" using l by (simp add: d_def)
  moreover have "d ! i = fill_byte sq i" if "12 \<le> i" "i < length data" for i
  proof -
    have "d ! i = ((le_bytes ns @ le_bytes sq) @ map (fill_byte sq) [12..<length data]) ! i" by (simp add: d_def)
    also have "\<dots> = map (fill_byte sq) [12..<length data] ! (i - 12)"
      using that by (subst nth_append) simp
    finally show ?thesis using that by simp
  qed
  ultimately show ?thesis by (auto simp: frag_consts)
qed

section \<open>Properties\<close>





text \<open>
  The report never faults (no sample index is out of range) on up to \<open>2 ^ 53\<close> samples, and
  the printed line has the eight comma-separated fields of the table, with the name, the frame
  size, the number of samples and the gap count in their places.
\<close>

theorem PrintCsv_eight_fields:
  assumes "length lat \<le> 2 ^ 53" and "CHR '','' \<notin> set (opt_stack opt)"
  shows "\<exists>body rate mean lo hi. PrintCsv opt lat gaps = Inr (body @ ''\<newline>'') \<and>
    split_on CHR '','' body = [opt_stack opt, show_nat (unat (opt_size opt)), rate, show_nat (length lat),
      mean, lo, hi, show_nat (unat gaps)]"
proof -
  obtain line where "PrintCsv opt lat gaps = Inr line" using PrintCsv_total [OF assms(1)] by blast
  then show ?thesis using PrintCsv_fields [OF _ assms(2)] by blast
qed

lemma PrintCsv_eight_fields_witness:
  "\<exists>body rate mean lo hi. PrintCsv (default_options\<lparr>opt_stack := ''vsomeip''\<rparr>) [3] 4 = Inr (body @ ''\<newline>'') \<and>
    split_on CHR '','' body = [''vsomeip'', ''4096'', rate, ''1'', mean, lo, hi, ''4'']"
proof -
  have "\<exists>body rate mean lo hi. PrintCsv (default_options\<lparr>opt_stack := ''vsomeip''\<rparr>) [3] 4 = Inr (body @ ''\<newline>'') \<and>
    split_on CHR '','' body = [opt_stack (default_options\<lparr>opt_stack := ''vsomeip''\<rparr>),
      show_nat (unat (opt_size (default_options\<lparr>opt_stack := ''vsomeip''\<rparr>))), rate, show_nat (length [3 :: rat]), mean, lo, hi, show_nat (unat (4 :: u64))]"
    by (rule PrintCsv_eight_fields) (simp_all add: default_options_def)
  then show ?thesis by (simp add: default_options_def show_nat.simps)
qed

text \<open>
  A stamped echo payload keeps its length, is read back with its send time and sequence
  number, and its filler is the documented pattern.
\<close>

theorem StampPayload_round_trip:
  assumes "kBenchHeaderBytes \<le> length data"
  shows "\<exists>d. StampPayload data (length data) ns sq = Inr d \<and> length d = length data \<and>
    ReadStamp d = Some (ns, sq) \<and> (\<forall>i. kBenchHeaderBytes \<le> i \<longrightarrow> i < length data \<longrightarrow> d ! i = fill_byte sq i)"
  by (rule StampPayload_ReadStamp [OF assms])

lemma StampPayload_round_trip_witness:
  "\<exists>d. StampPayload (replicate 16 0) 16 1234 7 = Inr d \<and> length d = 16 \<and> ReadStamp d = Some (1234, 7) \<and> d ! 12 = fill_byte 7 12"
  using StampPayload_round_trip [of "replicate 16 0" 1234 7] by (auto simp: frag_consts)

end
