(* ===== verification/Event_Service.thy ===== *)
theory Event_Service
  imports Bench_Common
begin

text \<open>
  The publisher (\<open>vsomeip/bench/event_service.cc\<close>). The vsomeip application object is not
  part of this repository: its calls are recorded, in order, in a trace, and what it does to
  the program (state changes, subscriptions, requests) arrives as events. The worker thread
  advances by \<open>Worker\<close> events, one per wait, poll or published frame, so a list of events is
  an interleaving of the worker with the handlers.
\<close>

unbundle bit_operations_syntax

section \<open>Calls and events\<close>

datatype reliability_type = RT_RELIABLE | RT_UNRELIABLE
datatype state_type = ST_REGISTERED | ST_DEREGISTERED

definition reliability_of :: "string \<Rightarrow> reliability_type" where
  "reliability_of transport = (if transport = ''tcp'' then RT_RELIABLE else RT_UNRELIABLE)"

datatype app_call =
    Offer_event u16 u16 u16 "u16 list" reliability_type
  | Register_subscription_handler u16 u16 u16
  | Register_message_handler u16 u16 u16
  | Register_state_handler
  | Offer_service u16 u16
  | Touch_service_ready
  | Notify u16 u16 u16 bytes
  | Send_response bytes
  | Sleep_ns f64
  | Stop_offer_service u16 u16
  | Clear_all_handler
  | Stop

section \<open>Publishing one frame\<close>

text \<open>
  The payload of the \<open>c\<close>-th notification. \<open>min(plan.len, block.size() - off)\<close> is computed
  in \<open>size_t\<close>; the dense build passes the length as the 32-bit \<open>length_t\<close> of vsomeip.
\<close>

definition notify_payload :: "build \<Rightarrow> bytes \<Rightarrow> ChunkPlan \<Rightarrow> nat \<Rightarrow> bytes res" where
  "notify_payload b block plan c =
     (let off = (of_nat c * plan_len plan :: u64); n = min (plan_len plan) (of_nat (length block) - off) in
      case b of
        Covesa_Build \<Rightarrow> rbind (read_at (unat off) (unat n) block) (\<lambda>s.
          Inr (replicate (kE2eHoleBytes b) 0 @ s))
      | Sgmenon_Build \<Rightarrow> read_at (unat off) (unat (ucast n :: u32)) block)"

definition publish_frame :: "build \<Rightarrow> ChunkPlan \<Rightarrow> u32 \<Rightarrow> u64 \<Rightarrow> bytes \<Rightarrow> (bytes list \<times> bytes) res" where
  "publish_frame b plan sq now block =
     rbind (WriteChunkHeaders block sq plan) (\<lambda>block.
     rbind (StampSendNs block now) (\<lambda>block.
     rbind (mapE (notify_payload b block plan) [0..<unat (plan_count plan)]) (\<lambda>ps.
     Inr (ps, block))))"

definition init_block :: "nat \<Rightarrow> bytes" where
  "init_block n = map (\<lambda>j. ucast ((of_nat j * 131 :: u64) AND 0xff)) [0..<n]"

definition choose_plan :: "Options \<Rightarrow> ChunkPlan res" where
  "choose_plan opt =
     (if opt_transport opt = ''tcp'' then Inr \<lparr>plan_count = 1, plan_len = opt_size opt\<rparr>
      else PlanChunks (opt_size opt) (opt_max_datagram opt))"

text \<open>The period between frames in nanoseconds, and the sleep that keeps it.\<close>

fun f64_ns :: "f64 \<Rightarrow> f64" where
  "f64_ns (Fin x) = f64_of_rat (x * 1000000000)"
| "f64_ns x = x"

definition period_ns :: "Options \<Rightarrow> f64" where
  "period_ns opt = f64_ns (f64_recip (opt_rate_hz opt))"

fun pace :: "f64 \<Rightarrow> u64 \<Rightarrow> app_call list" where
  "pace (Fin p) elapsed =
     (if dbl_of_u64 elapsed < p then [Sleep_ns (f64_of_rat (p - dbl_of_u64 elapsed))] else [])"
| "pace (Inf neg) elapsed = (if neg then [] else [Sleep_ns (Inf False)])"
| "pace (NaN neg) elapsed = []"

section \<open>The service\<close>

datatype worker =
    Wait_registered
  | Wait_subscribed
  | Poll_ready nat
  | Publishing int u32 int ChunkPlan bytes \<comment> \<open>loop counter, seq, total, plan, block\<close>
  | Finished
  | Failed fault

record service =
  sv_opt :: Options
  sv_build :: build
  sv_sync_dir :: "string option"
  sv_registered :: bool
  sv_subscribed :: bool
  sv_worker :: worker
  sv_calls :: "app_call list"

text \<open>
  \<open>Worker_step ready_exists t0 now t1\<close>: what the file test and the clock readings of one
  step of the worker return (the clock is read in this order).
\<close>

datatype svc_event =
    State state_type
  | Subscription bool
  | Echo_request bytes
  | Worker_step bool u64 u64 u64

definition emit :: "app_call list \<Rightarrow> service \<Rightarrow> service" where
  "emit cs s = s\<lparr>sv_calls := sv_calls s @ cs\<rparr>"

text \<open>\<open>Run\<close> up to \<open>app_->start()\<close>, after a successful \<open>init\<close>.\<close>

definition Run_service :: "build \<Rightarrow> string option \<Rightarrow> Options \<Rightarrow> service" where
  "Run_service b dir opt =
     \<lparr>sv_opt = opt, sv_build = b, sv_sync_dir = dir, sv_registered = False, sv_subscribed = False,
      sv_worker = Wait_registered,
      sv_calls = [Register_state_handler,
        Offer_event kServiceId kInstanceId kEventId [kEventgroupId] (reliability_of (opt_transport opt)),
        Register_subscription_handler kServiceId kInstanceId kEventgroupId,
        Register_message_handler kServiceId kInstanceId kEchoMethodId]\<rparr>"

definition OnState_service :: "state_type \<Rightarrow> service \<Rightarrow> service" where
  "OnState_service st s =
     (if st = ST_REGISTERED
      then (emit [Offer_service kServiceId kInstanceId, Touch_service_ready] s)\<lparr>sv_registered := True\<rparr>
      else s)"

definition OnSubscription :: "bool \<Rightarrow> service \<Rightarrow> service" where
  "OnSubscription subscribed s = (if subscribed then s\<lparr>sv_subscribed := True\<rparr> else s)"

definition OnEchoRequest :: "bytes \<Rightarrow> service \<Rightarrow> service" where
  "OnEchoRequest payload s = emit [Send_response payload] s"

text \<open>\<open>Worker\<close>: the set-up between the waits and the publishing loop.\<close>

definition start_publishing :: "service \<Rightarrow> worker" where
  "start_publishing s =
     (let opt = sv_opt s; tot = opt_warmup opt + opt_count opt in
      if \<not> int_range tot then Failed Int_overflow
      else case choose_plan opt of Inl e \<Rightarrow> Failed e
        | Inr plan \<Rightarrow> Publishing 0 0 tot plan (init_block (unat (opt_size opt))))"

definition publish_step :: "u64 \<Rightarrow> u64 \<Rightarrow> u64 \<Rightarrow> int \<Rightarrow> u32 \<Rightarrow> int \<Rightarrow> ChunkPlan \<Rightarrow> bytes \<Rightarrow> service \<Rightarrow> service" where
  "publish_step t0 now t1 i sq tot plan block s =
     (if i < tot
      then case publish_frame (sv_build s) plan sq now block of
             Inl e \<Rightarrow> s\<lparr>sv_worker := Failed e\<rparr>
           | Inr (ps, block') \<Rightarrow>
               (emit (map (Notify kServiceId kInstanceId kEventId) ps @ pace (period_ns (sv_opt s)) (t1 - t0)) s)
               \<lparr>sv_worker := Publishing (i + 1) (sq + 1) tot plan block'\<rparr>
      else (emit [Stop_offer_service kServiceId kInstanceId, Clear_all_handler, Stop] s)\<lparr>sv_worker := Finished\<rparr>)"

fun worker_step :: "bool \<Rightarrow> u64 \<Rightarrow> u64 \<Rightarrow> u64 \<Rightarrow> worker \<Rightarrow> service \<Rightarrow> service" where
  "worker_step ready t0 now t1 Wait_registered s =
     (if sv_registered s then s\<lparr>sv_worker := Wait_subscribed\<rparr> else s)"
| "worker_step ready t0 now t1 Wait_subscribed s =
     (if sv_subscribed s
      then s\<lparr>sv_worker := (if sv_sync_dir s = None then start_publishing s else Poll_ready 0)\<rparr>
      else s)"
| "worker_step ready t0 now t1 (Poll_ready i) s =
     (if 600 \<le> i \<or> ready then s\<lparr>sv_worker := start_publishing s\<rparr>
      else (emit [Sleep_ns (Fin 100000000)] s)\<lparr>sv_worker := Poll_ready (i + 1)\<rparr>)"
| "worker_step ready t0 now t1 (Publishing i sq tot plan block) s =
     publish_step t0 now t1 i sq tot plan block s"
| "worker_step ready t0 now t1 Finished s = s"
| "worker_step ready t0 now t1 (Failed e) s = s"

fun svc_step :: "service \<Rightarrow> svc_event \<Rightarrow> service" where
  "svc_step s (State st) = OnState_service st s"
| "svc_step s (Subscription b) = OnSubscription b s"
| "svc_step s (Echo_request p) = OnEchoRequest p s"
| "svc_step s (Worker_step ready t0 now t1) = worker_step ready t0 now t1 (sv_worker s) s"

fun svc_run :: "service \<Rightarrow> svc_event list \<Rightarrow> service" where
  "svc_run s [] = s"
| "svc_run s (e # es) = svc_run (svc_step s e) es"

text \<open>\<open>main\<close>: the exit code before the application starts, or the options it runs with.\<close>

definition event_service_main :: "string list \<Rightarrow> nat + Options" where
  "event_service_main args =
     (case ParseOptions args default_options of
        Inl e \<Rightarrow> Inl 2
      | Inr opt \<Rightarrow> if unat (opt_size opt) < kMinFrameBytes then Inl 2
          else Inr (if opt_stack opt = '''' then opt\<lparr>opt_stack := ''vsomeip''\<rparr> else opt))"

text \<open>
  \<open>Run\<close> and \<open>main\<close> together: the exit code, if the program has ended, and the calls made. A
  failed \<open>init\<close> gives exit code 1; \<open>start()\<close> returns after the worker has called \<open>stop\<close>.
\<close>

definition event_service_program ::
  "string list \<Rightarrow> bool \<Rightarrow> build \<Rightarrow> string option \<Rightarrow> svc_event list \<Rightarrow> nat option \<times> app_call list" where
  "event_service_program args init_ok b dir es =
     (case event_service_main args of
        Inl code \<Rightarrow> (Some code, [])
      | Inr opt \<Rightarrow>
          if \<not> init_ok then (Some 1, [])
          else let s = svc_run (Run_service b dir opt) es in
            (if sv_worker s = Finished then Some 0 else None, sv_calls s))"

section \<open>A published frame is one the tracker recognises\<close>

text \<open>
  What a plan needs for a frame of \<open>n\<close> bytes to be published correctly: the chunks tile it,
  the last has room for a header, the first for header and send time, and the counts fit
  the 16-bit header fields and the 32-bit payload length.
\<close>

definition plan_sound :: "ChunkPlan \<Rightarrow> nat \<Rightarrow> bool" where
  "plan_sound plan n \<longleftrightarrow> plan_tiles plan n \<and> plan_roomy plan n \<and>
     unat (plan_count plan) \<le> 65535 \<and> unat (plan_len plan) < 2 ^ 32 \<and>
     kMinFrameBytes \<le> unat (plan_len plan) \<and> kMinFrameBytes \<le> n"

definition chunk_slice :: "ChunkPlan \<Rightarrow> bytes \<Rightarrow> nat \<Rightarrow> bytes" where
  "chunk_slice plan block c = take (unat (plan_len plan)) (drop (chunk_off plan c) block)"

lemma notify_payload_slice:
  assumes t: "plan_tiles plan (length block)" and c: "c < unat (plan_count plan)"
    and l: "unat (plan_len plan) < 2 ^ 32"
  shows "notify_payload b block plan c = Inr (replicate (kE2eHoleBytes b) 0 @ chunk_slice plan block c)"
proof -
  define off where "off = (of_nat c * plan_len plan :: u64)"
  define n where "n = min (plan_len plan) (of_nat (length block) - off)"
  have len: "unat (of_nat (length block) :: u64) = length block"
    using t by (simp add: unat_of_nat plan_tiles_def Let_def)
  have "c * unat (plan_len plan) \<le> (unat (plan_count plan) - 1) * unat (plan_len plan)"
    using c by (intro mult_le_mono1) linarith
  also have "\<dots> < length block" using t by (simp add: plan_tiles_def Let_def)
  finally have off: "unat off < length block" "unat off = chunk_off plan c"
    using chunk_off_exact [OF t c] by (simp_all add: off_def chunk_off_def)
  then have "unat (of_nat (length block) - off) = length block - unat off"
    using len by (simp add: unat_sub_if')
  then have n: "unat n = min (unat (plan_len plan)) (length block - unat off)"
    unfolding n_def min_def by (simp add: word_le_nat_alt)
  then have u32: "unat (ucast n :: u32) = unat n"
    using l by (simp add: unsigned_ucast_eq take_bit_nat_eq_self)
  have "take (unat n) (drop (unat off) block) = chunk_slice plan block c"
    using n off by (simp add: chunk_slice_def min_def)
  then have "read_at (unat off) (unat n) block = Inr (chunk_slice plan block c)"
    using off(1) n by (simp add: read_at_def)
  then show ?thesis
    unfolding notify_payload_def Let_def off_def [symmetric] n_def [symmetric] u32 by (cases b) simp_all
qed

lemma StampSendNs_keeps_headers:
  assumes "StampSendNs block now = Inr block'" and "o' + sizeof_ChunkHeader \<le> kChunkSendNsOffset \<or> kMinFrameBytes \<le> o'"
  shows "take sizeof_ChunkHeader (drop o' block') = take sizeof_ChunkHeader (drop o' block)"
  using write_at_disjoint [of kChunkSendNsOffset "le_bytes now" block block' o' sizeof_ChunkHeader] assms
  by (auto simp: StampSendNs_def frag_consts)

lemma publish_frame_chunks:
  assumes t: "plan_tiles plan (length block)" and r: "plan_roomy plan (length block)"
    and len: "unat (plan_len plan) < 2 ^ 32" "kMinFrameBytes \<le> unat (plan_len plan)" "kMinFrameBytes \<le> length block"
  shows "\<exists>ps block'. publish_frame b plan sq now block = Inr (ps, block') \<and> length block' = length block \<and>
    ps = map (\<lambda>c. replicate (kE2eHoleBytes b) 0 @ chunk_slice plan block' c) [0..<unat (plan_count plan)] \<and>
    (\<forall>i<unat (plan_count plan). long_payload b (ps ! i) \<and> payload_header b (ps ! i) = chunk_header sq plan i) \<and>
    (\<forall>i. Suc i < unat (plan_count plan) \<longrightarrow> kE2eHoleBytes b + kMinFrameBytes \<le> length (ps ! i)) \<and>
    payload_stamp b (hd ps) = now \<and> kE2eHoleBytes b + kMinFrameBytes \<le> length (hd ps)"
proof -
  define c l where "c = unat (plan_count plan)" and "l = unat (plan_len plan)"
  have c: "0 < c" and l: "l < 2 ^ 32" "kMinFrameBytes \<le> l"
    using t len by (auto simp: plan_tiles_def c_def l_def Let_def)
  obtain b1 where b1: "WriteChunkHeaders block sq plan = Inr b1" "length b1 = length block"
    "\<And>i. i < c \<Longrightarrow> take sizeof_ChunkHeader (drop (chunk_off plan i) b1) = encode_header (chunk_header sq plan i)"
    using WriteChunkHeaders_prefix [OF t r le_refl, of sq] by (auto simp: WriteChunkHeaders_as_offsets c_def)
  obtain b2 where b2: "StampSendNs b1 now = Inr b2"
    using len(3) b1(2) by (auto simp: StampSendNs_def write_at_def frag_consts)
  have len2: "length b2 = length block"
    using b2 b1(2) by (auto simp: StampSendNs_def dest: write_at_length)
  have off: "i < c \<Longrightarrow> chunk_off plan i = i * l" for i
    using chunk_off_exact [OF t] by (simp add: c_def l_def)
  have hdr: "take sizeof_ChunkHeader (drop (chunk_off plan i) b2) = encode_header (chunk_header sq plan i)" if i: "i < c" for i
  proof -
    have "i = 0 \<or> kMinFrameBytes \<le> i * l" using l(2) by (cases i) auto
    then show ?thesis
      using StampSendNs_keeps_headers [OF b2, of "chunk_off plan i"] b1(3) [OF i] off [OF i]
      by (auto simp: frag_consts)
  qed
  have stamp: "take 8 (drop kChunkSendNsOffset b2) = le_bytes now"
    using write_at_same [of kChunkSendNsOffset "le_bytes now" b1 b2] b2 by (simp add: StampSendNs_def)
  define ps where "ps = map (\<lambda>i. replicate (kE2eHoleBytes b) 0 @ chunk_slice plan b2 i) [0..<c]"
  have "mapE (notify_payload b b2 plan) [0..<c] = Inr ps"
    unfolding ps_def using t l(1) len2
    by (intro mapE_all_Inr) (simp add: notify_payload_slice c_def l_def)
  then have pub: "publish_frame b plan sq now block = Inr (ps, b2)"
    using b1(1) b2 by (simp add: publish_frame_def c_def)
  have room: "chunk_off plan i + sizeof_ChunkHeader \<le> length block" if "i < c" for i
    using plan_chunk_room(1) [OF t r] that by (simp add: c_def)
  have p: "long_payload b (ps ! i) \<and> payload_header b (ps ! i) = chunk_header sq plan i" if i: "i < c" for i
  proof -
    have e: "ps ! i = replicate (kE2eHoleBytes b) 0 @ chunk_slice plan b2 i" using i by (simp add: ps_def)
    have "sizeof_ChunkHeader \<le> length (chunk_slice plan b2 i)"
      using room [OF i] len2 l(2) by (simp add: chunk_slice_def l_def [symmetric] frag_consts)
    moreover have "take sizeof_ChunkHeader (chunk_slice plan b2 i) = encode_header (chunk_header sq plan i)"
      using hdr [OF i] l(2) by (simp add: chunk_slice_def l_def [symmetric] min_def frag_consts)
    ultimately show ?thesis by (simp add: e payload_header_def long_payload_def)
  qed
  have full: "kE2eHoleBytes b + kMinFrameBytes \<le> length (ps ! i)" if i: "Suc i < c" for i
  proof -
    have "Suc i * l \<le> (c - 1) * l" using i by (intro mult_le_mono1) simp
    also have "\<dots> < length block" using t by (simp add: plan_tiles_def Let_def c_def l_def)
    finally have "l \<le> length block - i * l" by simp
    then show ?thesis using i off [of i] l(2) len2 by (simp add: ps_def chunk_slice_def l_def [symmetric])
  qed
  have first: "hd ps = replicate (kE2eHoleBytes b) 0 @ take l b2"
    using c off [of 0] by (simp add: ps_def chunk_slice_def l_def hd_map)
  have "8 \<le> l - 8" using l(2) by (simp add: frag_consts)
  then have "take 8 (take (l - 8) (drop 8 b2)) = take 8 (drop 8 b2)" by (simp add: min_absorb1)
  then have "payload_stamp b (hd ps) = now"
    using stamp by (simp add: first payload_stamp_def drop_take frag_consts)
  moreover have "kE2eHoleBytes b + kMinFrameBytes \<le> length (hd ps)"
    using l(2) len(3) len2 by (simp add: first)
  ultimately show ?thesis
    using pub len2 p full unfolding c_def by (auto simp: ps_def c_def)
qed

lemma publish_frame_ok:
  assumes s: "plan_sound plan (length block)"
  shows "\<exists>ps block'. publish_frame b plan sq now block = Inr (ps, block') \<and>
    length block' = length block \<and> is_frame b sq now ps \<and>
    ps = map (\<lambda>c. replicate (kE2eHoleBytes b) 0 @ chunk_slice plan block' c) [0..<unat (plan_count plan)]"
proof -
  define c where "c = unat (plan_count plan)"
  have c: "0 < c" "c \<le> 65535" using s by (auto simp: plan_sound_def plan_tiles_def c_def Let_def)
  obtain ps block' where p: "publish_frame b plan sq now block = Inr (ps, block')" "length block' = length block"
    "ps = map (\<lambda>c. replicate (kE2eHoleBytes b) 0 @ chunk_slice plan block' c) [0..<c]"
    "\<forall>i<c. long_payload b (ps ! i) \<and> payload_header b (ps ! i) = chunk_header sq plan i"
    "payload_stamp b (hd ps) = now" "kE2eHoleBytes b + kMinFrameBytes \<le> length (hd ps)"
    using publish_frame_chunks [of plan block b sq now] s unfolding plan_sound_def c_def by blast
  have len: "length ps = c" using p(3) by simp
  have "chunk_run b sq now ps"
    unfolding chunk_run_def using p(4-6) c(2) by (auto simp: len chunk_header_def unat_of_nat_u16)
  moreover have "hdr_count (payload_header b q) = of_nat (length ps)" if "q \<in> set ps" for q
    using that p(4) by (auto simp: in_set_conv_nth len chunk_header_def c_def)
  ultimately have "is_frame b sq now ps" using c len by (auto simp: is_frame_def)
  with p(1,2) p(3)[unfolded c_def] show ?thesis by blast
qed

text \<open>The slices are the whole block, in order.\<close>

lemma concat_slices:
  assumes "n \<le> k * l" and "0 < l" and "length xs = n"
  shows "concat (map (\<lambda>i. take l (drop (i * l) xs)) [0..<k]) = xs"
  using assms
proof (induction k arbitrary: n xs)
  case (Suc k)
  have "concat (map (\<lambda>i. take l (drop (i * l) xs)) [0..<Suc k]) =
      take l xs @ concat (map (\<lambda>i. take l (drop (Suc i * l) xs)) [0..<k])"
    by (simp add: upt_conv_Cons map_Suc_upt [symmetric] o_def del: upt_Suc mult_Suc)
  also have "map (\<lambda>i. take l (drop (Suc i * l) xs)) [0..<k] = map (\<lambda>i. take l (drop (i * l) (drop l xs))) [0..<k]"
    by (simp add: add.commute)
  also have "concat \<dots> = drop l xs" by (rule Suc.IH) (use Suc.prems in auto)
  finally show ?case by simp
qed simp

lemma slices_tile_block:
  assumes "plan_tiles plan (length block)"
  shows "concat (map (chunk_slice plan block) [0..<unat (plan_count plan)]) = block"
proof -
  have "map (chunk_slice plan block) [0..<unat (plan_count plan)] =
      map (\<lambda>i. take (unat (plan_len plan)) (drop (i * unat (plan_len plan)) block)) [0..<unat (plan_count plan)]"
    using chunk_off_exact [OF assms] by (simp add: chunk_slice_def)
  also have "concat \<dots> = block"
    by (rule concat_slices) (use assms in \<open>auto simp: plan_tiles_def Let_def\<close>)
  finally show ?thesis .
qed

end
