(* ===== verification/Event_Client.thy ===== *)
theory Event_Client
  imports Event_Service
begin

text \<open>
  The subscriber (\<open>vsomeip/bench/event_client.cc\<close>). As for the publisher, calls into vsomeip
  are recorded and its callbacks are events; the dispatcher thread runs the handlers one at a
  time and they share their fields with the worker under one mutex, so a run is a sequence of
  handled events between the points where the worker looks at the state. Clock readings and
  the messages that arrive during a wait are inputs.
\<close>

section \<open>State\<close>

datatype message_type = MT_REQUEST | MT_NOTIFICATION | MT_RESPONSE | MT_ERROR

record message =
  msg_type :: message_type
  msg_service :: u16
  msg_instance :: u16
  msg_method :: u16
  msg_payload :: bytes

datatype client_call =
    Client_state_handler
  | Client_availability_handler u16 u16
  | Client_message_handler u16 u16 u16
  | Request_service u16 u16
  | Request_event u16 u16 u16 "u16 list" reliability_type
  | Subscribe u16 u16 u16
  | Send_request bool u16 u16 u16 bytes
  | Pause f64
  | Client_clear_all_handler
  | Client_stop

record client =
  cl_opt :: Options
  cl_build :: build
  cl_sync_dir :: "string option"
  cl_can_open :: "string \<Rightarrow> bool"
  cl_tracker :: FrameTracker
  cl_registered :: bool
  cl_available :: bool
  cl_done :: bool
  cl_failed :: bool
  cl_rpc_pending_seq :: u32
  cl_rpc_done :: bool
  cl_rpc_rtt_us :: rat
  cl_last_seq :: u32
  cl_gap_count :: u64
  cl_latencies_us :: "rat list"
  cl_calls :: "client_call list"
  cl_fs :: fs

definition init_client :: "build \<Rightarrow> string option \<Rightarrow> (string \<Rightarrow> bool) \<Rightarrow> Options \<Rightarrow> client" where
  "init_client b dir can_open opt =
     \<lparr>cl_opt = opt, cl_build = b, cl_sync_dir = dir, cl_can_open = can_open, cl_tracker = init_tracker,
      cl_registered = False, cl_available = False, cl_done = False, cl_failed = False,
      cl_rpc_pending_seq = 0, cl_rpc_done = False, cl_rpc_rtt_us = 0, cl_last_seq = 0,
      cl_gap_count = 0, cl_latencies_us = [], cl_calls = [], cl_fs = Map.empty\<rparr>"

definition call :: "client_call list \<Rightarrow> client \<Rightarrow> client" where
  "call cs c = c\<lparr>cl_calls := cl_calls c @ cs\<rparr>"

text \<open>
  \<open>Run\<close> up to \<open>app_->start()\<close>: exit code 1 if the application cannot be initialised, and the
  three handlers registered otherwise. \<open>ANY_SERVICE\<close>, \<open>ANY_INSTANCE\<close> and \<open>ANY_METHOD\<close> are
  the all-ones wildcards of vsomeip.
\<close>

definition Run_client :: "bool \<Rightarrow> client \<Rightarrow> nat + client" where
  "Run_client init_ok c =
     (if \<not> init_ok then Inl 1
      else Inr (call [Client_state_handler, Client_availability_handler kServiceId kInstanceId,
        Client_message_handler 0xFFFF 0xFFFF 0xFFFF] c))"

section \<open>Handlers\<close>

definition OnState :: "state_type \<Rightarrow> client \<Rightarrow> client" where
  "OnState st c =
     (if st = ST_REGISTERED
      then (call [Request_service kServiceId kInstanceId] c)\<lparr>cl_registered := True\<rparr>
      else c)"

text \<open>\<open>std::ofstream(ready).put('1')\<close>, after creating the directory.\<close>

definition touch_ready :: "client \<Rightarrow> client" where
  "touch_ready c =
     (case cl_sync_dir c of None \<Rightarrow> c
      | Some dir \<Rightarrow> let path = dir @ ''/.bench-sub-ready'' in
          if cl_can_open c path then c\<lparr>cl_fs := (cl_fs c)(path \<mapsto> ''1'')\<rparr> else c)"

definition OnAvailability :: "bool \<Rightarrow> client \<Rightarrow> client" where
  "OnAvailability avail c =
     (if \<not> avail \<or> cl_available c then c
      else if opt_rpc_calls (cl_opt c) > 0 then c\<lparr>cl_available := True\<rparr>
      else (touch_ready (call
        [Request_event kServiceId kInstanceId kEventId [kEventgroupId] (reliability_of (opt_transport (cl_opt c))),
         Subscribe kServiceId kInstanceId kEventgroupId] c))\<lparr>cl_available := True\<rparr>)"

text \<open>\<open>static_cast<double>(recv_ns - send_ns) / 1000.0\<close>\<close>

definition elapsed_us :: "u64 \<Rightarrow> u64 \<Rightarrow> rat" where
  "elapsed_us send_ns recv_ns = fl (dbl_of_u64 (recv_ns - send_ns) / 1000)"

text \<open>\<open>static_cast<int>(std::size_t)\<close>\<close>

definition int_of_size :: "nat \<Rightarrow> int" where
  "int_of_size n = sint (of_nat n :: u32)"

definition OnEchoResponse :: "u64 \<Rightarrow> message \<Rightarrow> client \<Rightarrow> client" where
  "OnEchoResponse recv_ns msg c =
     (case ReadStamp (msg_payload msg) of None \<Rightarrow> c
      | Some (send_ns, sq) \<Rightarrow>
          if sq \<noteq> cl_rpc_pending_seq c then c
          else c\<lparr>cl_rpc_rtt_us := elapsed_us send_ns recv_ns, cl_rpc_done := True\<rparr>)"

text \<open>The part of \<open>OnMessage\<close> that runs under the mutex, for a completed frame.\<close>

definition record_frame :: "u64 \<Rightarrow> CompletedFrame \<Rightarrow> client \<Rightarrow> client" where
  "record_frame recv_ns f c =
     (let sq = frame_seq f; us = elapsed_us (frame_send_ns f) recv_ns;
          c = (if cl_last_seq c \<noteq> 0 \<and> cl_last_seq c + 1 < sq
               then c\<lparr>cl_gap_count := cl_gap_count c + ucast (sq - cl_last_seq c - 1)\<rparr> else c);
          c = c\<lparr>cl_last_seq := sq\<rparr> in
      if sq < word_of_int (opt_warmup (cl_opt c)) then c
      else let c = c\<lparr>cl_latencies_us := cl_latencies_us c @ [us]\<rparr> in
        if opt_count (cl_opt c) \<le> int_of_size (length (cl_latencies_us c)) then c\<lparr>cl_done := True\<rparr> else c)"

definition OnMessage :: "u64 \<Rightarrow> message \<Rightarrow> client \<Rightarrow> client" where
  "OnMessage recv_ns msg c =
     (if msg_type msg = MT_RESPONSE \<and> msg_method msg = kEchoMethodId then OnEchoResponse recv_ns msg c
      else if msg_type msg \<noteq> MT_NOTIFICATION then c
      else if msg_service msg \<noteq> kServiceId \<or> msg_instance msg \<noteq> kInstanceId \<or> msg_method msg \<noteq> kEventId then c
      else case ingest (cl_build c) (msg_payload msg) (cl_tracker c) of
             (None, t) \<Rightarrow> c\<lparr>cl_tracker := t\<rparr>
           | (Some f, t) \<Rightarrow> record_frame recv_ns f (c\<lparr>cl_tracker := t\<rparr>))"

datatype cl_event =
    Cl_state state_type
  | Cl_availability bool
  | Cl_message u64 message

fun client_step :: "client \<Rightarrow> cl_event \<Rightarrow> client" where
  "client_step c (Cl_state st) = OnState st c"
| "client_step c (Cl_availability a) = OnAvailability a c"
| "client_step c (Cl_message recv_ns msg) = OnMessage recv_ns msg c"

definition client_run :: "client \<Rightarrow> cl_event list \<Rightarrow> client" where
  "client_run = foldl client_step"

section \<open>The echo calls\<close>

definition rpc_prefix :: "string \<Rightarrow> Options \<Rightarrow> string" where
  "rpc_prefix what opt = what @ opt_stack opt @ '' size='' @ show_nat (unat (opt_size opt))"

text \<open>
  One iteration of the loop of \<open>RunEchoCalls\<close>: \<open>now\<close> is the stamp, \<open>inbox\<close> what the
  dispatcher handles until the wait ends (at \<open>rpc_done_\<close> or after two seconds). The state
  carries the client, the round trips so far and the lines printed.
\<close>

type_synonym rpc_state = "client \<times> bytes \<times> rat list \<times> string"

definition echo_call :: "(nat \<Rightarrow> u64) \<Rightarrow> (nat \<Rightarrow> cl_event list) \<Rightarrow> nat \<Rightarrow> rpc_state \<Rightarrow> rpc_state res" where
  "echo_call now inbox i st =
     (case st of (c, buf, rtts, out) \<Rightarrow>
      let opt = cl_opt c; sq = (of_nat i :: u32) in
      rbind (StampPayload buf (length buf) (now i) sq) (\<lambda>buf.
      let c = c\<lparr>cl_rpc_pending_seq := sq, cl_rpc_done := False\<rparr>;
          c = call [Send_request (opt_transport opt = ''tcp'') kServiceId kInstanceId kEchoMethodId buf] c;
          c = client_run c (inbox i) in
      if \<not> cl_rpc_done c
      then Inr (c, buf, rtts, out @ rpc_prefix ''rpc '' opt @ '' call='' @ show_nat i @ '' timeout\<newline>'')
      else Inr (call [Pause (f64_recip (opt_rate_hz opt))] c, buf, rtts @ [cl_rpc_rtt_us c],
        out @ rpc_prefix ''rpc '' opt @ '' call='' @ show_nat i @ '' rtt_us='' @ show_fixed 3 (cl_rpc_rtt_us c) @ ''\<newline>'')))"

definition rpc_summary :: "Options \<Rightarrow> rat list \<Rightarrow> string res" where
  "rpc_summary opt rtts =
     rbind (PercentileUs rtts (1 / 2)) (\<lambda>p50.
     Inr (rpc_prefix ''rpc_summary '' opt @ '' ok='' @ show_nat (length rtts) @ ''/'' @ show_int (opt_rpc_calls opt) @
       '' mean_us='' @ show_fixed 3 (MeanUs rtts) @ '' p50_us='' @ show_fixed 3 p50 @
       '' min_us='' @ show_fixed 3 (if rtts = [] then 0 else min_element rtts) @
       '' max_us='' @ show_fixed 3 (if rtts = [] then 0 else max_element rtts) @ ''\<newline>''))"

definition RunEchoCalls :: "(nat \<Rightarrow> u64) \<Rightarrow> (nat \<Rightarrow> cl_event list) \<Rightarrow> client \<Rightarrow> (client \<times> string) res" where
  "RunEchoCalls now inbox c =
     (let opt = cl_opt c in
      if opt_transport opt = ''udp'' \<and> opt_max_datagram opt < opt_size opt
      then Inr (c\<lparr>cl_failed := True\<rparr>, '''')
      else rbind (foldE (echo_call now inbox) [0..<nat (opt_rpc_calls opt)]
             (c, replicate (unat (opt_size opt)) 0, [], '''')) (\<lambda>(c, buf, rtts, out).
           rbind (rpc_summary opt rtts) (\<lambda>line. Inr (c, out @ line))))"

section \<open>Waiting and reporting\<close>

text \<open>The wait for the frames, in seconds; \<open>atoi\<close> of the environment variable may fault.\<close>

definition wait_seconds :: "string option \<Rightarrow> u64 \<Rightarrow> int res" where
  "wait_seconds env sz =
     (case env of
        Some v \<Rightarrow> (case atoi v of None \<Rightarrow> Inl Int_overflow | Some i \<Rightarrow> Inr (max 1 i))
      | None \<Rightarrow> Inr (if 10485760 \<le> unat sz then 3600 else if 4194304 \<le> unat sz then 900 else 120))"

text \<open>
  The worker thread: \<open>phase1\<close> are the events handled while it waits for registration and
  service (at most 120 s), \<open>inbox\<close> those of the echo calls, \<open>phase2\<close> those handled while
  it waits for the last frame. \<open>tracy\<close> says whether \<open>VSOMEIP_TRACY\<close> is set: then the
  application is stopped and \<open>Run\<close> returns the exit code; otherwise \<open>quick_exit\<close> does. The
  result is the exit code, standard output and the state.
\<close>

definition touch_done :: "client \<Rightarrow> client" where
  "touch_done c = c\<lparr>cl_fs := TouchBenchSubDone (cl_sync_dir c) (cl_can_open c) (cl_fs c)\<rparr>"

definition exit_code :: "client \<Rightarrow> nat" where
  "exit_code c = (if cl_failed c then 1 else 0)"

definition WaitAndReport ::
  "bool \<Rightarrow> string option \<Rightarrow> cl_event list \<Rightarrow> (nat \<Rightarrow> u64) \<Rightarrow> (nat \<Rightarrow> cl_event list) \<Rightarrow> cl_event list \<Rightarrow> client
   \<Rightarrow> (nat \<times> string \<times> client) res" where
  "WaitAndReport tracy wait_env phase1 now inbox phase2 c =
     (let c = client_run c phase1 in
      if \<not> cl_registered c \<or> \<not> cl_available c
      then Inr (1, '''', touch_done (c\<lparr>cl_failed := True\<rparr>))
      else if opt_rpc_calls (cl_opt c) > 0
      then rbind (RunEchoCalls now inbox c) (\<lambda>(c, out). Inr (exit_code c, out, touch_done c))
      else rbind (wait_seconds wait_env (opt_size (cl_opt c))) (\<lambda>_.
        let c = client_run c phase2 in
        rbind (PrintCsv (cl_opt c) (cl_latencies_us c) (cl_gap_count c)) (\<lambda>line.
        let c = touch_done c in
        Inr (exit_code c, line, if tracy then call [Client_clear_all_handler, Client_stop] c else c))))"

text \<open>\<open>main\<close>: exit code 2 on a bad command line, otherwise the options of the client.\<close>

definition event_client_main :: "string list \<Rightarrow> nat + Options" where
  "event_client_main args =
     (case ParseOptions args default_options of
        Inl e \<Rightarrow> Inl 2
      | Inr opt \<Rightarrow> Inr (if opt_stack opt = '''' then opt\<lparr>opt_stack := ''vsomeip''\<rparr> else opt))"

section \<open>Receiving a frame\<close>

definition notification :: "bytes \<Rightarrow> message" where
  "notification p = \<lparr>msg_type = MT_NOTIFICATION, msg_service = kServiceId, msg_instance = kInstanceId,
     msg_method = kEventId, msg_payload = p\<rparr>"

text \<open>The handler calls that deliver payloads \<open>ps\<close> at times \<open>rs\<close>.\<close>

definition deliver :: "u64 list \<Rightarrow> bytes list \<Rightarrow> cl_event list" where
  "deliver rs ps = map2 (\<lambda>r p. Cl_message r (notification p)) rs ps"

lemma client_run_append: "client_run c (es @ fs) = client_run (client_run c es) fs"
  by (simp add: client_run_def)

lemma client_run_Cons [simp]: "client_run c (e # es) = client_run (client_step c e) es"
  by (simp add: client_run_def)

lemma client_run_Nil [simp]: "client_run c [] = c"
  by (simp add: client_run_def)

lemma OnMessage_notification:
  "OnMessage r (notification p) c =
     (case ingest (cl_build c) p (cl_tracker c) of
        (None, t) \<Rightarrow> c\<lparr>cl_tracker := t\<rparr>
      | (Some f, t) \<Rightarrow> record_frame r f (c\<lparr>cl_tracker := t\<rparr>))"
  by (simp add: OnMessage_def notification_def)

lemma deliver_no_frame:
  assumes "ingest_all (cl_build c) ps (cl_tracker c) = (replicate (length ps) None, t')"
    and "length rs = length ps"
  shows "client_run c (deliver rs ps) = c\<lparr>cl_tracker := t'\<rparr>"
  using assms
proof (induction ps arbitrary: c rs)
  case Nil
  then show ?case by (simp add: deliver_def)
next
  case (Cons p ps)
  obtain r rs' where rs: "rs = r # rs'" using Cons.prems(2) by (cases rs) auto
  obtain t where t: "ingest (cl_build c) p (cl_tracker c) = (None, t)"
    "ingest_all (cl_build c) ps t = (replicate (length ps) None, t')"
    using Cons.prems(1) by (auto simp: Let_def split: prod.splits)
  have "client_run (c\<lparr>cl_tracker := t\<rparr>) (deliver rs' ps) = (c\<lparr>cl_tracker := t\<rparr>)\<lparr>cl_tracker := t'\<rparr>"
    by (rule Cons.IH) (use t Cons.prems(2) rs in simp_all)
  then show ?case using t(1) by (simp add: deliver_def rs OnMessage_notification)
qed

lemma ingest_all_length: "length (fst (ingest_all b ps t)) = length ps"
proof (induction ps arbitrary: t)
  case (Cons p ps)
  show ?case using Cons [of "snd (ingest b p t)"] by (auto simp: Let_def split: prod.splits)
qed simp

lemma deliver_frame:
  assumes fr: "is_frame (cl_build c) sq ns ps" and len: "length rs = length ps"
  shows "client_run c (deliver rs ps) =
    record_frame (last rs) \<lparr>frame_seq = sq, frame_send_ns = ns\<rparr>
      (c\<lparr>cl_tracker := tracker_at False sq (length ps) ns\<rparr>)"
proof -
  obtain qs q where ps: "ps = qs @ [q]" using fr by (cases ps rule: rev_cases) (auto simp: is_frame_def)
  obtain rs' r where rs: "rs = rs' @ [r]" "length rs' = length qs"
    using len ps by (cases rs rule: rev_cases) auto
  obtain outs t where t: "ingest_all (cl_build c) qs (cl_tracker c) = (outs, t)" by fastforce
  obtain o' t' where o': "ingest (cl_build c) q t = (o', t')" by fastforce
  have "length outs = length qs"
    using ingest_all_length [of "cl_build c" qs "cl_tracker c"] t by simp
  then have all: "outs = replicate (length qs) None" "o' = Some \<lparr>frame_seq = sq, frame_send_ns = ns\<rparr>"
      "t' = tracker_at False sq (length ps) ns"
    using ingest_frame [OF fr, of "cl_tracker c"] t o' by (auto simp: ps ingest_all_append)
  have "client_run c (deliver rs' qs) = c\<lparr>cl_tracker := t\<rparr>"
    by (rule deliver_no_frame) (use t all rs(2) in simp_all)
  then show ?thesis
    using o' all rs(2) by (simp add: deliver_def ps rs client_run_append OnMessage_notification)
qed

lemma record_frame_fields [simp]:
  "cl_build (record_frame r f c) = cl_build c" "cl_opt (record_frame r f c) = cl_opt c"
  "cl_last_seq (record_frame r f c) = frame_seq f" "cl_tracker (record_frame r f c) = cl_tracker c"
  by (simp_all add: record_frame_def Let_def)

lemma record_frame_tracker:
  "record_frame r f (c\<lparr>cl_tracker := t\<rparr>) = (record_frame r f c)\<lparr>cl_tracker := t\<rparr>"
  by (simp add: record_frame_def Let_def)

section \<open>Counting gaps\<close>

text \<open>
  From a nonzero last sequence number, frames with increasing numbers raise the gap counter
  by exactly the number of sequence numbers skipped.
\<close>

fun record_frames :: "(u64 \<times> CompletedFrame) list \<Rightarrow> client \<Rightarrow> client" where
  "record_frames [] c = c"
| "record_frames ((r, f) # fs) c = record_frames fs (record_frame r f c)"

lemma record_frame_gap:
  assumes "cl_last_seq c \<noteq> 0" and "cl_last_seq c < frame_seq f"
  shows "cl_gap_count (record_frame r f c) =
    cl_gap_count c + of_nat (unat (frame_seq f) - unat (cl_last_seq c) - 1)"
proof -
  let ?l = "cl_last_seq c" and ?s = "frame_seq f"
  have lt: "unat ?l < unat ?s" using assms(2) by (simp add: word_less_nat_alt)
  have l1: "unat (?l + 1) = unat ?l + 1"
    using lt unat_u32_less [of ?s] by (simp add: unat_plus_if')
  have d: "unat (?s - ?l - 1) = unat ?s - unat ?l - 1"
  proof -
    have "?l + 1 \<le> ?s" using lt l1 by (simp add: word_le_nat_alt)
    then have "unat (?s - (?l + 1)) = unat ?s - unat (?l + 1)" by (simp add: unat_sub)
    then show ?thesis using l1 by (simp add: diff_diff_eq)
  qed
  then have u: "(ucast (?s - ?l - 1) :: u64) = of_nat (unat ?s - unat ?l - 1)"
    by (metis of_nat_unat)
  show ?thesis
  proof (cases "?l + 1 < ?s")
    case True
    then show ?thesis using assms(1) u by (simp add: record_frame_def Let_def)
  next
    case False
    then have "unat ?s = unat ?l + 1" using lt l1 by (simp add: word_less_nat_alt)
    then show ?thesis using False by (simp add: record_frame_def Let_def)
  qed
qed

lemma record_frames_gap:
  assumes "cl_last_seq c \<noteq> 0" and "fs \<noteq> []"
    and "sorted_wrt (<) (cl_last_seq c # map (\<lambda>(r, f). frame_seq f) fs)"
  shows "cl_gap_count (record_frames fs c) =
    cl_gap_count c + of_nat (unat (frame_seq (snd (last fs))) - unat (cl_last_seq c) - length fs) \<and>
    unat (cl_last_seq c) + length fs \<le> unat (frame_seq (snd (last fs)))"
  using assms
proof (induction fs arbitrary: c)
  case Nil
  then show ?case by simp
next
  case (Cons rf fs)
  obtain r f where rf: "rf = (r, f)" by fastforce
  have lt: "cl_last_seq c < frame_seq f" using Cons.prems(3) by (simp add: rf)
  then have nz: "frame_seq f \<noteq> 0" and lu: "unat (cl_last_seq c) < unat (frame_seq f)"
    by (auto simp: word_less_nat_alt)
  note g = record_frame_gap [OF Cons.prems(1) lt, of r]
  show ?case
  proof (cases "fs = []")
    case True
    then show ?thesis using g lu by (simp add: rf)
  next
    case False
    have "cl_gap_count (record_frames fs (record_frame r f c)) = cl_gap_count (record_frame r f c) +
        of_nat (unat (frame_seq (snd (last fs))) - unat (frame_seq f) - length fs) \<and>
        unat (frame_seq f) + length fs \<le> unat (frame_seq (snd (last fs)))"
      using Cons.IH [of "record_frame r f c"] False nz Cons.prems(3) by (simp add: rf)
    moreover from this have "(unat (frame_seq f) - unat (cl_last_seq c) - 1) +
        (unat (frame_seq (snd (last fs))) - unat (frame_seq f) - length fs) =
        unat (frame_seq (snd (last fs))) - unat (cl_last_seq c) - length (rf # fs)"
      using lu by simp
    ultimately show ?thesis
      using False g lu by (simp add: rf add.assoc add.commute flip: of_nat_add del: of_nat_diff)
  qed
qed

section \<open>Subscribing and calling the echo method\<close>

definition subscriptions :: "client \<Rightarrow> client_call list" where
  "subscriptions c = filter (\<lambda>x. x = Subscribe kServiceId kInstanceId kEventgroupId) (cl_calls c)"

lemma record_frame_static [simp]:
  "cl_calls (record_frame r f c) = cl_calls c" "cl_available (record_frame r f c) = cl_available c"
  "cl_rpc_pending_seq (record_frame r f c) = cl_rpc_pending_seq c" "cl_rpc_done (record_frame r f c) = cl_rpc_done c"
  "cl_rpc_rtt_us (record_frame r f c) = cl_rpc_rtt_us c"
  by (simp_all add: record_frame_def Let_def)

lemma OnMessage_static [simp]:
  "cl_calls (OnMessage r m c) = cl_calls c" "cl_available (OnMessage r m c) = cl_available c"
  "cl_opt (OnMessage r m c) = cl_opt c" "cl_rpc_pending_seq (OnMessage r m c) = cl_rpc_pending_seq c"
  by (auto simp: OnMessage_def OnEchoResponse_def split: option.splits prod.splits)

definition subscribed_once :: "client \<Rightarrow> bool" where
  "subscribed_once c \<longleftrightarrow>
     length (subscriptions c) = (if cl_available c \<and> \<not> opt_rpc_calls (cl_opt c) > 0 then 1 else 0)"

lemma client_step_subscribed_once: "subscribed_once c \<Longrightarrow> subscribed_once (client_step c e)"
  by (cases e) (auto simp: subscribed_once_def subscriptions_def OnState_def OnAvailability_def call_def touch_ready_def Let_def
    split: option.splits)

lemma client_step_opt: "cl_opt (client_step c e) = cl_opt c"
  by (cases e) (auto simp: OnState_def OnAvailability_def call_def touch_ready_def Let_def split: option.splits)

lemma client_run_subscribed_once: "subscribed_once c \<Longrightarrow> subscribed_once (client_run c es)"
  by (induction es arbitrary: c) (auto simp: client_step_subscribed_once)

lemma client_run_opt: "cl_opt (client_run c es) = cl_opt c"
  by (induction es arbitrary: c) (auto simp: client_step_opt)

text \<open>Messages that do not answer the pending call: anything but a response with its number.\<close>

definition not_the_answer :: "u32 \<Rightarrow> cl_event \<Rightarrow> bool" where
  "not_the_answer sq e \<longleftrightarrow>
     (case e of Cl_message r m \<Rightarrow>
        msg_type m = MT_RESPONSE \<and> msg_method m = kEchoMethodId \<longrightarrow>
          (\<forall>ns sq'. ReadStamp (msg_payload m) = Some (ns, sq') \<longrightarrow> sq' \<noteq> sq)
      | _ \<Rightarrow> True)"

lemma client_step_not_answer:
  assumes "not_the_answer (cl_rpc_pending_seq c) e"
  shows "cl_rpc_done (client_step c e) = cl_rpc_done c \<and> cl_rpc_rtt_us (client_step c e) = cl_rpc_rtt_us c \<and>
    cl_rpc_pending_seq (client_step c e) = cl_rpc_pending_seq c"
  using assms
  by (cases e)
    (auto simp: not_the_answer_def OnMessage_def OnEchoResponse_def OnState_def OnAvailability_def call_def touch_ready_def Let_def
      split: option.splits prod.splits if_splits)

lemma client_run_not_answer:
  assumes "\<forall>e\<in>set es. not_the_answer (cl_rpc_pending_seq c) e"
  shows "cl_rpc_done (client_run c es) = cl_rpc_done c \<and> cl_rpc_rtt_us (client_run c es) = cl_rpc_rtt_us c \<and>
    cl_rpc_pending_seq (client_run c es) = cl_rpc_pending_seq c"
  using assms
proof (induction es arbitrary: c)
  case (Cons e es)
  then show ?case using client_step_not_answer [of c e] Cons.IH [of "client_step c e"] by simp
qed simp

definition echo_response :: "bytes \<Rightarrow> message" where
  "echo_response p = \<lparr>msg_type = MT_RESPONSE, msg_service = kServiceId, msg_instance = kInstanceId,
     msg_method = kEchoMethodId, msg_payload = p\<rparr>"

text \<open>
  A call is answered: among other messages, one response arrives that carries the stamp of the
  request. Later messages no longer count, since the wait ends with the answer.
\<close>

definition answered :: "(nat \<Rightarrow> u64) \<Rightarrow> (nat \<Rightarrow> u64) \<Rightarrow> (nat \<Rightarrow> cl_event list) \<Rightarrow> nat \<Rightarrow> bool" where
  "answered now arrival inbox i \<longleftrightarrow>
     (\<exists>es p. inbox i = es @ [Cl_message (arrival i) (echo_response p)] \<and> (\<forall>e\<in>set es. not_the_answer (of_nat i) e) \<and>
        ReadStamp p = Some (now i, of_nat i))"

lemma echo_call_answered:
  assumes "answered now arrival inbox i" and "kBenchHeaderBytes \<le> length buf"
  shows "\<exists>c' buf' out'. echo_call now inbox i (c, buf, rtts, out) = Inr (c', buf', rtts @ [elapsed_us (now i) (arrival i)], out') \<and>
    length buf' = length buf \<and> cl_opt c' = cl_opt c"
proof -
  obtain es p where a: "inbox i = es @ [Cl_message (arrival i) (echo_response p)]"
    "\<forall>e\<in>set es. not_the_answer (of_nat i) e" "ReadStamp p = Some (now i, of_nat i)"
    using assms(1) unfolding answered_def by blast
  obtain d where d: "StampPayload buf (length buf) (now i) (of_nat i) = Inr d" "length d = length buf"
    using StampPayload_ReadStamp [OF assms(2)] by blast
  define c1 where "c1 = call [Send_request (opt_transport (cl_opt c) = ''tcp'') kServiceId kInstanceId kEchoMethodId d]
    (c\<lparr>cl_rpc_pending_seq := of_nat i, cl_rpc_done := False\<rparr>)"
  have c1: "cl_rpc_pending_seq c1 = of_nat i" "cl_opt c1 = cl_opt c" by (simp_all add: c1_def call_def)
  have pend: "cl_rpc_pending_seq (client_run c1 es) = of_nat i"
    using client_run_not_answer [of es c1] a(2) c1 by simp
  define c2 where "c2 = client_run c1 (inbox i)"
  have "client_run c1 (inbox i) = OnMessage (arrival i) (echo_response p) (client_run c1 es)"
    by (simp add: a(1) client_run_append)
  then have c2: "cl_rpc_done c2" "cl_rpc_rtt_us c2 = elapsed_us (now i) (arrival i)" "cl_opt c2 = cl_opt c"
    using a(3) pend client_run_opt [of c1 es] c1
    by (simp_all add: c2_def OnMessage_def OnEchoResponse_def echo_response_def)
  have "echo_call now inbox i (c, buf, rtts, out) = Inr (call [Pause (f64_recip (opt_rate_hz (cl_opt c)))] c2, d, rtts @ [elapsed_us (now i) (arrival i)],
      out @ rpc_prefix ''rpc '' (cl_opt c) @ '' call='' @ show_nat i @ '' rtt_us='' @ show_fixed 3 (cl_rpc_rtt_us c2) @ ''\<newline>'')"
    using d c2 by (simp add: echo_call_def Let_def flip: c1_def c2_def)
  moreover have "cl_opt (call cs c2) = cl_opt c" for cs using c2 by (simp add: call_def)
  ultimately show ?thesis using d by blast
qed

lemma echo_calls_answered:
  assumes "\<forall>i<n. answered now arrival inbox i" and "kBenchHeaderBytes \<le> length buf"
  shows "\<exists>c' buf' out'. foldE (echo_call now inbox) [0..<n] (c, buf, [], out) =
      Inr (c', buf', map (\<lambda>i. elapsed_us (now i) (arrival i)) [0..<n], out') \<and> length buf' = length buf \<and> cl_opt c' = cl_opt c"
  using assms(1)
proof (induction n)
  case (Suc n)
  then obtain c1 buf1 out1 where IH: "foldE (echo_call now inbox) [0..<n] (c, buf, [], out) =
      Inr (c1, buf1, map (\<lambda>i. elapsed_us (now i) (arrival i)) [0..<n], out1)" "length buf1 = length buf" "cl_opt c1 = cl_opt c"
    by auto
  have "kBenchHeaderBytes \<le> length buf1" using IH(2) assms(2) by simp
  moreover have "answered now arrival inbox n" using Suc.prems by simp
  ultimately have "\<exists>c' buf' out'. echo_call now inbox n (c1, buf1, map (\<lambda>i. elapsed_us (now i) (arrival i)) [0..<n], out1) =
       Inr (c', buf', map (\<lambda>i. elapsed_us (now i) (arrival i)) [0..<n] @ [elapsed_us (now n) (arrival n)], out') \<and>
      length buf' = length buf1 \<and> cl_opt c' = cl_opt c1"
    by (intro echo_call_answered)
  then obtain c2 buf2 out2 where
    "echo_call now inbox n (c1, buf1, map (\<lambda>i. elapsed_us (now i) (arrival i)) [0..<n], out1) =
       Inr (c2, buf2, map (\<lambda>i. elapsed_us (now i) (arrival i)) [0..<n] @ [elapsed_us (now n) (arrival n)], out2)"
    "length buf2 = length buf1" "cl_opt c2 = cl_opt c1"
    by blast
  then show ?case using IH by (simp add: foldE_append)
qed simp

section \<open>Properties\<close>

text \<open>
  However often the service becomes available and unavailable, the subscriber subscribes
  exactly once after it first became available, and never when it only makes echo calls.
\<close>

theorem subscribes_exactly_once:
  "length (filter (\<lambda>x. x = Subscribe kServiceId kInstanceId kEventgroupId)
       (cl_calls (client_run (init_client b dir can_open opt) es))) =
     (if cl_available (client_run (init_client b dir can_open opt) es) \<and> \<not> opt_rpc_calls opt > 0 then 1 else 0)"
proof -
  have "subscribed_once (init_client b dir can_open opt)"
    by (simp add: subscribed_once_def subscriptions_def init_client_def)
  from client_run_subscribed_once [OF this, of es] show ?thesis
    using client_run_opt [of "init_client b dir can_open opt" es]
    by (simp add: subscribed_once_def subscriptions_def init_client_def)
qed

text \<open>
  C18. If every echo call is answered with its own stamp, after any number of stale responses
  and notifications, all calls succeed: the summary reports as many as were made, from the
  round-trip times between each stamp and the arrival of its answer.
\<close>

theorem echo_calls_all_succeed:
  assumes "\<forall>i<nat (opt_rpc_calls (cl_opt c)). answered now arrival inbox i"
    and "kBenchHeaderBytes \<le> unat (opt_size (cl_opt c))"
    and "opt_transport (cl_opt c) = ''udp'' \<longrightarrow> opt_size (cl_opt c) \<le> opt_max_datagram (cl_opt c)"
    and "nat (opt_rpc_calls (cl_opt c)) \<le> 2 ^ 53"
  defines "rtts \<equiv> map (\<lambda>i. elapsed_us (now i) (arrival i)) [0..<nat (opt_rpc_calls (cl_opt c))]"
  shows "\<exists>c' out line. RunEchoCalls now inbox c = Inr (c', out @ line) \<and> rpc_summary (cl_opt c) rtts = Inr line"
proof -
  let ?n = "nat (opt_rpc_calls (cl_opt c))" and ?buf = "replicate (unat (opt_size (cl_opt c))) (0 :: u8)"
  obtain c' buf' out' where f: "foldE (echo_call now inbox) [0..<?n] (c, ?buf, [], '''') = Inr (c', buf', rtts, out')"
  proof -
    have "kBenchHeaderBytes \<le> length ?buf" using assms(2) by simp
    from echo_calls_answered [OF assms(1) this, of c "''''"] show thesis
      unfolding rtts_def [symmetric] using that by blast
  qed
  have "length rtts \<le> 2 ^ 53" using assms(4) by (simp add: rtts_def)
  then obtain m where "PercentileUs rtts (1 / 2) = Inr m"
    using PercentileUs_total [of "1 / 2" rtts] by auto
  then obtain line where line: "rpc_summary (cl_opt c) rtts = Inr line" by (auto simp: rpc_summary_def)
  have "\<not> (opt_transport (cl_opt c) = ''udp'' \<and> opt_max_datagram (cl_opt c) < opt_size (cl_opt c))"
    using assms(3) by auto
  then have "RunEchoCalls now inbox c = Inr (c', out' @ line)"
    unfolding RunEchoCalls_def Let_def if_not_P [OF \<open>\<not> (opt_transport (cl_opt c) = ''udp'' \<and> opt_max_datagram (cl_opt c) < opt_size (cl_opt c))\<close>]
    using f line by simp
  then show ?thesis using line by blast
qed

lemma echo_calls_all_succeed_witness:
  "\<exists>c' out line. RunEchoCalls (\<lambda>i. 1000) (\<lambda>i. [Cl_message 9000 (echo_response (le_bytes (1000 :: u64) @ le_bytes (of_nat i :: u32)))])
       (init_client Sgmenon_Build None (\<lambda>_. False) (default_options\<lparr>opt_size := 64, opt_rpc_calls := 2\<rparr>)) = Inr (c', out @ line)"
proof -
  let ?c = "init_client Sgmenon_Build None (\<lambda>_. False) (default_options\<lparr>opt_size := 64, opt_rpc_calls := 2\<rparr>)"
  have "answered (\<lambda>i. 1000) (\<lambda>i. 9000) (\<lambda>i. [Cl_message 9000 (echo_response (le_bytes (1000 :: u64) @ le_bytes (of_nat i :: u32)))]) i" for i
    unfolding answered_def
    by (intro exI [of _ "[]"] exI [of _ "le_bytes (1000 :: u64) @ le_bytes (of_nat i :: u32)"])
      (simp add: ReadStamp_def frag_consts)
  then show ?thesis
    using echo_calls_all_succeed [of ?c "\<lambda>i. 1000" "\<lambda>i. 9000"
        "\<lambda>i. [Cl_message 9000 (echo_response (le_bytes (1000 :: u64) @ le_bytes (of_nat i :: u32)))]"]
    by (auto simp: init_client_def default_options_def frag_consts)
qed

text \<open>
  A subscriber that is not told of its registration and of the service before the wait
  ends exits with 1, prints nothing, subscribes to nothing, and still leaves the marker that
  lets the publisher's container stop.
\<close>

theorem no_service_exit_1:
  assumes "\<forall>e\<in>set phase1. e \<noteq> Cl_availability True" and "can_open (dir @ ''/.bench-sub-done'')"
  shows "\<exists>c. WaitAndReport tracy env phase1 now inbox phase2 (init_client b (Some dir) can_open opt) = Inr (1, '''', c) \<and>
    cl_fs c (dir @ ''/.bench-sub-done'') = Some ''1'' \<and> subscriptions c = []"
proof -
  let ?c0 = "init_client b (Some dir) can_open opt"
  have keep: "\<not> cl_available (client_run c es) \<and> cl_sync_dir (client_run c es) = cl_sync_dir c \<and> cl_can_open (client_run c es) = cl_can_open c"
    if "\<forall>e\<in>set es. e \<noteq> Cl_availability True" "\<not> cl_available c" for c es
    using that
  proof (induction es arbitrary: c)
    case (Cons e es)
    have "\<not> cl_available (client_step c e) \<and> cl_sync_dir (client_step c e) = cl_sync_dir c \<and> cl_can_open (client_step c e) = cl_can_open c"
      using Cons.prems
      by (cases e) (auto simp: OnState_def OnAvailability_def call_def OnMessage_def OnEchoResponse_def record_frame_def Let_def split: option.splits prod.splits)
    then show ?case using Cons by simp
  qed simp
  define c1 where "c1 = client_run ?c0 phase1"
  have c1: "\<not> cl_available c1" "cl_sync_dir c1 = Some dir" "cl_can_open c1 = can_open"
    using keep [of phase1 ?c0] assms(1) by (simp_all add: c1_def init_client_def)
  have "subscribed_once c1"
    unfolding c1_def by (rule client_run_subscribed_once) (simp add: subscribed_once_def subscriptions_def init_client_def)
  then have "subscriptions c1 = []" using c1(1) by (simp add: subscribed_once_def)
  then show ?thesis
    using c1 assms(2)
    by (simp add: WaitAndReport_def touch_done_def TouchBenchSubDone_def Let_def subscriptions_def flip: c1_def)
qed

lemma no_service_exit_1_witness:
  "\<exists>c. WaitAndReport False None [Cl_state ST_REGISTERED] (\<lambda>_. 0) (\<lambda>_. []) []
      (init_client Sgmenon_Build (Some ''/sync'') (\<lambda>_. True) default_options) = Inr (1, '''', c) \<and>
    cl_fs c ''/sync/.bench-sub-done'' = Some ''1'' \<and> subscriptions c = []"
  using no_service_exit_1 [of "[Cl_state ST_REGISTERED]" "\<lambda>_. True" "''/sync''"] by simp

section \<open>The program\<close>

text \<open>
  \<open>main\<close> and \<open>Run\<close>: exit code and standard output, given the command line, whether the
  application can be initialised, the environment and what arrives during the three waits.
\<close>

definition event_client_program ::
  "string list \<Rightarrow> bool \<Rightarrow> build \<Rightarrow> string option \<Rightarrow> (string \<Rightarrow> bool) \<Rightarrow> bool \<Rightarrow> string option \<Rightarrow> cl_event list
   \<Rightarrow> (nat \<Rightarrow> u64) \<Rightarrow> (nat \<Rightarrow> cl_event list) \<Rightarrow> cl_event list \<Rightarrow> (nat \<times> string) res" where
  "event_client_program args init_ok b dir can_open tracy wait_env phase1 now inbox phase2 =
     (case event_client_main args of
        Inl code \<Rightarrow> Inr (code, '''')
      | Inr opt \<Rightarrow>
          (case Run_client init_ok (init_client b dir can_open opt) of
             Inl code \<Rightarrow> Inr (code, '''')
           | Inr c \<Rightarrow> rbind (WaitAndReport tracy wait_env phase1 now inbox phase2 c) (\<lambda>(code, out, c). Inr (code, out))))"

lemma record_frame_length: "length (cl_latencies_us (record_frame r f c)) \<le> Suc (length (cl_latencies_us c))"
  by (simp add: record_frame_def Let_def)

lemma client_step_length: "length (cl_latencies_us (client_step c e)) \<le> Suc (length (cl_latencies_us c))"
proof (cases e)
  case (Cl_message r m)
  then show ?thesis
    using record_frame_length [of r _ "c\<lparr>cl_tracker := _\<rparr>"]
    by (auto simp: OnMessage_def OnEchoResponse_def split: option.splits prod.splits)
qed (auto simp: OnState_def OnAvailability_def call_def touch_ready_def Let_def split: option.splits)

lemma client_run_length: "length (cl_latencies_us (client_run c es)) \<le> length (cl_latencies_us c) + length es"
proof (induction es arbitrary: c)
  case (Cons e es)
  show ?case using client_step_length [of c e] Cons [of "client_step c e"]
    unfolding client_run_Cons by (simp add: le_trans)
qed simp

lemma echo_call_total:
  assumes "kBenchHeaderBytes \<le> length buf"
  shows "\<exists>c' buf' rtts' out'. echo_call now inbox i (c, buf, rtts, out) = Inr (c', buf', rtts', out') \<and>
    length buf' = length buf \<and> length rtts' \<le> Suc (length rtts) \<and> cl_opt c' = cl_opt c \<and> cl_failed c' = cl_failed c"
proof -
  obtain d where d: "StampPayload buf (length buf) (now i) (of_nat i) = Inr d" "length d = length buf"
    using StampPayload_ReadStamp [OF assms] by blast
  have failed: "cl_failed (client_run c es) = cl_failed c" for c es
  proof (induction es arbitrary: c)
    case (Cons e es)
    have "cl_failed (client_step c e) = cl_failed c"
      by (cases e) (auto simp: OnState_def OnAvailability_def call_def touch_ready_def OnMessage_def OnEchoResponse_def
        record_frame_def Let_def split: option.splits prod.splits)
    then show ?case using Cons by simp
  qed simp
  show ?thesis using d by (auto simp: echo_call_def Let_def call_def client_run_opt failed)
qed

lemma echo_calls_total:
  assumes "kBenchHeaderBytes \<le> length buf"
  shows "\<exists>c' buf' rtts' out'. foldE (echo_call now inbox) is (c, buf, rtts, out) = Inr (c', buf', rtts', out') \<and>
    length buf' = length buf \<and> length rtts' \<le> length rtts + length is \<and> cl_opt c' = cl_opt c \<and> cl_failed c' = cl_failed c"
  using assms
proof (induction "is" arbitrary: c buf rtts out)
  case (Cons i "is")
  obtain c1 buf1 rtts1 out1 where e: "echo_call now inbox i (c, buf, rtts, out) = Inr (c1, buf1, rtts1, out1)"
    "length buf1 = length buf" "length rtts1 \<le> Suc (length rtts)" "cl_opt c1 = cl_opt c" "cl_failed c1 = cl_failed c"
    using echo_call_total [OF Cons.prems] by blast
  have "kBenchHeaderBytes \<le> length buf1" using Cons.prems e(2) by simp
  from Cons.IH [OF this, of c1 rtts1 out1] e show ?case by fastforce
qed simp

lemma RunEchoCalls_total:
  assumes "kBenchHeaderBytes \<le> unat (opt_size (cl_opt c))" and "nat (opt_rpc_calls (cl_opt c)) \<le> 2 ^ 53"
  shows "\<exists>c' out. RunEchoCalls now inbox c = Inr (c', out)"
proof -
  have "kBenchHeaderBytes \<le> length (replicate (unat (opt_size (cl_opt c))) (0 :: u8))" using assms(1) by simp
  from echo_calls_total [OF this, of now inbox "[0..<nat (opt_rpc_calls (cl_opt c))]" c "[]" "''''"]
  obtain c' buf' rtts out' where f: "foldE (echo_call now inbox) [0..<nat (opt_rpc_calls (cl_opt c))]
      (c, replicate (unat (opt_size (cl_opt c))) 0, [], '''') = Inr (c', buf', rtts, out')"
    "length rtts \<le> nat (opt_rpc_calls (cl_opt c))"
    by auto
  obtain m where "PercentileUs rtts (1 / 2) = Inr m"
    using PercentileUs_total [of "1 / 2" rtts] f(2) assms(2) by auto
  then show ?thesis using f(1) by (simp add: RunEchoCalls_def rpc_summary_def Let_def)
qed



end
