(* ===== verification/Vsomeip_Run.thy ===== *)
theory Vsomeip_Run
  imports Event_Client
begin

text \<open>
  Publisher and subscriber together: what a complete run of the vsomeip benchmark delivers
  when the network neither loses nor reorders notifications.
\<close>

section \<open>The publisher's frames\<close>

fun notified :: "app_call list \<Rightarrow> bytes list" where
  "notified [] = []"
| "notified (Notify s i e p # cs) = p # notified cs"
| "notified (c # cs) = notified cs"

lemma notified_append [simp]: "notified (xs @ ys) = notified xs @ notified ys"
  by (induction xs rule: notified.induct) auto

lemma notified_map_Notify [simp]: "notified (map (Notify s i e) ps) = ps"
  by (induction ps) auto

lemma notified_pace [simp]: "notified (pace p e) = []"
  by (cases p) auto

lemma svc_run_append: "svc_run s (es @ fs) = svc_run (svc_run s es) fs"
  by (induction es arbitrary: s) auto

text \<open>The worker events of the publishing loop, from the three clock readings of each frame.\<close>

definition frame_steps :: "(u64 \<times> u64 \<times> u64) list \<Rightarrow> svc_event list" where
  "frame_steps rs = map (\<lambda>(t0, now, t1). Worker_step True t0 now t1) rs"

lemma publish_frames:
  assumes "sv_worker s = Publishing i sq tot plan block" and "plan_sound plan (length block)"
    and "i + int (length rs) \<le> tot"
  shows "\<exists>pss block'. length pss = length rs \<and> length block' = length block \<and>
    (\<forall>k<length rs. is_frame (sv_build s) (sq + of_nat k) (fst (snd (rs ! k))) (pss ! k)) \<and>
    sv_worker (svc_run s (frame_steps rs)) = Publishing (i + int (length rs)) (sq + of_nat (length rs)) tot plan block' \<and>
    notified (sv_calls (svc_run s (frame_steps rs))) = notified (sv_calls s) @ concat pss"
  using assms
proof (induction rs arbitrary: s i sq block)
  case Nil
  then show ?case by (auto simp: frame_steps_def)
next
  case (Cons r rs)
  obtain t0 now t1 where r: "r = (t0, now, t1)" by (cases r) auto
  obtain ps b1 where p: "publish_frame (sv_build s) plan sq now block = Inr (ps, b1)"
    "length b1 = length block" "is_frame (sv_build s) sq now ps"
    using publish_frame_ok [OF Cons.prems(2), of "sv_build s" sq now] by blast
  define s1 where "s1 = svc_step s (Worker_step True t0 now t1)"
  have s1: "sv_worker s1 = Publishing (i + 1) (sq + 1) tot plan b1" "sv_build s1 = sv_build s"
    "notified (sv_calls s1) = notified (sv_calls s) @ ps"
    using Cons.prems(1,3) p(1) by (simp_all add: s1_def publish_step_def emit_def)
  have "plan_sound plan (length b1)" using Cons.prems(2) p(2) by simp
  moreover have "(i + 1) + int (length rs) \<le> tot" using Cons.prems(3) by simp
  ultimately obtain pss b2 where IH: "length pss = length rs" "length b2 = length b1"
    "\<forall>k<length rs. is_frame (sv_build s) (sq + 1 + of_nat k) (fst (snd (rs ! k))) (pss ! k)"
    "sv_worker (svc_run s1 (frame_steps rs)) = Publishing (i + 1 + int (length rs)) (sq + 1 + of_nat (length rs)) tot plan b2"
    "notified (sv_calls (svc_run s1 (frame_steps rs))) = notified (sv_calls s1) @ concat pss"
    using Cons.IH [OF s1(1)] s1(2) by auto
  have run: "svc_run s (frame_steps (r # rs)) = svc_run s1 (frame_steps rs)"
    by (simp add: frame_steps_def r s1_def)
  have "is_frame (sv_build s) (sq + of_nat k) (fst (snd ((r # rs) ! k))) ((ps # pss) ! k)"
    if "k < length (r # rs)" for k
    using that p(3) IH(3) r by (cases k) (auto simp: add.assoc)
  then show ?case
    using IH p(2) s1(3) unfolding run
    by (intro exI [of _ "ps # pss"] exI [of _ b2]) (auto simp: add.assoc add.commute)
qed

section \<open>The subscriber on consecutive frames\<close>

text \<open>
  Frame \<open>k\<close> is delivered as the payloads \<open>pss ! k\<close> at the times \<open>rss ! k\<close>.
\<close>

definition deliver_all :: "u64 list list \<Rightarrow> bytes list list \<Rightarrow> cl_event list" where
  "deliver_all rss pss = concat (map2 deliver rss pss)"

definition frames_at :: "u32 \<Rightarrow> u64 list \<Rightarrow> u64 list list \<Rightarrow> (u64 \<times> CompletedFrame) list" where
  "frames_at sq nows rss =
     map (\<lambda>k. (last (rss ! k), \<lparr>frame_seq = sq + of_nat k, frame_send_ns = nows ! k\<rparr>)) [0..<length rss]"

lemma record_frames_snoc: "record_frames (fs @ [(r, f)]) c = record_frame r f (record_frames fs c)"
  by (induction fs arbitrary: c) auto

lemma record_frames_tracker: "record_frames fs (c\<lparr>cl_tracker := t\<rparr>) = (record_frames fs c)\<lparr>cl_tracker := t\<rparr>"
  by (induction fs arbitrary: c) (auto simp: record_frame_tracker)

lemma deliver_all_frames:
  assumes "length nows = length pss" and "map length rss = map length pss"
    and "\<forall>k<length pss. is_frame (cl_build c) (sq + of_nat k) (nows ! k) (pss ! k)"
  shows "\<exists>t. client_run c (deliver_all rss pss) = (record_frames (frames_at sq nows rss) c)\<lparr>cl_tracker := t\<rparr>"
  using assms
proof (induction pss arbitrary: c sq nows rss)
  case Nil
  then show ?case
    by (intro exI [of _ "cl_tracker c"]) (simp add: deliver_all_def frames_at_def)
next
  case (Cons ps pss)
  obtain n nows' where n: "nows = n # nows'" using Cons.prems(1) by (cases nows) auto
  obtain rs rss' where rs: "rss = rs # rss'" using Cons.prems(2) by (cases rss) auto
  have fr: "is_frame (cl_build c) sq n ps" using Cons.prems(3) n by auto
  define c1 where "c1 = record_frame (last rs) \<lparr>frame_seq = sq, frame_send_ns = n\<rparr> c"
  define t1 where "t1 = tracker_at False sq (length ps) n"
  have 1: "client_run c (deliver rs ps) = c1\<lparr>cl_tracker := t1\<rparr>"
    using deliver_frame [OF fr, of rs] Cons.prems(2) rs by (simp add: c1_def t1_def record_frame_tracker)
  have "is_frame (cl_build c) (sq + 1 + of_nat k) (nows' ! k) (pss ! k)" if "k < length pss" for k
    using Cons.prems(3) [rule_format, of "Suc k"] that n by (simp add: add.assoc)
  then obtain t where t: "client_run (c1\<lparr>cl_tracker := t1\<rparr>) (deliver_all rss' pss) =
      (record_frames (frames_at (sq + 1) nows' rss') (c1\<lparr>cl_tracker := t1\<rparr>))\<lparr>cl_tracker := t\<rparr>"
    using Cons.IH [of nows' rss' "c1\<lparr>cl_tracker := t1\<rparr>" "sq + 1"] Cons.prems n rs by (auto simp: c1_def)
  have "frames_at sq nows rss = (last rs, \<lparr>frame_seq = sq, frame_send_ns = n\<rparr>) # frames_at (sq + 1) nows' rss'"
    by (simp add: frames_at_def n rs upt_conv_Cons map_Suc_upt [symmetric] add.assoc del: upt_Suc)
  then have "client_run c (deliver_all rss (ps # pss)) =
      (record_frames (frames_at sq nows rss) c)\<lparr>cl_tracker := t\<rparr>"
    using 1 t by (simp add: deliver_all_def rs client_run_append record_frames_tracker c1_def)
  then show ?case by blast
qed

text \<open>Frames numbered from 0: no gap is counted, and every frame from \<open>warmup\<close> on is timed.\<close>

definition consecutive_frames :: "(nat \<Rightarrow> u64) \<Rightarrow> (nat \<Rightarrow> u64) \<Rightarrow> nat \<Rightarrow> (u64 \<times> CompletedFrame) list" where
  "consecutive_frames rv sd n =
     map (\<lambda>k. (rv k, \<lparr>frame_seq = of_nat k, frame_send_ns = sd k\<rparr>)) [0..<n]"

lemma int_of_size_exact: "m < 2 ^ 31 \<Longrightarrow> int_of_size m = int m"
  by (simp add: int_of_size_def signed_of_nat signed_take_bit_int_eq_self)

lemma record_frame_no_gap:
  assumes "cl_last_seq c = 0 \<or> \<not> cl_last_seq c + 1 < frame_seq f"
  shows "record_frame r f c =
    (if frame_seq f < word_of_int (opt_warmup (cl_opt c)) then c\<lparr>cl_last_seq := frame_seq f\<rparr>
     else c\<lparr>cl_last_seq := frame_seq f,
            cl_latencies_us := cl_latencies_us c @ [elapsed_us (frame_send_ns f) r],
            cl_done := (cl_done c \<or> opt_count (cl_opt c) \<le> int_of_size (Suc (length (cl_latencies_us c))))\<rparr>)"
proof -
  have "\<not> (cl_last_seq c \<noteq> 0 \<and> cl_last_seq c + 1 < frame_seq f)" using assms by blast
  then show ?thesis by (cases c) (simp only: record_frame_def Let_def if_False client.simps, simp)
qed

lemma record_consecutive:
  assumes "0 \<le> opt_warmup (cl_opt c)" and "int_range (opt_warmup (cl_opt c))" and "N < 2 ^ 31"
    and "cl_last_seq c = 0" and "cl_latencies_us c = []" and "0 < opt_count (cl_opt c)" and "\<not> cl_done c"
  defines "w \<equiv> nat (opt_warmup (cl_opt c))"
  shows "record_frames (consecutive_frames rv sd N) c =
    c\<lparr>cl_last_seq := of_nat (N - 1), cl_latencies_us := map (\<lambda>k. elapsed_us (sd k) (rv k)) [w..<N],
      cl_done := (opt_count (cl_opt c) \<le> int (N - w))\<rparr>"
  using assms(3)
proof (induction N)
  case 0
  then show ?case using assms by (cases c) (simp add: consecutive_frames_def)
next
  case (Suc n)
  let ?c = "c\<lparr>cl_last_seq := of_nat (n - 1), cl_latencies_us := map (\<lambda>k. elapsed_us (sd k) (rv k)) [w..<n],
      cl_done := (opt_count (cl_opt c) \<le> int (n - w))\<rparr>"
  have n: "n < 2 ^ 31" using Suc.prems by simp
  have gap: "\<not> (of_nat (n - 1) \<noteq> (0 :: u32) \<and> of_nat (n - 1) + 1 < (of_nat n :: u32))"
  proof (cases n)
    case (Suc m)
    then show ?thesis by (simp add: add.commute)
  qed simp
  have wu: "(of_nat n :: u32) < word_of_int (opt_warmup (cl_opt c)) \<longleftrightarrow> n < w"
  proof -
    have "word_of_int (opt_warmup (cl_opt c)) = (of_nat w :: u32)"
      using assms(1) by (simp add: w_def flip: of_nat_nat)
    moreover have "unat (of_nat n :: u32) = n" using n by (simp add: unat_of_nat)
    moreover have "w < 2 ^ 31" using assms(1,2) by (simp add: w_def int_range_def nat_less_iff)
    then have "unat (of_nat w :: u32) = w" by (simp add: unat_of_nat)
    ultimately show ?thesis by (simp add: word_less_nat_alt)
  qed
  have step: "record_frame (rv n) \<lparr>frame_seq = of_nat n, frame_send_ns = sd n\<rparr> ?c =
     c\<lparr>cl_last_seq := of_nat n, cl_latencies_us := map (\<lambda>k. elapsed_us (sd k) (rv k)) [w..<Suc n],
       cl_done := (opt_count (cl_opt c) \<le> int (Suc n - w))\<rparr>"
  proof -
    have ng: "cl_last_seq ?c = 0 \<or> \<not> cl_last_seq ?c + 1 < frame_seq \<lparr>frame_seq = of_nat n, frame_send_ns = sd n\<rparr>"
      using gap by simp
    show ?thesis
    proof (cases "n < w")
      case True
      then have "(of_nat n :: u32) < word_of_int (opt_warmup (cl_opt c))" using wu by simp
      then show ?thesis unfolding record_frame_no_gap [OF ng] using True assms(6) by simp
    next
      case False
      then have ge: "\<not> (of_nat n :: u32) < word_of_int (opt_warmup (cl_opt c))" using wu by simp
      obtain m where m: "n = w + m" using False le_Suc_ex [of w n] by auto
      have "int_of_size (Suc m) = 1 + int m"
        using Suc.prems m by (subst int_of_size_exact) auto
      moreover have "(opt_count (cl_opt c) \<le> int m \<or> opt_count (cl_opt c) \<le> 1 + int m) = (opt_count (cl_opt c) \<le> 1 + int m)"
        by auto
      ultimately show ?thesis
        unfolding record_frame_no_gap [OF ng] using ge by (simp add: m)
    qed
  qed
  show ?case using Suc.IH Suc.prems step by (simp add: consecutive_frames_def record_frames_snoc)
qed

section \<open>A complete run\<close>

text \<open>
  The events of a run without a sync directory: registration, subscription, the two waits of
  the worker, one step per frame and the step that leaves the loop.
\<close>

definition run_events :: "(u64 \<times> u64 \<times> u64) list \<Rightarrow> svc_event list" where
  "run_events rs = [State ST_REGISTERED, Subscription True, Worker_step True 0 0 0, Worker_step True 0 0 0] @
     frame_steps rs @ [Worker_step True 0 0 0]"

lemma init_block_length [simp]: "length (init_block n) = n"
  by (simp add: init_block_def)

lemma service_publishes:
  assumes plan: "choose_plan opt = Inr plan" and sound: "plan_sound plan (unat (opt_size opt))"
    and n: "opt_warmup opt + opt_count opt = int (length rs)" "length rs < 2 ^ 31"
  shows "\<exists>pss. length pss = length rs \<and>
    (\<forall>k<length rs. is_frame b (of_nat k) (fst (snd (rs ! k))) (pss ! k)) \<and>
    sv_worker (svc_run (Run_service b None opt) (run_events rs)) = Finished \<and>
    notified (sv_calls (svc_run (Run_service b None opt) (run_events rs))) = concat pss"
proof -
  define s0 where "s0 = svc_run (Run_service b None opt)
    [State ST_REGISTERED, Subscription True, Worker_step True 0 0 0, Worker_step True 0 0 0]"
  have s0: "sv_worker s0 = Publishing 0 0 (int (length rs)) plan (init_block (unat (opt_size opt)))"
    "sv_build s0 = b" "notified (sv_calls s0) = []"
    using plan n by (simp_all add: s0_def Run_service_def OnState_service_def OnSubscription_def
      emit_def start_publishing_def int_range_def)
  obtain pss block' where p: "length pss = length rs"
    "\<forall>k<length rs. is_frame b (of_nat k) (fst (snd (rs ! k))) (pss ! k)"
    "sv_worker (svc_run s0 (frame_steps rs)) = Publishing (int (length rs)) (of_nat (length rs)) (int (length rs)) plan block'"
    "notified (sv_calls (svc_run s0 (frame_steps rs))) = concat pss"
    using publish_frames [OF s0(1), of rs] sound s0(2,3) by auto
  have run: "svc_run (Run_service b None opt) (run_events rs) =
      svc_step (svc_run s0 (frame_steps rs)) (Worker_step True 0 0 0)"
    by (simp add: run_events_def svc_run_append s0_def)
  show ?thesis
    using p unfolding run by (intro exI [of _ pss]) (simp add: publish_step_def emit_def)
qed

text \<open>The subscriber that has been told of registration and service, before the first frame.\<close>

definition subscribed_client :: "build \<Rightarrow> Options \<Rightarrow> client" where
  "subscribed_client b opt =
     client_run (init_client b None (\<lambda>_. False) opt) [Cl_state ST_REGISTERED, Cl_availability True]"

lemma subscribed_client_fields [simp]:
  "cl_build (subscribed_client b opt) = b" "cl_opt (subscribed_client b opt) = opt"
  "cl_last_seq (subscribed_client b opt) = 0" "cl_latencies_us (subscribed_client b opt) = []"
  "\<not> cl_done (subscribed_client b opt)" "\<not> cl_failed (subscribed_client b opt)"
  "cl_gap_count (subscribed_client b opt) = 0" "cl_registered (subscribed_client b opt)"
  "cl_available (subscribed_client b opt)" "cl_sync_dir (subscribed_client b opt) = None"
  by (simp_all add: subscribed_client_def OnState_def OnAvailability_def init_client_def call_def touch_ready_def)

lemma frames_at_consecutive:
  "frames_at 0 nows rss = consecutive_frames (\<lambda>k. last (rss ! k)) (\<lambda>k. nows ! k) (length rss)"
  by (simp add: frames_at_def consecutive_frames_def)

definition run_latencies :: "nat \<Rightarrow> u64 list \<Rightarrow> u64 list list \<Rightarrow> rat list" where
  "run_latencies w nows rss = map (\<lambda>k. elapsed_us (nows ! k) (last (rss ! k))) [w..<length rss]"

lemma client_receives:
  assumes len: "length nows = length pss" "map length rss = map length pss"
    and fr: "\<forall>k<length pss. is_frame b (of_nat k) (nows ! k) (pss ! k)"
    and opt: "0 \<le> opt_warmup opt" "0 < opt_count opt" "opt_warmup opt + opt_count opt = int (length pss)"
      "length pss < 2 ^ 31"
  shows "\<exists>t. client_run (subscribed_client b opt) (deliver_all rss pss) =
    (subscribed_client b opt)\<lparr>cl_last_seq := of_nat (length pss - 1),
       cl_latencies_us := run_latencies (nat (opt_warmup opt)) nows rss, cl_done := True, cl_tracker := t\<rparr>"
proof -
  have lr: "length rss = length pss" using len(2) by (metis length_map)
  have wr: "int_range (opt_warmup opt)" using opt by (auto simp: int_range_def)
  obtain t where t: "client_run (subscribed_client b opt) (deliver_all rss pss) =
      (record_frames (frames_at 0 nows rss) (subscribed_client b opt))\<lparr>cl_tracker := t\<rparr>"
    using deliver_all_frames [OF len, of "subscribed_client b opt" 0] fr by auto
  have "opt_count opt \<le> int (length pss - nat (opt_warmup opt))" using opt by simp
  then have "record_frames (frames_at 0 nows rss) (subscribed_client b opt) =
      (subscribed_client b opt)\<lparr>cl_last_seq := of_nat (length pss - 1),
       cl_latencies_us := run_latencies (nat (opt_warmup opt)) nows rss, cl_done := True\<rparr>"
    using record_consecutive [of "subscribed_client b opt" "length pss" "\<lambda>k. last (rss ! k)" "\<lambda>k. nows ! k"] opt wr
    by (simp add: frames_at_consecutive lr run_latencies_def)
  with t show ?thesis by (intro exI [of _ t]) simp
qed

section \<open>Losing notifications\<close>

text \<open>
  A frame of which some chunks are lost is not completed by what remains, whatever the tracker
  has seen of other frames.
\<close>

lemma completed_by_own_chunks:
  assumes "completed_by b (hist @ qs) f" and "qs \<noteq> []" and "\<forall>p\<in>set qs. hdr_seq (payload_header b p) = sq"
    and "\<forall>p\<in>set qs. long_payload b p" and "\<forall>p\<in>set hist. hdr_seq (payload_header b p) \<noteq> sq"
  shows "\<exists>p\<in>set qs. unat (hdr_count (payload_header b p)) \<le> length qs"
proof -
  let ?L = "filter (long_payload b)"
  have Q: "?L qs = qs" using assms(4) by (simp add: filter_id_conv)
  obtain pre r p where h: "?L hist @ qs = pre @ (r @ [p])" "chunk_run b (frame_seq f) (frame_send_ns f) (r @ [p])"
    "unat (hdr_count (payload_header b p)) \<le> Suc (length r)"
    using assms(1) Q by (auto simp: completed_by_def)
  have p: "p = last qs" using arg_cong [OF h(1), of last] assms(2) by simp
  then have pq: "p \<in> set qs" using assms(2) by simp
  have "(r @ [p]) ! length r = p" by simp
  then have "frame_seq f = hdr_seq (payload_header b p)"
    using h(2) by (metis chunk_run_def length_append_singleton lessI)
  then have sq: "frame_seq f = sq" using assms(3) pq by simp
  have all: "hdr_seq (payload_header b x) = sq" if "x \<in> set (r @ [p])" for x
    using that h(2) sq unfolding chunk_run_def in_set_conv_nth by blast
  obtain us where "?L hist = pre @ us \<and> us @ qs = r @ [p] \<or> ?L hist @ us = pre \<and> qs = us @ r @ [p]"
    using h(1) unfolding append_eq_append_conv2 by blast
  then have "length (r @ [p]) \<le> length qs"
  proof
    assume u: "?L hist = pre @ us \<and> us @ qs = r @ [p]"
    have "us = []"
    proof (rule ccontr)
      assume "us \<noteq> []"
      then obtain x where x: "x \<in> set us" by fastforce
      then have "x \<in> set (?L hist)" "x \<in> set (r @ [p])" using u by (metis UnCI set_append)+
      then show False using all assms(5) by (metis filter_is_subset subsetD)
    qed
    then show ?thesis using u by simp
  qed simp
  then show ?thesis using h(3) pq by (auto intro!: bexI [of _ p])
qed

lemma is_frame_chunk:
  assumes fr: "is_frame b sq ns ps" and p: "p \<in> set ps"
  shows "hdr_seq (payload_header b p) = sq \<and> long_payload b p \<and> unat (hdr_count (payload_header b p)) = length ps"
proof -
  obtain i where i: "i < length ps" "ps ! i = p" using p by (auto simp: in_set_conv_nth)
  have "long_payload b (ps ! i) \<and> hdr_seq (payload_header b (ps ! i)) = sq"
    using fr i(1) by (simp add: is_frame_def chunk_run_def)
  moreover have "hdr_count (payload_header b p) = of_nat (length ps)" "length ps \<le> 65535"
    using fr p by (simp_all add: is_frame_def)
  ultimately show ?thesis using i(2) by (simp add: unat_of_nat_u16)
qed

lemma subseq_set: "subseq qs ps \<Longrightarrow> p \<in> set qs \<Longrightarrow> p \<in> set ps"
  by (induction qs ps rule: list_emb.induct) auto

lemma ingest_lossy_frame:
  assumes fr: "is_frame b sq ns ps" and sub: "subseq qs ps" and ne: "qs \<noteq> ps"
    and other: "\<forall>p\<in>set hist. hdr_seq (payload_header b p) \<noteq> sq"
    and inv: "tracker_inv b hist t" and i: "ingest_all b qs t = (outs, t')"
  shows "outs = replicate (length qs) None \<and> tracker_inv b (hist @ qs) t'"
proof -
  note all = ingest_all_inv [OF inv i]
  have lt: "length qs < length ps"
    using sub ne by (metis le_neq_implies_less list_emb_length subseq_same_length)
  note mem = subseq_set [OF sub] and props = is_frame_chunk [OF fr]
  have "out = None" if out: "out \<in> set outs" for out
  proof (rule ccontr)
    assume "out \<noteq> None"
    then obtain n f where n: "n < length qs" "outs ! n = Some f"
      using out all by (auto simp: in_set_conv_nth)
    then have c: "completed_by b (hist @ take (Suc n) qs) f" using all by blast
    have "\<exists>p\<in>set (take (Suc n) qs). unat (hdr_count (payload_header b p)) \<le> length (take (Suc n) qs)"
      by (rule completed_by_own_chunks [OF c, of sq])
        (use n(1) props mem other in \<open>auto dest!: in_set_takeD\<close>)
    then show False using props mem lt by (fastforce dest: in_set_takeD)
  qed
  then show ?thesis using all by (metis replicate_eqI)
qed

definition arrived :: "bytes list list \<Rightarrow> bytes list list \<Rightarrow> nat \<Rightarrow> nat list" where
  "arrived pss qss n = filter (\<lambda>k. qss ! k = pss ! k) [0..<n]"

definition arrived_frames :: "u64 list \<Rightarrow> u64 list list \<Rightarrow> nat list \<Rightarrow> (u64 \<times> CompletedFrame) list" where
  "arrived_frames nows rss ks =
     map (\<lambda>k. (last (rss ! k), \<lparr>frame_seq = of_nat k, frame_send_ns = nows ! k\<rparr>)) ks"

text \<open>Each frame \<open>pss ! k\<close> reaches the client as the subsequence \<open>qss ! k\<close>.\<close>

definition lossy :: "build \<Rightarrow> u64 list \<Rightarrow> u64 list list \<Rightarrow> bytes list list \<Rightarrow> bytes list list \<Rightarrow> bool" where
  "lossy b nows rss pss qss \<longleftrightarrow>
     length nows = length pss \<and> length qss = length pss \<and> map length rss = map length qss \<and>
     length pss \<le> 2 ^ 32 \<and>
     (\<forall>k<length pss. is_frame b (of_nat k) (nows ! k) (pss ! k) \<and> subseq (qss ! k) (pss ! k))"

lemma of_nat_u32_eq: "i < 2 ^ 32 \<Longrightarrow> j < 2 ^ 32 \<Longrightarrow> (of_nat i :: u32) = of_nat j \<longleftrightarrow> i = j"
proof
  assume l: "i < 2 ^ 32" "j < 2 ^ 32" and e: "(of_nat i :: u32) = of_nat j"
  from l have "unat (of_nat i :: u32) = i" "unat (of_nat j :: u32) = j" by (simp_all add: unat_of_nat)
  then show "i = j" using e by metis
qed simp

lemma lossy_lengths:
  assumes "lossy b nows rss pss qss"
  shows "length nows = length pss" "length qss = length pss" "length rss = length pss" "length pss \<le> 2 ^ 32"
    and "k < length pss \<Longrightarrow> length (rss ! k) = length (qss ! k)"
    and "k < length pss \<Longrightarrow> is_frame b (of_nat k) (nows ! k) (pss ! k)"
    and "k < length pss \<Longrightarrow> subseq (qss ! k) (pss ! k)"
proof -
  have m: "map length rss = map length qss" and lq: "length qss = length pss" using assms by (auto simp: lossy_def)
  from m have lr: "length rss = length qss" by (rule map_eq_imp_length_eq)
  show "length rss = length pss" using lr lq by simp
  show "length (rss ! k) = length (qss ! k)" if "k < length pss"
    using arg_cong [OF m, of "\<lambda>xs. xs ! k"] lr lq that by simp
qed (use assms in \<open>auto simp: lossy_def\<close>)

lemma record_frames_build [simp]: "cl_build (record_frames fs c) = cl_build c"
  by (induction fs c rule: record_frames.induct) auto

lemma in_concat_take:
  assumes "p \<in> set (concat (take n xs))" shows "\<exists>k<n. p \<in> set (xs ! k)"
proof -
  obtain x where "x \<in> set (take n xs)" "p \<in> set x" using assms by auto
  then show ?thesis by (auto simp: in_set_conv_nth [of x])
qed

lemma deliver_lossy_prefix:
  assumes l: "lossy b nows rss pss qss" and b: "cl_build c = b" and a: "\<not> trk_active (cl_tracker c)"
    and "n \<le> length pss"
  shows "\<exists>t. client_run c (deliver_all (take n rss) (take n qss)) =
      (record_frames (arrived_frames nows rss (arrived pss qss n)) c)\<lparr>cl_tracker := t\<rparr> \<and>
    tracker_inv b (concat (take n qss)) t"
  using assms(4)
proof (induction n)
  case 0
  then show ?case
    using a by (intro exI [of _ "cl_tracker c"])
      (simp add: deliver_all_def arrived_def arrived_frames_def tracker_inv_inactive)
next
  case (Suc n)
  then have n: "n < length pss" "n < length qss" "n < length rss" "length (rss ! n) = length (qss ! n)"
    using lossy_lengths [OF l] by auto
  obtain t where t: "client_run c (deliver_all (take n rss) (take n qss)) =
      (record_frames (arrived_frames nows rss (arrived pss qss n)) c)\<lparr>cl_tracker := t\<rparr>"
    "tracker_inv b (concat (take n qss)) t"
    using Suc by auto
  define c1 where "c1 = (record_frames (arrived_frames nows rss (arrived pss qss n)) c)\<lparr>cl_tracker := t\<rparr>"
  have b1: "cl_build c1 = b" "cl_tracker c1 = t" by (simp_all add: c1_def b)
  have run: "client_run c (deliver_all (take (Suc n) rss) (take (Suc n) qss)) = client_run c1 (deliver (rss ! n) (qss ! n))"
    using n t(1) lossy_lengths(2,3) [OF l]
    by (simp add: take_Suc_conv_app_nth deliver_all_def client_run_append c1_def)
  have fr: "is_frame b (of_nat n) (nows ! n) (pss ! n)" "subseq (qss ! n) (pss ! n)" using lossy_lengths [OF l] n by auto
  have ar: "arrived_frames nows rss (arrived pss qss (Suc n)) = arrived_frames nows rss (arrived pss qss n) @
      (if qss ! n = pss ! n then [(last (rss ! n), \<lparr>frame_seq = of_nat n, frame_send_ns = nows ! n\<rparr>)] else [])"
    by (simp add: arrived_frames_def arrived_def)
  have cc: "concat (take (Suc n) qss) = concat (take n qss) @ qss ! n"
    using n by (simp add: take_Suc_conv_app_nth)
  show ?case
  proof (cases "qss ! n = pss ! n")
    case True
    have "client_run c1 (deliver (rss ! n) (qss ! n)) =
        record_frame (last (rss ! n)) \<lparr>frame_seq = of_nat n, frame_send_ns = nows ! n\<rparr>
          (c1\<lparr>cl_tracker := tracker_at False (of_nat n) (length (pss ! n)) (nows ! n)\<rparr>)"
      using deliver_frame [of c1 "of_nat n" "nows ! n" "pss ! n" "rss ! n"] fr b1 n True by simp
    then show ?thesis
      unfolding run ar using True
      by (intro exI [of _ "tracker_at False (of_nat n) (length (pss ! n)) (nows ! n)"])
        (simp add: record_frames_snoc c1_def record_frame_tracker tracker_inv_inactive tracker_at_def)
  next
    case False
    obtain outs t' where i: "ingest_all b (qss ! n) t = (outs, t')" by fastforce
    have "hdr_seq (payload_header b p) \<noteq> of_nat n" if pm: "p \<in> set (concat (take n qss))" for p
    proof -
      obtain k where k: "k < n" "p \<in> set (qss ! k)"
        using in_concat_take [OF pm] by blast
      then have "subseq (qss ! k) (pss ! k)" "is_frame b (of_nat k) (nows ! k) (pss ! k)"
        using lossy_lengths [OF l] n by auto
      then have "hdr_seq (payload_header b p) = of_nat k"
        using k(2) is_frame_chunk subseq_set by metis
      then show ?thesis using k n lossy_lengths(4) [OF l] by (simp add: of_nat_u32_eq)
    qed
    then have "outs = replicate (length (qss ! n)) None" "tracker_inv b (concat (take n qss) @ qss ! n) t'"
      using ingest_lossy_frame [OF fr False _ t(2) i] by auto
    moreover from this have "client_run c1 (deliver (rss ! n) (qss ! n)) = c1\<lparr>cl_tracker := t'\<rparr>"
      using deliver_no_frame [of c1 "qss ! n" t' "rss ! n"] i b1 n by simp
    ultimately show ?thesis
      unfolding run ar cc using False by (intro exI [of _ t']) (simp add: c1_def)
  qed
qed

lemma deliver_lossy:
  assumes "lossy b nows rss pss qss" and "cl_build c = b" and "\<not> trk_active (cl_tracker c)"
  shows "\<exists>t. client_run c (deliver_all rss qss) =
      (record_frames (arrived_frames nows rss (arrived pss qss (length pss))) c)\<lparr>cl_tracker := t\<rparr>"
proof -
  have "take (length pss) rss = rss" "take (length pss) qss = qss"
    using lossy_lengths [OF assms(1)] by auto
  then show ?thesis using deliver_lossy_prefix [OF assms order_refl] by auto
qed

text \<open>What the client reports of a lossy run: the frames it times, and the gaps it counts.\<close>

lemma record_frame_latencies:
  "cl_latencies_us (record_frame r f c) = cl_latencies_us c @
     (if frame_seq f < word_of_int (opt_warmup (cl_opt c)) then [] else [elapsed_us (frame_send_ns f) r])"
  by (simp add: record_frame_def Let_def)

lemma record_frames_latencies:
  "cl_latencies_us (record_frames fs c) = cl_latencies_us c @
     map (\<lambda>(r, f). elapsed_us (frame_send_ns f) r)
       (filter (\<lambda>(r, f). \<not> frame_seq f < word_of_int (opt_warmup (cl_opt c))) fs)"
proof (induction fs arbitrary: c)
  case (Cons rf fs)
  obtain r f where "rf = (r, f)" by fastforce
  then show ?case using Cons [of "record_frame r f c"] by (simp add: record_frame_latencies)
qed simp

lemma record_frame_first:
  assumes "cl_last_seq c = 0"
  shows "cl_gap_count (record_frame r f c) = cl_gap_count c" "cl_last_seq (record_frame r f c) = frame_seq f"
  using assms by (simp_all add: record_frame_def Let_def)

lemma arrived_sorted: "sorted_wrt (<) (arrived pss qss n)"
  by (simp add: arrived_def sorted_wrt_filter)

lemma arrived_frames_seqs:
  "map (\<lambda>(r, f). frame_seq f) (arrived_frames nows rss ks) = map of_nat ks"
  by (simp add: arrived_frames_def)

lemma of_nat_u32_less: "i < 2 ^ 32 \<Longrightarrow> j < 2 ^ 32 \<Longrightarrow> (of_nat i :: u32) < of_nat j \<longleftrightarrow> i < j"
  by (simp add: word_less_nat_alt unat_of_nat)

text \<open>\<open>ks\<close>: the numbers of the frames that arrive, after those numbered 0.\<close>

lemma gap_from_first:
  assumes "cl_last_seq c = 0" and "ks \<noteq> []" and "sorted_wrt (<) ks" and "0 < hd ks" and "\<forall>k\<in>set ks. k < 2 ^ 32"
  shows "cl_gap_count (record_frames (arrived_frames nows rss ks) c) =
    cl_gap_count c + of_nat (last ks + 1 - hd ks - length ks)"
proof -
  obtain k ks' where ks: "ks = k # ks'" using assms(2) by (cases ks) auto
  define f where "f = (last (rss ! k), \<lparr>frame_seq = of_nat k :: u32, frame_send_ns = nows ! k\<rparr>)"
  define c1 where "c1 = record_frame (fst f) (snd f) c"
  have c1: "cl_gap_count c1 = cl_gap_count c" "cl_last_seq c1 = of_nat k"
    using record_frame_first [OF assms(1)] by (simp_all add: c1_def f_def)
  have k: "0 < k" "k < 2 ^ 32" using assms(4,5) ks by simp_all
  have uk: "unat (of_nat k :: u32) = k" using k by (simp add: unat_of_nat)
  have run: "record_frames (arrived_frames nows rss ks) c = record_frames (arrived_frames nows rss ks') c1"
    by (simp add: arrived_frames_def ks c1_def f_def)
  show ?thesis
  proof (cases "ks' = []")
    case True
    then show ?thesis using run c1 ks by (simp add: arrived_frames_def)
  next
    case False
    have nz: "cl_last_seq c1 \<noteq> 0" using uk k(1) c1(2) by (metis less_irrefl unat_0)
    have "sorted_wrt (<) (map of_nat ks :: u32 list)"
      unfolding sorted_wrt_map
      by (rule sorted_wrt_mono_rel [OF _ assms(3)]) (use assms(5) in \<open>simp add: of_nat_u32_less\<close>)
    then have "sorted_wrt (<) (cl_last_seq c1 # map (\<lambda>(r, f). frame_seq f) (arrived_frames nows rss ks'))"
      by (simp add: c1(2) ks arrived_frames_seqs del: sorted_wrt.simps)
    moreover have "arrived_frames nows rss ks' \<noteq> []" using False by (simp add: arrived_frames_def)
    moreover have "unat (frame_seq (snd (last (arrived_frames nows rss ks')))) = last ks'"
      using False assms(5) ks by (simp add: arrived_frames_def last_map unat_of_nat)
    ultimately have "cl_gap_count (record_frames (arrived_frames nows rss ks') c1) =
        cl_gap_count c + of_nat (last ks' - k - length ks')"
      using record_frames_gap [OF nz, of "arrived_frames nows rss ks'"] c1 uk by (simp add: arrived_frames_def)
    then show ?thesis using run ks False by simp
  qed
qed

lemma gap_from_zero:
  assumes "cl_last_seq c = 0" and "sorted_wrt (<) ks" and "\<forall>k\<in>set ks. k < 2 ^ 32"
    and "filter (\<lambda>k. 0 < k) ks \<noteq> []"
  defines "K \<equiv> filter (\<lambda>k. 0 < k) ks"
  shows "cl_gap_count (record_frames (arrived_frames nows rss ks) c) =
    cl_gap_count c + of_nat (last K + 1 - hd K - length K)"
proof (cases "hd ks = 0 \<and> ks \<noteq> []")
  case True
  then obtain ks' where ks: "ks = 0 # ks'" by (cases ks) auto
  have K: "K = ks'" using assms(2) ks unfolding K_def by (auto simp: filter_id_conv)
  define c1 where "c1 = record_frame (last (rss ! 0)) \<lparr>frame_seq = 0, frame_send_ns = nows ! 0\<rparr> c"
  have "cl_last_seq c1 = 0" "cl_gap_count c1 = cl_gap_count c"
    using record_frame_first [OF assms(1)] by (simp_all add: c1_def)
  moreover have "record_frames (arrived_frames nows rss ks) c = record_frames (arrived_frames nows rss ks') c1"
    by (simp add: arrived_frames_def ks c1_def)
  moreover have "ks' \<noteq> []" "0 < hd ks'" using assms(2,4) K ks by (auto simp: K_def intro: hd_in_set)
  ultimately show ?thesis using gap_from_first [of c1 ks'] assms(2,3) ks K by simp
next
  case False
  have "\<forall>k\<in>set ks. 0 < k"
  proof (cases ks)
    case (Cons k ks')
    then have "0 < k" using False by simp
    then show ?thesis using assms(2) Cons by fastforce
  qed simp
  then have K: "K = ks" by (simp add: K_def filter_id_conv)
  moreover have "ks \<noteq> []" using assms(4) by auto
  moreover from this have "0 < hd ks" using False by simp
  ultimately show ?thesis using gap_from_first [of c ks] assms(1-3) by simp
qed

section \<open>Plans that are sound\<close>

lemma tcp_plan_sound:
  assumes "16 \<le> unat n" and "unat n < 2 ^ 32"
  shows "plan_sound \<lparr>plan_count = 1, plan_len = n\<rparr> (unat n)"
  using assms by (simp add: plan_sound_def plan_tiles_def plan_roomy_def frag_consts Let_def)

section \<open>The order of the publisher's calls\<close>

definition started :: "worker \<Rightarrow> bool" where
  "started w \<longleftrightarrow> w \<noteq> Wait_registered \<and> w \<noteq> Wait_subscribed"

definition svc_inv :: "svc_event list \<Rightarrow> service \<Rightarrow> bool" where
  "svc_inv es s \<longleftrightarrow>
     (sv_registered s \<longrightarrow> State ST_REGISTERED \<in> set es \<and>
        Offer_service kServiceId kInstanceId \<in> set (takeWhile (\<lambda>c. notified [c] = []) (sv_calls s))) \<and>
     (sv_subscribed s \<longrightarrow> Subscription True \<in> set es) \<and>
     (sv_worker s \<noteq> Wait_registered \<longrightarrow> sv_registered s) \<and>
     (started (sv_worker s) \<longrightarrow> sv_subscribed s) \<and>
     (notified (sv_calls s) \<noteq> [] \<longrightarrow> started (sv_worker s))"

lemma takeWhile_append_set: "x \<in> set (takeWhile P xs) \<Longrightarrow> x \<in> set (takeWhile P (xs @ ys))"
  by (induction xs) auto

lemma takeWhile_notified_Nil: "notified cs = [] \<Longrightarrow> takeWhile (\<lambda>c. notified [c] = []) cs = cs"
proof (induction cs rule: notified.induct)
qed auto

lemma svc_inv_offer:
  assumes "svc_inv es s" shows "svc_inv (es @ [State st]) (OnState_service st s)"
  using assms takeWhile_notified_Nil [of "sv_calls s @ [Offer_service kServiceId kInstanceId, Touch_service_ready]"]
  by (auto simp: svc_inv_def OnState_service_def emit_def started_def intro: takeWhile_append_set)

lemma svc_inv_advance:
  assumes "svc_inv es s" and "sv_calls s' = sv_calls s @ cs"
    and "sv_registered s' = sv_registered s" and "sv_subscribed s' = sv_subscribed s"
    and "sv_worker s' \<noteq> Wait_registered \<longrightarrow> sv_registered s" and "started (sv_worker s') \<longrightarrow> sv_subscribed s"
    and "started (sv_worker s) \<or> notified cs \<noteq> [] \<longrightarrow> started (sv_worker s')"
  shows "svc_inv (es @ [e]) s'"
  using assms by (auto simp: svc_inv_def intro: takeWhile_append_set)

lemma started_start_publishing: "started (start_publishing s)"
  by (auto simp: started_def start_publishing_def Let_def split: sum.splits)

lemma svc_inv_worker:
  assumes i: "svc_inv es s"
  shows "svc_inv (es @ [e]) (worker_step r t0 now t1 (sv_worker s) s)"
proof -
  let ?s = "worker_step r t0 now t1 (sv_worker s) s"
  have "\<exists>cs. sv_calls ?s = sv_calls s @ cs \<and> sv_registered ?s = sv_registered s \<and> sv_subscribed ?s = sv_subscribed s \<and>
    (sv_worker ?s \<noteq> Wait_registered \<longrightarrow> sv_registered s) \<and> (started (sv_worker ?s) \<longrightarrow> sv_subscribed s) \<and>
    (started (sv_worker s) \<or> notified cs \<noteq> [] \<longrightarrow> started (sv_worker ?s))"
    using i started_start_publishing [of s]
    by (cases "sv_worker s")
      (auto simp: svc_inv_def started_def emit_def publish_step_def split: sum.splits)
  then show ?thesis using svc_inv_advance [OF i] by blast
qed

lemma svc_step_inv: "svc_inv es s \<Longrightarrow> svc_inv (es @ [e]) (svc_step s e)"
proof (cases e)
  case (State st)
  then show "svc_inv es s \<Longrightarrow> svc_inv (es @ [e]) (svc_step s e)" using svc_inv_offer by simp
next
  case (Worker_step r t0 now t1)
  then show "svc_inv es s \<Longrightarrow> svc_inv (es @ [e]) (svc_step s e)" using svc_inv_worker by simp
qed (auto simp: svc_inv_def OnSubscription_def OnEchoRequest_def emit_def intro: takeWhile_append_set)

lemma svc_run_inv: "svc_inv es s \<Longrightarrow> svc_inv (es @ fs) (svc_run s fs)"
proof (induction fs arbitrary: es s)
  case (Cons f fs)
  then show ?case using Cons.IH [of "es @ [f]" "svc_step s f"] svc_step_inv by simp
qed simp

section \<open>Properties\<close>

text \<open>
  C4. Publishing one frame with a sound plan succeeds, sends the whole block in order in the
  notifications, and the tracker of a subscriber, whatever it has seen before, reports exactly
  that frame, at the last notification.
\<close>

theorem publish_frame_received:
  assumes "plan_sound plan (length block)"
  shows "\<exists>ps block'. publish_frame b plan sq now block = Inr (ps, block') \<and> length block' = length block \<and>
    concat (map (drop (kE2eHoleBytes b)) ps) = block' \<and>
    ingest_all b ps t = (replicate (length ps - 1) None @ [Some \<lparr>frame_seq = sq, frame_send_ns = now\<rparr>],
      tracker_at False sq (length ps) now)"
proof -
  obtain ps block' where p: "publish_frame b plan sq now block = Inr (ps, block')" "length block' = length block"
    "is_frame b sq now ps" "ps = map (\<lambda>c. replicate (kE2eHoleBytes b) 0 @ chunk_slice plan block' c) [0..<unat (plan_count plan)]"
    using publish_frame_ok [OF assms] by blast
  have "map (drop (kE2eHoleBytes b)) ps = map (chunk_slice plan block') [0..<unat (plan_count plan)]"
    unfolding p(4) by simp
  moreover have "plan_tiles plan (length block')" using assms p(2) by (simp add: plan_sound_def)
  ultimately have "concat (map (drop (kE2eHoleBytes b)) ps) = block'" using slices_tile_block by simp
  then show ?thesis using p(1,2) ingest_frame [OF p(3)] by blast
qed

lemma publish_frame_received_witness:
  "\<exists>ps block'. publish_frame Covesa_Build \<lparr>plan_count = 1, plan_len = 16\<rparr> 3 9 (replicate 16 0) = Inr (ps, block') \<and>
    length block' = 16 \<and> concat (map (drop 12) ps) = block' \<and>
    ingest_all Covesa_Build ps (tracker_at True 2 1 8) =
      (replicate (length ps - 1) None @ [Some \<lparr>frame_seq = 3, frame_send_ns = 9\<rparr>], tracker_at False 3 (length ps) 9)"
  using publish_frame_received [of "\<lparr>plan_count = 1, plan_len = 16\<rparr>" "replicate 16 0" Covesa_Build 3 9 "tracker_at True 2 1 8"]
    tcp_plan_sound [of 16] by (simp add: frag_consts)

text \<open>
  With TCP the publisher sends every frame as one notification, and its plan is sound for
  every frame size that \<open>main\<close> accepts below 4 GiB.
\<close>

theorem tcp_plan_always_sound:
  assumes "event_service_main args = Inr opt" and "opt_transport opt = ''tcp''" and "unat (opt_size opt) < 2 ^ 32"
  shows "\<exists>plan. choose_plan opt = Inr plan \<and> plan_count plan = 1 \<and> plan_sound plan (unat (opt_size opt))"
proof -
  have "16 \<le> unat (opt_size opt)"
    using assms(1) by (auto simp: event_service_main_def frag_consts split: sum.splits if_splits)
  then show ?thesis using tcp_plan_sound [of "opt_size opt"] assms(2,3) by (simp add: choose_plan_def)
qed

lemma tcp_plan_always_sound_witness:
  "\<exists>opt plan. event_service_main [''--transport=tcp''] = Inr opt \<and> choose_plan opt = Inr plan \<and>
     plan_count plan = 1 \<and> plan_sound plan 4096"
proof -
  have "event_service_main [''--transport=tcp''] = Inr (default_options\<lparr>opt_transport := ''tcp'', opt_stack := ''vsomeip''\<rparr>)"
    by (simp add: event_service_main_def ParseOptions_def parse_arg_def take_value_def StartsWith_def
      default_options_def frag_consts)
  with tcp_plan_always_sound [OF this] show ?thesis by (auto simp: default_options_def)
qed

text \<open>
  With the default datagram limit of 1400 bytes the UDP plan is sound for every frame size
  of the benchmark's size ladder.
\<close>

theorem udp_plan_sound_on_ladder:
  assumes "opt_transport opt = ''udp''" and "opt_max_datagram opt = 1400"
    and "opt_size opt \<in> {64, 1024, 16384, 65536, 262144, 1048576, 4194304, 10485760}"
  shows "\<exists>plan. choose_plan opt = Inr plan \<and> plan_sound plan (unat (opt_size opt))"
  using assms
  by (auto simp: choose_plan_def PlanChunks_def plan_sound_def plan_tiles_def plan_roomy_def frag_consts Let_def)

lemma udp_plan_sound_on_ladder_witness:
  "\<exists>plan. choose_plan (default_options\<lparr>opt_size := 65536\<rparr>) = Inr plan \<and> plan_sound plan 65536"
  using udp_plan_sound_on_ladder [of "default_options\<lparr>opt_size := 65536\<rparr>"] by (simp add: default_options_def)

text \<open>
  C8. No notification is sent before the application is registered and a subscriber is there,
  and then only after the service has been offered, whatever the interleaving of the handlers
  with the worker.
\<close>

theorem notify_only_when_subscribed:
  assumes "notified (sv_calls (svc_run (Run_service b dir opt) es)) \<noteq> []"
  shows "State ST_REGISTERED \<in> set es \<and> Subscription True \<in> set es \<and>
    Offer_service kServiceId kInstanceId \<in> set (takeWhile (\<lambda>c. notified [c] = []) (sv_calls (svc_run (Run_service b dir opt) es)))"
proof -
  have "svc_inv [] (Run_service b dir opt)" by (simp add: svc_inv_def Run_service_def started_def)
  from svc_run_inv [OF this, of es] assms show ?thesis by (auto simp: svc_inv_def started_def)
qed

lemma notify_only_when_subscribed_witness:
  "Offer_service kServiceId kInstanceId \<in> set (takeWhile (\<lambda>c. notified [c] = [])
     (sv_calls (svc_run (Run_service Sgmenon_Build None (default_options\<lparr>opt_transport := ''tcp'', opt_size := 16\<rparr>))
       [Subscription True, State ST_REGISTERED, Worker_step True 0 0 0, Worker_step True 0 0 0, Worker_step True 0 5 0])))"
  (is "_ \<in> set (takeWhile _ (sv_calls (svc_run ?s ?es)))")
proof -
  have "notified (sv_calls (svc_run ?s ?es)) \<noteq> []"
  proof -
    have "choose_plan (sv_opt ?s) = Inr \<lparr>plan_count = 1, plan_len = 16\<rparr>"
      by (simp add: Run_service_def choose_plan_def default_options_def)
    moreover obtain ps b1 where "publish_frame Sgmenon_Build \<lparr>plan_count = 1, plan_len = 16\<rparr> 0 5 (init_block 16) = Inr (ps, b1)"
      "is_frame Sgmenon_Build 0 5 ps"
      using publish_frame_ok [of "\<lparr>plan_count = 1, plan_len = 16\<rparr>" "init_block 16" Sgmenon_Build 0 5] tcp_plan_sound [of 16]
      by (auto simp del: upt_Suc)
    ultimately show ?thesis
      by (simp add: Run_service_def default_options_def OnSubscription_def OnState_service_def emit_def
        start_publishing_def publish_step_def int_range_def is_frame_def)
  qed
  from notify_only_when_subscribed [OF this] show ?thesis by blast
qed

text \<open>
  C1. A complete run without loss: the publisher publishes all frames and stops; a subscriber
  that receives its notifications in order exits with 0 and prints a line with no gap and the
  latency of exactly the frames after the warm-up, each measured from its own send time to the
  arrival of its last chunk.
\<close>

theorem complete_run:
  assumes "choose_plan opt = Inr plan" and "plan_sound plan (unat (opt_size opt))"
    and "0 \<le> opt_warmup opt" and "0 < opt_count opt" and "opt_warmup opt + opt_count opt = int (length rs)"
    and "length rs < 2 ^ 31" and "opt_rpc_calls opt \<le> 0"
  shows "\<exists>pss. length pss = length rs \<and>
    sv_worker (svc_run (Run_service b None opt) (run_events rs)) = Finished \<and>
    notified (sv_calls (svc_run (Run_service b None opt) (run_events rs))) = concat pss \<and>
    (\<forall>rss. map length rss = map length pss \<longrightarrow>
      (\<exists>line c. WaitAndReport tracy None [Cl_state ST_REGISTERED, Cl_availability True] now inbox (deliver_all rss pss)
           (init_client b None (\<lambda>_. False) opt) = Inr (0, line, c) \<and>
         cl_gap_count c = 0 \<and> cl_latencies_us c = run_latencies (nat (opt_warmup opt)) (map (fst \<circ> snd) rs) rss \<and>
         PrintCsv opt (cl_latencies_us c) 0 = Inr line))"
proof -
  obtain pss where p: "length pss = length rs" "\<forall>k<length rs. is_frame b (of_nat k) (fst (snd (rs ! k))) (pss ! k)"
    "sv_worker (svc_run (Run_service b None opt) (run_events rs)) = Finished"
    "notified (sv_calls (svc_run (Run_service b None opt) (run_events rs))) = concat pss"
    using service_publishes [OF assms(1,2,5,6)] by blast
  have "\<exists>line c. WaitAndReport tracy None [Cl_state ST_REGISTERED, Cl_availability True] now inbox (deliver_all rss pss)
           (init_client b None (\<lambda>_. False) opt) = Inr (0, line, c) \<and>
         cl_gap_count c = 0 \<and> cl_latencies_us c = run_latencies (nat (opt_warmup opt)) (map (fst \<circ> snd) rs) rss \<and>
         PrintCsv opt (cl_latencies_us c) 0 = Inr line" if len: "map length rss = map length pss" for rss
  proof -
    let ?nows = "map (fst \<circ> snd) rs" and ?lat = "run_latencies (nat (opt_warmup opt)) (map (fst \<circ> snd) rs) rss"
    have lr: "length rss = length pss" using len by (metis length_map)
    obtain t where t: "client_run (subscribed_client b opt) (deliver_all rss pss) =
        (subscribed_client b opt)\<lparr>cl_last_seq := of_nat (length pss - 1), cl_latencies_us := ?lat, cl_done := True, cl_tracker := t\<rparr>"
      using client_receives [of ?nows pss rss b opt] len p assms by auto
    have "length ?lat \<le> 2 ^ 53" using lr p(1) assms(6) by (simp add: run_latencies_def)
    then obtain line where line: "PrintCsv opt ?lat 0 = Inr line" using PrintCsv_total by blast
    have opt0: "cl_registered (subscribed_client b opt)" "cl_available (subscribed_client b opt)" by simp_all
    show ?thesis
      unfolding WaitAndReport_def subscribed_client_def [symmetric]
      using assms(7) t line opt0 by (simp add: wait_seconds_def exit_code_def touch_done_def call_def Let_def)
  qed
  then show ?thesis using p(1,3,4) by blast
qed

lemma complete_run_witness:
  "\<exists>pss. length pss = 3 \<and>
    notified (sv_calls (svc_run (Run_service Covesa_Build None (default_options\<lparr>opt_count := 2, opt_warmup := 1\<rparr>))
      (run_events [(0, 10, 20), (30, 40, 50), (60, 70, 80)]))) = concat pss \<and>
    sv_worker (svc_run (Run_service Covesa_Build None (default_options\<lparr>opt_count := 2, opt_warmup := 1\<rparr>))
      (run_events [(0, 10, 20), (30, 40, 50), (60, 70, 80)])) = Finished"
proof -
  let ?o = "default_options\<lparr>opt_count := 2, opt_warmup := 1\<rparr>"
  have 1: "choose_plan ?o = Inr \<lparr>plan_count = 3, plan_len = 1366\<rparr>"
    by (simp add: choose_plan_def default_options_def PlanChunks_def frag_consts)
  have 2: "plan_sound \<lparr>plan_count = 3, plan_len = 1366\<rparr> (unat (opt_size ?o))"
    by (simp add: default_options_def plan_sound_def plan_tiles_def plan_roomy_def frag_consts)
  define rs :: "(u64 \<times> u64 \<times> u64) list" where "rs = [(0, 10, 20), (30, 40, 50), (60, 70, 80)]"
  have 3: "0 \<le> opt_warmup ?o" "0 < opt_count ?o" "opt_rpc_calls ?o \<le> 0" "opt_warmup ?o + opt_count ?o = int (length rs)"
    "length rs < 2 ^ 31"
    by (simp_all add: default_options_def rs_def)
  have "\<exists>pss. length pss = length rs \<and> notified (sv_calls (svc_run (Run_service Covesa_Build None ?o) (run_events rs))) = concat pss \<and>
    sv_worker (svc_run (Run_service Covesa_Build None ?o) (run_events rs)) = Finished"
    using complete_run [OF 1 2 3(1,2,4,5,3), of Covesa_Build False "\<lambda>_. 0" "\<lambda>_. []"] by blast
  then show ?thesis by (simp add: rs_def numeral_3_eq_3)
qed

text \<open>
  C2. A run with losses: of every frame any subsequence of its notifications arrives. The
  subscriber times exactly the frames that arrive complete and are not warm-up frames, and its
  gap counter is the number of frames missing between the first complete frame other than
  frame 0 and the last complete one.
\<close>

theorem lossy_run:
  assumes "lossy b nows rss pss qss" and "filter (\<lambda>k. 0 < k) (arrived pss qss (length pss)) \<noteq> []"
  shows "cl_latencies_us (client_run (subscribed_client b opt) (deliver_all rss qss)) =
      map (\<lambda>k. elapsed_us (nows ! k) (last (rss ! k)))
        (filter (\<lambda>k. \<not> (of_nat k :: u32) < word_of_int (opt_warmup opt)) (arrived pss qss (length pss))) \<and>
    (let K = filter (\<lambda>k. 0 < k) (arrived pss qss (length pss)) in
     cl_gap_count (client_run (subscribed_client b opt) (deliver_all rss qss)) = of_nat (last K + 1 - hd K - length K))"
proof -
  let ?c = "subscribed_client b opt" and ?ks = "arrived pss qss (length pss)"
  have "\<not> trk_active (cl_tracker ?c)"
    by (simp add: subscribed_client_def OnState_def OnAvailability_def init_client_def call_def touch_ready_def init_tracker_def)
  then obtain t where t: "client_run ?c (deliver_all rss qss) =
      (record_frames (arrived_frames nows rss ?ks) ?c)\<lparr>cl_tracker := t\<rparr>"
    using deliver_lossy [OF assms(1), of ?c] by auto
  have "length pss \<le> 2 ^ 32" by (rule lossy_lengths(4) [OF assms(1)])
  then have "\<forall>k\<in>set ?ks. k < 2 ^ 32" by (auto simp: arrived_def)
  then show ?thesis
    using t gap_from_zero [OF _ arrived_sorted _ assms(2), of ?c]
    by (simp add: record_frames_latencies arrived_frames_def filter_map o_def Let_def)
qed

lemma lossy_run_witness:
  "let ps = (\<lambda>k. [encode_header \<lparr>hdr_seq = k, hdr_index = 0, hdr_count = 1\<rparr> @ le_bytes (100 :: u64)]) in
   cl_gap_count (client_run (subscribed_client Sgmenon_Build default_options)
     (deliver_all [[200], [], [], [200]] [ps 0, [], [], ps 3])) = 0"
proof -
  define ps where "ps = (\<lambda>k :: u32. [encode_header \<lparr>hdr_seq = k, hdr_index = 0, hdr_count = 1\<rparr> @ le_bytes (100 :: u64)])"
  have fr: "is_frame Sgmenon_Build k 100 (ps k)" for k
    by (simp add: ps_def is_frame_def chunk_run_def long_payload_def payload_header_def payload_stamp_def frag_consts)
  have l: "lossy Sgmenon_Build [100, 100, 100, 100] [[200], [], [], [200]] [ps 0, ps 1, ps 2, ps 3] [ps 0, [], [], ps 3]"
  proof -
    have n: "length (ps k) = 1" for k by (simp add: ps_def)
    have "is_frame Sgmenon_Build (of_nat k) ([100, 100, 100, 100] ! k) ([ps 0, ps 1, ps 2, ps 3] ! k) \<and>
        subseq ([ps 0, [], [], ps 3] ! k) ([ps 0, ps 1, ps 2, ps 3] ! k)" if "k < 4" for k :: nat
    proof -
      have "k = 0 \<or> k = 1 \<or> k = 2 \<or> k = 3" using that by linarith
      then show ?thesis using fr [of 0] fr [of 1] fr [of 2] fr [of 3] by (elim disjE) simp_all
    qed
    then show ?thesis by (simp add: lossy_def n)
  qed
  have "ps k \<noteq> []" "[] \<noteq> ps k" for k by (simp_all add: ps_def)
  then have f: "filter (\<lambda>k. 0 < k) (arrived [ps 0, ps 1, ps 2, ps 3] [ps 0, [], [], ps 3] (length [ps 0, ps 1, ps 2, ps 3])) = [3]"
    by (simp add: arrived_def)
  have "cl_gap_count (client_run (subscribed_client Sgmenon_Build default_options)
     (deliver_all [[200], [], [], [200]] [ps 0, [], [], ps 3])) = 0"
    using lossy_run [OF l, of default_options] unfolding f Let_def by simp
  then show ?thesis unfolding ps_def Let_def .
qed

end
