(* ===== verification/Publisher_Run.thy ===== *)
theory Publisher_Run
  imports Vsomeip_Run
begin

text \<open>
  The publisher under every interleaving of its handlers with its worker: what it has sent at
  any point of a run, and that it neither faults nor ends before it has sent everything.
\<close>

section \<open>What has been sent so far\<close>

definition sent_frames :: "build \<Rightarrow> nat \<Rightarrow> app_call list \<Rightarrow> bool" where
  "sent_frames b n cs \<longleftrightarrow>
     (\<exists>pss. length pss = n \<and> notified cs = concat pss \<and> (\<forall>k<n. \<exists>now. is_frame b (of_nat k) now (pss ! k)))"

text \<open>The invariant of the worker for options whose plan is sound.\<close>

definition pub_inv :: "Options \<Rightarrow> ChunkPlan \<Rightarrow> service \<Rightarrow> bool" where
  "pub_inv opt plan s \<longleftrightarrow> sv_opt s = opt \<and>
     (case sv_worker s of
        Publishing i sq tot plan' block \<Rightarrow>
          plan' = plan \<and> length block = unat (opt_size opt) \<and> tot = opt_warmup opt + opt_count opt \<and>
          0 \<le> i \<and> i \<le> max 0 tot \<and> sq = of_nat (nat i) \<and> sent_frames (sv_build s) (nat i) (sv_calls s)
      | Finished \<Rightarrow> sent_frames (sv_build s) (nat (opt_warmup opt + opt_count opt)) (sv_calls s)
      | Failed e \<Rightarrow> False
      | _ \<Rightarrow> notified (sv_calls s) = [])"

lemma sent_frames_0: "sent_frames b 0 cs \<longleftrightarrow> notified cs = []"
  by (auto simp: sent_frames_def)

lemma sent_frames_other: "notified ds = [] \<Longrightarrow> sent_frames b n (cs @ ds) \<longleftrightarrow> sent_frames b n cs"
  by (simp add: sent_frames_def)

lemma sent_frames_next:
  assumes "sent_frames b n cs" and "is_frame b (of_nat n) now ps"
  shows "sent_frames b (Suc n) (cs @ map (Notify i j e) ps @ pace p d)"
proof -
  obtain pss where p: "length pss = n" "notified cs = concat pss" "\<forall>k<n. \<exists>now. is_frame b (of_nat k) now (pss ! k)"
    using assms(1) by (auto simp: sent_frames_def)
  have "\<exists>now. is_frame b (of_nat k) now ((pss @ [ps]) ! k)" if "k < Suc n" for k
    using that p assms(2) by (cases "k < n") (auto simp: nth_append less_Suc_eq)
  then show ?thesis
    using p(1,2) unfolding sent_frames_def by (intro exI [of _ "pss @ [ps]"]) simp
qed

lemma publish_step_inv:
  assumes i: "pub_inv opt plan s" and w: "sv_worker s = Publishing k sq tot plan block"
    and s: "plan_sound plan (unat (opt_size opt))"
  shows "pub_inv opt plan (publish_step t0 now t1 k sq tot plan block s)"
proof (cases "k < tot")
  case True
  have inv: "sv_opt s = opt" "length block = unat (opt_size opt)" "tot = opt_warmup opt + opt_count opt" "0 \<le> k"
      "sq = of_nat (nat k)" "sent_frames (sv_build s) (nat k) (sv_calls s)"
    using i w by (simp_all add: pub_inv_def)
  obtain ps block' where p: "publish_frame (sv_build s) plan sq now block = Inr (ps, block')"
    "length block' = length block" "is_frame (sv_build s) sq now ps"
    using publish_frame_ok [of plan block "sv_build s" sq now] s inv(2) by auto
  have "nat (k + 1) = Suc (nat k)" using inv(4) by simp
  moreover have "of_nat (Suc (nat k)) = sq + 1" by (simp add: inv(5) add.commute)
  ultimately show ?thesis
    using True p inv sent_frames_next [OF inv(6), of now ps kServiceId kInstanceId kEventId "period_ns opt" "t1 - t0"]
    by (simp add: pub_inv_def publish_step_def emit_def)
next
  case False
  have "nat k = nat (opt_warmup opt + opt_count opt)" "sent_frames (sv_build s) (nat k) (sv_calls s)" "sv_opt s = opt"
    using i w False by (auto simp: pub_inv_def max_def split: if_splits)
  then show ?thesis using False by (simp add: pub_inv_def publish_step_def emit_def sent_frames_other)
qed

lemma start_publishing_inv:
  assumes "choose_plan opt = Inr plan" and "int_range (opt_warmup opt + opt_count opt)"
    and "sv_opt s = opt" and "notified (sv_calls s) = []"
  shows "pub_inv opt plan (s\<lparr>sv_worker := start_publishing s\<rparr>)"
  using assms by (simp add: pub_inv_def start_publishing_def sent_frames_0 Let_def)

lemma svc_step_pub_inv:
  assumes i: "pub_inv opt plan s" and p: "choose_plan opt = Inr plan" "plan_sound plan (unat (opt_size opt))"
    and r: "int_range (opt_warmup opt + opt_count opt)"
  shows "pub_inv opt plan (svc_step s e)"
proof (cases e)
  case (Worker_step ready t0 now t1)
  note start = start_publishing_inv [OF p(1) r]
  have o': "sv_opt s = opt" using i by (simp add: pub_inv_def)
  show ?thesis
  proof (cases "sv_worker s")
    case (Publishing k sq tot plan' block)
    then have "plan' = plan" using i by (simp add: pub_inv_def)
    then show ?thesis using publish_step_inv [OF i _ p(2)] Publishing Worker_step by simp
  next
    case Wait_subscribed
    then show ?thesis using i start [of s] Worker_step o' by (auto simp: pub_inv_def)
  next
    case (Poll_ready n)
    then show ?thesis using i start [of s] Worker_step o' by (auto simp: pub_inv_def emit_def)
  qed (use i Worker_step in \<open>auto simp: pub_inv_def\<close>)
qed (use i in \<open>auto simp: pub_inv_def OnState_service_def OnSubscription_def OnEchoRequest_def emit_def sent_frames_other
  split: worker.splits\<close>)

lemma svc_run_pub_inv:
  assumes "pub_inv opt plan s" and "choose_plan opt = Inr plan" and "plan_sound plan (unat (opt_size opt))"
    and "int_range (opt_warmup opt + opt_count opt)"
  shows "pub_inv opt plan (svc_run s es)"
  using assms(1) by (induction es arbitrary: s) (simp_all add: svc_step_pub_inv assms(2-4))

lemma Run_service_pub_inv: "pub_inv opt plan (Run_service b dir opt)"
  by (simp add: pub_inv_def Run_service_def)

lemma sent_frames_length:
  assumes "\<forall>k<n. \<exists>now. is_frame b (of_nat k) now (pss ! k)" and "length pss = n" shows "\<forall>ps\<in>set pss. ps \<noteq> []"
  using assms by (auto simp: in_set_conv_nth is_frame_def)

section \<open>UDP plans\<close>

text \<open>
  With the default limit of 1400 bytes there are 1388 bytes per chunk. Up to 1380 chunks the
  even split cannot starve the last chunk.
\<close>

lemma last_chunk_room:
  fixes c l n :: nat
  assumes "2 \<le> c" and "c \<le> 1380" and "(c - 1) * 1388 < n" and "n \<le> c * l" and "c * l \<le> n + c - 1"
  shows "c + 7 \<le> l"
proof (rule ccontr)
  assume "\<not> c + 7 \<le> l"
  then have "c * l \<le> c * (c + 6)" by (intro mult_le_mono) auto
  then have "(c - 1) * 1388 < c * (c + 6)" using assms(3,4) by linarith
  then have "int ((c - 1) * 1388) < int (c * (c + 6))" by (simp only: of_nat_less_iff)
  then have "(int c - 1) * 1388 < int c * int c + 6 * int c" using assms(1) by (simp add: of_nat_diff algebra_simps)
  moreover have "0 \<le> (int c - 2) * (1380 - int c)" using assms(1,2) by simp
  then have "int c * int c \<le> 1382 * int c - 2760" by (simp add: algebra_simps)
  ultimately show False by (simp add: algebra_simps)
qed

lemma udp_plan_small:
  assumes "unat md = 1400" and "16 \<le> unat sz" and "unat sz \<le> 1380 * 1388"
  shows "\<exists>plan. PlanChunks sz md = Inr plan \<and> plan_sound plan (unat sz)"
proof -
  define n where "n = unat sz"
  define c where "c = (n + 1388 - 1) div 1388"
  obtain plan where p: "PlanChunks sz md = Inr plan" "unat (plan_count plan) = c" "unat (plan_len plan) = (n + c - 1) div c"
    using PlanChunks_exact [of md sz] assms by (auto simp: n_def c_def)
  obtain plan' where "PlanChunks sz md = Inr plan'" "plan_tiles plan' n" "unat (plan_len plan') \<le> 1388"
    using PlanChunks_tiles [of md sz] assms by (auto simp: n_def)
  then have t: "plan_tiles plan n" "unat (plan_len plan) \<le> 1388" using p(1) by auto
  have n: "16 \<le> n" "n \<le> 1380 * 1388" using assms by (simp_all add: n_def)
  have c: "0 < c" "(c - 1) * 1388 < n" "n \<le> c * 1388" using ceil_div_bounds [of n 1388] n(1) by (simp_all add: c_def)
  then have "c \<le> 1380"
  proof -
    have "(c - 1) * 1388 < 1380 * 1388" using c(2) n(2) by (rule less_le_trans)
    then show ?thesis by simp
  qed
  define l where "l = (n + c - 1) div c"
  have l: "0 < l" "(l - 1) * c < n" "n \<le> l * c" using ceil_div_bounds [of n c] n(1) c(1) by (simp_all add: l_def)
  have cl: "n \<le> c * l" "c * l \<le> n + c - 1"
  proof -
    show "n \<le> c * l" using l(3) by (simp add: mult.commute)
    have "l * c = (l - 1) * c + c" using l(1) by (cases l) simp_all
    then show "c * l \<le> n + c - 1" using l(2) by (simp add: mult.commute)
  qed
  have last: "8 \<le> n - (c - 1) * l" and len: "16 \<le> l"
  proof -
    show "8 \<le> n - (c - 1) * l"
    proof (cases "2 \<le> c")
      case True
      have "c + 7 \<le> l" by (rule last_chunk_room [OF True \<open>c \<le> 1380\<close> c(2) cl])
      moreover have "c * l = (c - 1) * l + l" using c(1) by (cases c) simp_all
      ultimately show ?thesis using cl by linarith
    next
      case False
      then have "c = 1" using c(1) by simp
      then show ?thesis using n(1) by simp
    qed
    show "16 \<le> l"
    proof (cases "2 \<le> c")
      case True
      have "c * 16 \<le> (c - 1) * 1388" using True by (cases c) simp_all
      then have "c * 16 < c * l" using c(2) cl(1) by linarith
      then show ?thesis by simp
    next
      case False
      then have "c = 1" using c(1) by simp
      then show ?thesis using n(1) by (simp add: l_def)
    qed
  qed
  have "unat (plan_len plan) = l" using p(3) by (simp only: l_def)
  moreover have "l \<le> 1388" using t(2) calculation by simp
  ultimately have "plan_sound plan n"
    using t(1) p(2) last len n \<open>c \<le> 1380\<close> by (simp add: plan_sound_def plan_roomy_def frag_consts)
  then show ?thesis using p(1) by (auto simp: n_def)
qed

definition demo_pub :: Options where
  "demo_pub = default_options\<lparr>opt_transport := ''tcp'', opt_count := 1, opt_warmup := 0, opt_size := 16, opt_stack := ''vsomeip''\<rparr>"

lemma demo_pub_main: "event_service_main (render_args demo_pub) = Inr demo_pub"
proof -
  have "options_ok demo_pub" "options_in_range demo_pub" "opt_rate_hz demo_pub = Fin 1000"
    by (simp_all add: options_ok_def options_in_range_def demo_pub_def default_options_def int_range_def frag_consts)
  from ParseOptions_render [OF this] show ?thesis
    by (simp add: event_service_main_def) (simp add: demo_pub_def default_options_def frag_consts)
qed

lemma demo_pub_plan: "choose_plan demo_pub = Inr \<lparr>plan_count = 1, plan_len = 16\<rparr>"
    "plan_sound \<lparr>plan_count = 1, plan_len = 16\<rparr> (unat (opt_size demo_pub))"
    "int_range (opt_warmup demo_pub + opt_count demo_pub)"
  using tcp_plan_sound [of 16] by (simp_all add: demo_pub_def default_options_def choose_plan_def int_range_def)

lemma demo_pub_run:
  "\<exists>cs. event_service_program (render_args demo_pub) True Sgmenon_Build None (run_events [(0, 5, 0)]) = (Some 0, cs)"
proof -
  have "opt_warmup demo_pub + opt_count demo_pub = int (length [(0, 5, 0) :: u64 \<times> u64 \<times> u64])"
    by (simp add: demo_pub_def default_options_def)
  from service_publishes [OF demo_pub_plan(1,2) this, of Sgmenon_Build] show ?thesis
    by (auto simp: event_service_program_def demo_pub_main Let_def)
qed

section \<open>Properties\<close>





text \<open>
  If \<open>warmup + count\<close> exceeds the range of \<open>int\<close>, which the command line does not exclude,
  the worker's sum overflows as soon as it starts publishing.
\<close>

theorem publisher_total_overflows:
  assumes "\<not> int_range (opt_warmup opt + opt_count opt)"
  shows "sv_worker (svc_run (Run_service b None opt)
    [State ST_REGISTERED, Subscription True, Worker_step r t0 now t1, Worker_step r t0 now t1]) = Failed Int_overflow"
  using assms by (simp add: Run_service_def OnState_service_def OnSubscription_def emit_def start_publishing_def Let_def)

lemma publisher_total_overflows_witness:
  "ParseOptions (render_args (demo_pub\<lparr>opt_count := 2147483647, opt_warmup := 1\<rparr>)) default_options =
      Inr (demo_pub\<lparr>opt_count := 2147483647, opt_warmup := 1\<rparr>) \<and>
   sv_worker (svc_run (Run_service Covesa_Build None (demo_pub\<lparr>opt_count := 2147483647, opt_warmup := 1\<rparr>))
    [State ST_REGISTERED, Subscription True, Worker_step True 0 0 0, Worker_step True 0 0 0]) = Failed Int_overflow"
  using publisher_total_overflows [of "demo_pub\<lparr>opt_count := 2147483647, opt_warmup := 1\<rparr>"]
    ParseOptions_render [of "demo_pub\<lparr>opt_count := 2147483647, opt_warmup := 1\<rparr>"]
  by (simp add: options_ok_def options_in_range_def demo_pub_def default_options_def int_range_def frag_consts)

text \<open>
  C26. With the default datagram limit the UDP plan is sound for every frame size from 16 bytes
  to 1915440 bytes (1380 chunks).
\<close>

theorem udp_plan_sound_up_to_1380_chunks:
  assumes "opt_transport opt = ''udp''" and "opt_max_datagram opt = 1400"
    and "16 \<le> unat (opt_size opt)" and "unat (opt_size opt) \<le> 1915440"
  shows "\<exists>plan. choose_plan opt = Inr plan \<and> plan_sound plan (unat (opt_size opt))"
  using udp_plan_small [of "opt_max_datagram opt" "opt_size opt"] assms by (simp add: choose_plan_def)

lemma udp_plan_sound_up_to_1380_chunks_witness:
  "\<exists>plan. choose_plan (default_options\<lparr>opt_size := 1000001\<rparr>) = Inr plan \<and> plan_sound plan 1000001"
  using udp_plan_sound_up_to_1380_chunks [of "default_options\<lparr>opt_size := 1000001\<rparr>"] by (simp add: default_options_def)

end
