(* ===== verification/Tracker_Spec.thy ===== *)
theory Tracker_Spec
  imports Fragment
begin

text \<open>
  The frame tracker against a reference that keeps no state: after every payload, look back at
  the payloads received and decide whether the last of them complete a frame.
\<close>

section \<open>The reference\<close>

text \<open>
  The last payload says with its index how many payloads (long enough for a header) the frame
  would have; they must be chunks 0, 1, ... of one number, all but the last announcing more.
\<close>

definition reference_frame :: "build \<Rightarrow> bytes list \<Rightarrow> CompletedFrame option" where
  "reference_frame b hist =
     (if hist = [] \<or> \<not> long_payload b (last hist) then None
      else let ls = filter (long_payload b) hist; k = unat (hdr_index (payload_header b (last hist))) in
        if length ls \<le> k then None
        else let run = drop (length ls - Suc k) ls; sq = hdr_seq (payload_header b (hd run)); ns = payload_stamp b (hd run) in
          if chunk_run b sq ns run \<and> pending_run b (butlast run) \<and>
             unat (hdr_count (payload_header b (last hist))) \<le> length run
          then Some \<lparr>frame_seq = sq, frame_send_ns = ns\<rparr> else None)"

lemma reference_frame_iff:
  assumes "hist \<noteq> []" and long: "long_payload b (last hist)"
  shows "reference_frame b hist = Some f \<longleftrightarrow> completed_by b hist f"
proof -
  define ls where "ls = filter (long_payload b) hist"
  define k where "k = unat (hdr_index (payload_header b (last hist)))"
  have ls: "ls \<noteq> []" "last ls = last hist"
    using assms by (cases hist rule: rev_cases; simp add: ls_def)+
  show ?thesis
  proof
    assume ref: "reference_frame b hist = Some f"
    define run where "run = drop (length ls - Suc k) ls"
    have r: "\<not> length ls \<le> k" "chunk_run b (frame_seq f) (frame_send_ns f) run" "pending_run b (butlast run)"
      "unat (hdr_count (payload_header b (last hist))) \<le> length run"
      using ref assms by (auto simp: reference_frame_def Let_def run_def ls_def [symmetric] k_def [symmetric] split: if_splits)
    then have ne: "run \<noteq> []" by (simp add: run_def)
    then have "last run = last hist" using ls by (simp add: run_def last_drop)
    then have "run = butlast run @ [last hist]" using ne append_butlast_last_id by metis
    moreover from this have "length run = Suc (length (butlast run))" by (metis length_append_singleton)
    moreover have "ls = take (length ls - Suc k) ls @ run" by (simp add: run_def)
    ultimately show "completed_by b hist f" using r unfolding completed_by_def ls_def [symmetric] by metis
  next
    assume "completed_by b hist f"
    then obtain pre r p where c: "ls = pre @ r @ [p]" "chunk_run b (frame_seq f) (frame_send_ns f) (r @ [p])"
      "pending_run b r" "unat (hdr_count (payload_header b p)) \<le> Suc (length r)"
      unfolding completed_by_def ls_def [symmetric] by blast
    then have p: "p = last hist" using ls(2) by simp
    have at: "hdr_seq (payload_header b ((r @ [p]) ! i)) = frame_seq f \<and> unat (hdr_index (payload_header b ((r @ [p]) ! i))) = i"
      if "i \<le> length r" for i
      using c(2) that by (simp add: chunk_run_def)
    have k: "k = length r" using at [of "length r"] p by (simp add: k_def)
    then have run: "drop (length ls - Suc k) ls = r @ [p]" by (simp add: c(1))
    have "hdr_seq (payload_header b (hd (r @ [p]))) = frame_seq f" using at [of 0] by (simp add: hd_conv_nth)
    moreover have "payload_stamp b (hd (r @ [p])) = frame_send_ns f" using c(2) by (simp add: chunk_run_def)
    ultimately show "reference_frame b hist = Some f"
      using assms c p k by (simp add: reference_frame_def Let_def ls_def [symmetric] k_def [symmetric] run)
  qed
qed

section \<open>The tracker recognises every run\<close>

lemma ingest_short: "\<not> long_payload b p \<Longrightarrow> ingest b p t = (None, t)"
  by (simp add: ingest_def long_payload_def)

lemma ingest_run_step:
  assumes run: "chunk_run b sq ns (r @ [p])" and pend: "pending_run b r" and t: "r = [] \<or> t = tracker_at True sq (length r) ns"
  shows "ingest b p t =
    (if Suc (length r) < unat (hdr_count (payload_header b p)) then (None, tracker_at True sq (Suc (length r)) ns)
     else (Some \<lparr>frame_seq = sq, frame_send_ns = ns\<rparr>, tracker_at False sq (Suc (length r)) ns))"
proof -
  let ?h = "payload_header b p"
  have p: "long_payload b p" "hdr_seq ?h = sq" "unat (hdr_index ?h) = length r"
    using run by (auto simp: chunk_run_def dest: spec [of _ "length r"])
  have idx: "hdr_index ?h = of_nat (length r)" using arg_cong [OF p(3), of "of_nat :: nat \<Rightarrow> u16"] by simp
  have "length r < 65535" using pending_run_short [OF pend] by auto
  then have lt: "(of_nat (length r) + 1 :: u16) < hdr_count ?h \<longleftrightarrow> Suc (length r) < unat (hdr_count ?h)"
    using unat_of_nat_u16 [of "Suc (length r)"] by (simp add: word_less_nat_alt add.commute)
  have follow: "follow_chunk ?h (tracker_at True sq (length r) ns) =
      (if Suc (length r) < unat (hdr_count ?h) then (None, tracker_at True sq (Suc (length r)) ns)
       else (Some \<lparr>frame_seq = sq, frame_send_ns = ns\<rparr>, tracker_at False sq (Suc (length r)) ns))"
    using lt by (simp add: follow_chunk_def tracker_at_def p(2) idx Let_def add.commute)
  show ?thesis
  proof (cases "r = []")
    case True
    then have "payload_stamp b p = ns" "kE2eHoleBytes b + kMinFrameBytes \<le> length p"
      using run by (auto simp: chunk_run_def)
    then have "ingest b p t = follow_chunk ?h (tracker_at True sq (length r) ns)"
      unfolding ingest_long [OF p(1)] using idx True p(2) by (simp add: tracker_at_def)
    then show ?thesis using follow by simp
  next
    case False
    then have "hdr_index ?h \<noteq> 0" using p(3) by auto
    then have "ingest b p t = follow_chunk ?h (tracker_at True sq (length r) ns)"
      using t False by (simp add: ingest_long [OF p(1)])
    then show ?thesis using follow by simp
  qed
qed

lemma run_state:
  assumes "filter (long_payload b) hist = pre @ r" and "chunk_run b sq ns r" and "pending_run b r" and "r \<noteq> []"
  shows "snd (ingest_all b hist t) = tracker_at True sq (length r) ns"
  using assms
proof (induction hist arbitrary: r rule: rev_induct)
  case (snoc q hist)
  obtain outs u where u: "ingest_all b hist t = (outs, u)" by fastforce
  then have step: "snd (ingest_all b (hist @ [q]) t) = snd (ingest b q u)"
    by (simp add: ingest_all_append Let_def split: prod.splits)
  show ?case
  proof (cases "long_payload b q")
    case False
    then show ?thesis using snoc u step by (simp add: ingest_short)
  next
    case True
    then obtain r' where r: "r = r' @ [q]" "filter (long_payload b) hist = pre @ r'"
      using snoc.prems(1,4) by (cases r rule: rev_cases) auto
    have parts: "chunk_run b sq ns r'" "pending_run b r'" "Suc (length r') < unat (hdr_count (payload_header b q))"
      using snoc.prems(2,3) unfolding r(1)
      by (auto simp: chunk_run_def pending_run_def nth_append hd_append split: if_splits)
    have "r' = [] \<or> u = tracker_at True sq (length r') ns"
      using snoc.IH [OF r(2) parts(1,2)] u by auto
    then show ?thesis
      using ingest_run_step [OF snoc.prems(2) [unfolded r(1)] parts(2)] parts(3) step r(1) by simp
  qed
qed simp

lemma ingest_is_reference:
  assumes u: "ingest_all b hist init_tracker = (outs, u)"
  shows "fst (ingest b q u) = reference_frame b (hist @ [q])"
proof (cases "long_payload b q")
  case False
  then show ?thesis by (simp add: ingest_short reference_frame_def)
next
  case True
  have "fst (ingest b q u) = Some f \<longleftrightarrow> completed_by b (hist @ [q]) f" for f
  proof
    have "tracker_inv b hist u"
      using ingest_all_inv [of b "[]" init_tracker hist outs u] u by (simp add: tracker_inv_inactive init_tracker_def)
    then show "completed_by b (hist @ [q]) f" if "fst (ingest b q u) = Some f"
      using ingest_inv [of b hist u q] that by (cases "ingest b q u") simp
  next
    assume "completed_by b (hist @ [q]) f"
    then obtain pre r where c: "filter (long_payload b) hist = pre @ r" "chunk_run b (frame_seq f) (frame_send_ns f) (r @ [q])"
      "pending_run b r" "unat (hdr_count (payload_header b q)) \<le> Suc (length r)"
      using True unfolding completed_by_def by auto
    have "chunk_run b (frame_seq f) (frame_send_ns f) r"
      using c(2) by (auto simp: chunk_run_def nth_append hd_append split: if_splits)
    then have "r = [] \<or> u = tracker_at True (frame_seq f) (length r) (frame_send_ns f)"
      using run_state [OF c(1) _ c(3), of "frame_seq f" "frame_send_ns f" init_tracker] u by auto
    then show "fst (ingest b q u) = Some f"
      using ingest_run_step [OF c(2,3), of u] c(4) by simp
  qed
  moreover have "reference_frame b (hist @ [q]) = Some f \<longleftrightarrow> completed_by b (hist @ [q]) f" for f
    using reference_frame_iff [of "hist @ [q]" b f] True by simp
  ultimately show ?thesis by (metis not_Some_eq)
qed

section \<open>Properties\<close>

text \<open>
  C10. Fed any payloads in any order, the tracker reports after every payload exactly what the
  reference reads off the payloads received so far.
\<close>

theorem tracker_equals_reference:
  shows "fst (ingest_all b ps init_tracker) = map (\<lambda>n. reference_frame b (take (Suc n) ps)) [0..<length ps]"
proof (induction ps rule: rev_induct)
  case (snoc q ps)
  obtain outs u where u: "ingest_all b ps init_tracker = (outs, u)" by fastforce
  obtain out u' where q: "ingest b q u = (out, u')" by fastforce
  have "fst (ingest_all b (ps @ [q]) init_tracker) = outs @ [out]"
    using u q by (simp add: ingest_all_append)
  moreover have "outs = map (\<lambda>n. reference_frame b (take (Suc n) (ps @ [q]))) [0..<length ps]"
    using snoc u by simp
  moreover have "out = reference_frame b (ps @ [q])" using ingest_is_reference [OF u, of q] q by simp
  ultimately show ?case by simp
qed simp

end
