(* ===== verification/Network_Safety.thy ===== *)
theory Network_Safety
  imports Publisher_Run Tracker_Spec
begin

text \<open>
  The subscriber behind an arbitrary network: notifications may be lost, duplicated, delayed and
  reordered, and mixed with any other callback. All that is assumed is that no notification of the
  event arrives that the publisher has not sent.
\<close>

section \<open>What the publisher has sent\<close>

definition published :: "build \<Rightarrow> bytes list list \<Rightarrow> app_call list \<Rightarrow> bool" where
  "published b pss cs \<longleftrightarrow>
     notified cs = concat pss \<and> length pss < 2 ^ 31 \<and> (\<forall>k<length pss. \<exists>now. is_frame b (of_nat k) now (pss ! k))"

lemma svc_run_build [simp]: "sv_build (svc_run s es) = sv_build s"
proof (induction es arbitrary: s)
  case (Cons e es)
  have "sv_build (svc_step s e) = sv_build s"
    by (cases e; cases "sv_worker s")
      (auto simp: OnState_service_def OnSubscription_def OnEchoRequest_def emit_def publish_step_def split: sum.splits)
  then show ?case using Cons by simp
qed simp

lemma sent_frames_published: "sent_frames b n cs \<Longrightarrow> n < 2 ^ 31 \<Longrightarrow> \<exists>pss. published b pss cs"
  by (auto simp: sent_frames_def published_def)

lemma svc_run_published:
  assumes "choose_plan opt = Inr plan" and "plan_sound plan (unat (opt_size opt))"
    and r: "int_range (opt_warmup opt + opt_count opt)"
  shows "\<exists>pss. published b pss (sv_calls (svc_run (Run_service b dir opt) es))"
proof -
  let ?s = "svc_run (Run_service b dir opt) es"
  have inv: "pub_inv opt plan ?s" by (rule svc_run_pub_inv [OF Run_service_pub_inv assms])
  have b: "sv_build ?s = b" by (simp add: Run_service_def)
  have none: "published b [] cs \<longleftrightarrow> notified cs = []" for cs by (auto simp: published_def)
  have "nat (opt_warmup opt + opt_count opt) < 2 ^ 31" using r zless_nat_conj [of "opt_warmup opt + opt_count opt" 2147483648] by (simp add: int_range_def)
  then show ?thesis
    using inv none b sent_frames_published [of b _ "sv_calls ?s"]
    by (cases "sv_worker ?s") (auto simp: pub_inv_def max_def split: if_splits)
qed

section \<open>Runs of received chunks\<close>

text \<open>A payload tells the frame and the chunk it is.\<close>

lemma published_chunk:
  assumes "published b pss cs" and "p \<in> set (notified cs)"
  obtains k i where "k < length pss" "i < length (pss ! k)" "p = pss ! k ! i" "long_payload b p"
    "hdr_seq (payload_header b p) = of_nat k" "unat (hdr_index (payload_header b p)) = i"
    "unat (hdr_count (payload_header b p)) = length (pss ! k)"
proof -
  obtain k i where k: "k < length pss" "i < length (pss ! k)" "p = pss ! k ! i"
    using assms by (auto simp: published_def in_set_conv_nth)
  moreover obtain now where "is_frame b (of_nat k) now (pss ! k)" using assms(1) k(1) by (auto simp: published_def)
  ultimately show ?thesis using that [of k i] by (auto simp: is_frame_def chunk_run_def unat_of_nat_u16)
qed

lemma published_run_is_frame:
  assumes pub: "published b pss cs" and r: "set (r @ [p]) \<subseteq> set (notified cs)"
    and run: "chunk_run b sq ns (r @ [p])" and full: "unat (hdr_count (payload_header b p)) \<le> Suc (length r)"
  shows "\<exists>k<length pss. r @ [p] = pss ! k \<and> sq = of_nat k \<and> is_frame b sq ns (pss ! k)"
proof -
  let ?r = "r @ [p]"
  have at: "hdr_seq (payload_header b (?r ! i)) = sq" "unat (hdr_index (payload_header b (?r ! i))) = i"
    if "i < length ?r" for i
    using run that unfolding chunk_run_def by blast+
  have mem: "?r ! i \<in> set (notified cs)" if "i < length ?r" for i
    using r nth_mem [OF that] by blast
  have lp: "length r < length ?r" "?r ! length r = p" by simp_all
  from mem [OF lp(1)] have "p \<in> set (notified cs)" by simp
  from published_chunk [OF pub this] obtain k where
    k: "k < length pss" "length r < length (pss ! k)" "hdr_seq (payload_header b p) = of_nat k"
      "unat (hdr_count (payload_header b p)) = length (pss ! k)"
    using at(2) [OF lp(1)] lp(2) by metis
  have sq: "sq = of_nat k" using at(1) [OF lp(1)] lp(2) k(3) by simp
  have bound: "length pss < 2 ^ 32" using pub by (simp add: published_def)
  have len: "length (pss ! k) = length ?r" using k(2,4) full by simp
  have "?r ! i = pss ! k ! i" if i: "i < length ?r" for i
  proof -
    from published_chunk [OF pub mem [OF i]] obtain k' where k': "k' < length pss" "?r ! i = pss ! k' ! i"
        "hdr_seq (payload_header b (?r ! i)) = of_nat k'"
      using at(2) [OF i] by metis
    then have "(of_nat k' :: u32) = of_nat k" using at(1) [OF i] sq by simp
    then have "k' = k" using of_nat_u32_eq [of k' k] k'(1) k(1) bound by simp
    then show ?thesis using k'(2) by simp
  qed
  then have eq: "?r = pss ! k" using len by (intro nth_equalityI) simp_all
  obtain now where fr: "is_frame b (of_nat k) now (pss ! k)" using pub k(1) by (auto simp: published_def)
  then have "ns = now" using run eq by (auto simp: is_frame_def chunk_run_def)
  then show ?thesis using k(1) eq sq fr by blast
qed

lemma received_frame_iff:
  assumes pub: "published b pss cs" and r: "set ps \<subseteq> set (notified cs)"
  shows "completed_by b ps f \<longleftrightarrow>
    (\<exists>k<length pss. suffix (pss ! k) ps \<and> frame_seq f = of_nat k \<and> is_frame b (of_nat k) (frame_send_ns f) (pss ! k))"
proof -
  have "long_payload b p" if "p \<in> set ps" for p
    using published_chunk [OF pub, of p] r that by blast
  then have long: "filter (long_payload b) ps = ps" by simp
  show ?thesis
  proof
    assume "completed_by b ps f"
    then obtain pre q p where c: "ps = pre @ q @ [p]" "chunk_run b (frame_seq f) (frame_send_ns f) (q @ [p])"
      "unat (hdr_count (payload_header b p)) \<le> Suc (length q)"
      unfolding completed_by_def long by blast
    have "set (q @ [p]) \<subseteq> set (notified cs)" using r c(1) by auto
    from published_run_is_frame [OF pub this c(2,3)]
    obtain k where k: "k < length pss" "q @ [p] = pss ! k" "frame_seq f = of_nat k"
      "is_frame b (frame_seq f) (frame_send_ns f) (pss ! k)"
      by auto
    have "suffix (pss ! k) ps" using c(1) k(2) by (metis suffixI)
    with k(1,3,4) show "\<exists>k<length pss. suffix (pss ! k) ps \<and> frame_seq f = of_nat k \<and>
        is_frame b (of_nat k) (frame_send_ns f) (pss ! k)"
      by (intro exI [of _ k]) simp
  next
    assume "\<exists>k<length pss. suffix (pss ! k) ps \<and> frame_seq f = of_nat k \<and>
        is_frame b (of_nat k) (frame_send_ns f) (pss ! k)"
    then obtain k pre where k: "ps = pre @ pss ! k" "frame_seq f = of_nat k" "is_frame b (of_nat k) (frame_send_ns f) (pss ! k)"
      by (auto simp: suffix_def)
    then obtain q p where q: "pss ! k = q @ [p]" by (cases "pss ! k" rule: rev_cases) (auto simp: is_frame_def)
    have n: "length (pss ! k) \<le> 65535" and run: "chunk_run b (frame_seq f) (frame_send_ns f) (q @ [p])"
      and cnt: "\<And>x. x \<in> set (pss ! k) \<Longrightarrow> unat (hdr_count (payload_header b x)) = Suc (length q)"
      using k(2,3) q unat_of_nat_u16 [of "Suc (length q)"] by (auto simp: is_frame_def)
    have "q ! i \<in> set (pss ! k)" if "i < length q" for i using that by (simp add: q)
    then have "pending_run b q" unfolding pending_run_def by (auto simp: cnt)
    moreover have "unat (hdr_count (payload_header b p)) \<le> Suc (length q)" using cnt [of p] by (simp add: q)
    ultimately show "completed_by b ps f"
      unfolding completed_by_def long using k(1) q run by blast
  qed
qed

section \<open>The subscriber among other callbacks\<close>

definition is_event :: "message \<Rightarrow> bool" where
  "is_event m \<longleftrightarrow> msg_type m = MT_NOTIFICATION \<and> msg_service m = kServiceId \<and> msg_instance m = kInstanceId \<and> msg_method m = kEventId"

fun heard :: "cl_event list \<Rightarrow> (u64 \<times> bytes) list" where
  "heard [] = []"
| "heard (Cl_message r m # es) = (if is_event m then [(r, msg_payload m)] else []) @ heard es"
| "heard (_ # es) = heard es"

text \<open>The frames the tracker reports, with the time of the notification that completed them.\<close>

fun reported :: "build \<Rightarrow> FrameTracker \<Rightarrow> (u64 \<times> bytes) list \<Rightarrow> (u64 \<times> CompletedFrame) list" where
  "reported b t [] = []"
| "reported b t ((r, p) # rps) =
     (case ingest b p t of (None, t') \<Rightarrow> reported b t' rps | (Some f, t') \<Rightarrow> (r, f) # reported b t' rps)"

definition times :: "Options \<Rightarrow> (u64 \<times> CompletedFrame) list \<Rightarrow> rat list" where
  "times opt fs = map (\<lambda>(r, f). elapsed_us (frame_send_ns f) r)
     (filter (\<lambda>(r, f). \<not> frame_seq f < word_of_int (opt_warmup opt)) fs)"

lemma OnMessage_no_event:
  assumes "\<not> is_event m"
  shows "cl_latencies_us (OnMessage r m c) = cl_latencies_us c" "cl_tracker (OnMessage r m c) = cl_tracker c"
    "cl_opt (OnMessage r m c) = cl_opt c" "cl_build (OnMessage r m c) = cl_build c"
  using assms by (auto simp: OnMessage_def is_event_def OnEchoResponse_def split: option.splits prod.splits)

lemma OnMessage_event:
  assumes "is_event m"
  shows "OnMessage r m c =
    (case ingest (cl_build c) (msg_payload m) (cl_tracker c) of
       (None, t) \<Rightarrow> c\<lparr>cl_tracker := t\<rparr> | (Some f, t) \<Rightarrow> record_frame r f (c\<lparr>cl_tracker := t\<rparr>))"
  using assms by (simp add: OnMessage_def is_event_def)

lemma handler_fields [simp]:
  "cl_latencies_us (OnState st c) = cl_latencies_us c" "cl_tracker (OnState st c) = cl_tracker c"
  "cl_opt (OnState st c) = cl_opt c" "cl_build (OnState st c) = cl_build c"
  "cl_latencies_us (OnAvailability a c) = cl_latencies_us c" "cl_tracker (OnAvailability a c) = cl_tracker c"
  "cl_opt (OnAvailability a c) = cl_opt c" "cl_build (OnAvailability a c) = cl_build c"
  by (simp_all add: OnState_def OnAvailability_def touch_ready_def call_def Let_def split: option.splits)

lemma client_latencies:
  "cl_latencies_us (client_run c es) =
     cl_latencies_us c @ times (cl_opt c) (reported (cl_build c) (cl_tracker c) (heard es))"
proof (induction es arbitrary: c)
  case Nil
  then show ?case by (simp add: times_def)
next
  case (Cons e es)
  show ?case
  proof (cases e)
    case (Cl_message r m)
    show ?thesis
    proof (cases "is_event m")
      case True
      then show ?thesis
        by (auto simp: Cl_message Cons OnMessage_event record_frame_latencies times_def split: prod.splits option.splits)
    next
      case False
      then show ?thesis by (simp add: Cl_message Cons OnMessage_no_event)
    qed
  qed (simp_all add: Cons)
qed

definition report_at :: "u64 \<Rightarrow> CompletedFrame option \<Rightarrow> (u64 \<times> CompletedFrame) list" where
  "report_at r out = (case out of None \<Rightarrow> [] | Some f \<Rightarrow> [(r, f)])"

lemma report_at_simps [simp]: "report_at r None = []" "report_at r (Some f) = [(r, f)]"
  by (simp_all add: report_at_def)

lemma client_done_measured:
  "(cl_done c \<longrightarrow> cl_latencies_us c \<noteq> []) \<Longrightarrow>
   cl_done (client_run c es) \<longrightarrow> cl_latencies_us (client_run c es) \<noteq> []"
proof (induction es arbitrary: c)
  case (Cons e es)
  have "cl_done (client_step c e) \<longrightarrow> cl_latencies_us (client_step c e) \<noteq> []"
    using Cons.prems
    by (cases e) (auto simp: OnState_def OnAvailability_def touch_ready_def call_def OnMessage_def OnEchoResponse_def
      record_frame_def Let_def split: option.splits prod.splits)
  then show ?case using Cons.IH [of "client_step c e"] by simp
qed simp

lemma reported_reference:
  assumes "ingest_all b hist init_tracker = (outs, u)"
  shows "reported b u rps =
    concat (map (\<lambda>n. report_at (fst (rps ! n)) (reference_frame b (hist @ take (Suc n) (map snd rps)))) [0..<length rps])"
  using assms
proof (induction rps arbitrary: hist outs u)
  case Nil
  then show ?case by simp
next
  case (Cons rp rps)
  obtain r p where rp: "rp = (r, p)" by fastforce
  obtain out u' where i: "ingest b p u = (out, u')" by fastforce
  have u': "ingest_all b (hist @ [p]) init_tracker = (outs @ [out], u')"
    using Cons.prems i by (simp add: ingest_all_append)
  have out: "reference_frame b (hist @ [p]) = out" using ingest_is_reference [OF Cons.prems, of p] i by simp
  have "reported b u (rp # rps) = report_at r (reference_frame b (hist @ [p])) @ reported b u' rps"
    unfolding out using i by (cases out) (simp_all add: rp)
  then show ?case
    unfolding Cons.IH [OF u'] by (simp add: rp upt_conv_Cons map_Suc_upt [symmetric] o_def del: upt_Suc)
qed

text \<open>
  The specification: one latency for every arrival at which the last payloads are exactly the
  payloads of a published frame, from the frame's send time to the arrival.
\<close>

definition whole_frame_latencies :: "build \<Rightarrow> u32 \<Rightarrow> bytes list list \<Rightarrow> (u64 \<times> bytes) list \<Rightarrow> rat list" where
  "whole_frame_latencies b w pss rps =
     concat (map (\<lambda>n. map (\<lambda>k. elapsed_us (payload_stamp b (hd (pss ! k))) (fst (rps ! n)))
       (filter (\<lambda>k. suffix (pss ! k) (take (Suc n) (map snd rps)) \<and> \<not> of_nat k < w) [0..<length pss])) [0..<length rps])"

lemma filter_upt_single:
  assumes "\<And>j. j < m \<Longrightarrow> P j \<longleftrightarrow> j = k" shows "filter P [0..<m] = (if k < m then [k] else [])"
proof -
  have "filter (\<lambda>j. j = k) [0..<m] = (if k < m then [k] else [])" by (induction m) auto
  moreover have "filter P [0..<m] = filter (\<lambda>j. j = k) [0..<m]" by (rule filter_cong) (auto simp: assms)
  ultimately show ?thesis by simp
qed

lemma published_frame_stamp:
  assumes "published b pss cs" and "k < length pss" and "is_frame b (of_nat k) now (pss ! k)"
  shows "payload_stamp b (hd (pss ! k)) = now"
  using assms(3) by (auto simp: is_frame_def chunk_run_def)

lemma reference_published:
  assumes pub: "published b pss cs" and sub: "set h \<subseteq> set (notified cs)" and ne: "h \<noteq> []"
  shows "reference_frame b h = Some f \<longleftrightarrow>
    (\<exists>k<length pss. suffix (pss ! k) h \<and> frame_seq f = of_nat k \<and> frame_send_ns f = payload_stamp b (hd (pss ! k)))"
proof -
  have "last h \<in> set (notified cs)" using sub ne last_in_set by blast
  from published_chunk [OF pub this] have "long_payload b (last h)" by metis
  moreover have "is_frame b (of_nat k) now (pss ! k) \<longleftrightarrow> now = payload_stamp b (hd (pss ! k))" if "k < length pss" for k now
  proof -
    obtain now' where fr: "is_frame b (of_nat k) now' (pss ! k)" using pub \<open>k < length pss\<close> by (auto simp: published_def)
    then show ?thesis using published_frame_stamp [OF pub \<open>k < length pss\<close>] by blast
  qed
  ultimately show ?thesis using reference_frame_iff [OF ne] received_frame_iff [OF pub sub] by blast
qed

lemma published_suffix_unique:
  assumes pub: "published b pss cs" and "suffix (pss ! k) h" and "suffix (pss ! j) h" and kj: "k < length pss" "j < length pss"
  shows "j = k"
proof -
  have last: "hdr_seq (payload_header b (last h)) = of_nat i" if i: "i < length pss" "suffix (pss ! i) h" for i
  proof -
    obtain now where fr: "is_frame b (of_nat i) now (pss ! i)" using pub i(1) by (auto simp: published_def)
    then have ne: "pss ! i \<noteq> []" by (simp add: is_frame_def)
    then have "last h = last (pss ! i)" using i(2) by (auto simp: suffix_def)
    then show ?thesis using fr ne by (auto simp: is_frame_def chunk_run_def last_conv_nth)
  qed
  have "(of_nat j :: u32) = of_nat k" using last assms by metis
  then show ?thesis using of_nat_u32_eq [of j k] kj pub by (simp add: published_def)
qed

lemma times_whole_frames:
  assumes pub: "published b pss cs" and sub: "set (map snd rps) \<subseteq> set (notified cs)"
  shows "times opt (reported b init_tracker rps) = whole_frame_latencies b (word_of_int (opt_warmup opt)) pss rps"
proof -
  let ?h = "\<lambda>n. take (Suc n) (map snd rps)" and ?w = "word_of_int (opt_warmup opt) :: u32"
  have one: "times opt (report_at (fst (rps ! n)) (reference_frame b (?h n))) =
      map (\<lambda>k. elapsed_us (payload_stamp b (hd (pss ! k))) (fst (rps ! n)))
        (filter (\<lambda>k. suffix (pss ! k) (?h n) \<and> \<not> of_nat k < ?w) [0..<length pss])" if n: "n < length rps" for n
  proof -
    have "set (?h n) \<subseteq> set (map snd rps)" by (rule set_take_subset)
    then have h: "set (?h n) \<subseteq> set (notified cs)" using sub by (rule order_trans)
    have ne: "?h n \<noteq> []" using n by (cases rps) simp_all
    note ref = reference_published [OF pub h ne]
    show ?thesis
    proof (cases "\<exists>k<length pss. suffix (pss ! k) (?h n)")
      case True
      then obtain k where k: "k < length pss" "suffix (pss ! k) (?h n)" by blast
      then have "reference_frame b (?h n) = Some \<lparr>frame_seq = of_nat k, frame_send_ns = payload_stamp b (hd (pss ! k))\<rparr>"
        unfolding ref by auto
      moreover have "filter (\<lambda>k. suffix (pss ! k) (?h n) \<and> \<not> of_nat k < ?w) [0..<length pss] =
          (if of_nat k < ?w then [] else [k])"
      proof -
        have "suffix (pss ! j) (?h n) \<longleftrightarrow> j = k" if "j < length pss" for j
          using published_suffix_unique [OF pub k(2) _ k(1) that] k(2) by blast
        then have "filter (\<lambda>j. suffix (pss ! j) (?h n)) [0..<length pss] = [k]"
          using filter_upt_single [of "length pss" "\<lambda>j. suffix (pss ! j) (?h n)" k] k(1) by simp
        from arg_cong [OF this, of "filter (\<lambda>k. \<not> of_nat k < ?w)"] show ?thesis by (simp add: conj_commute)
      qed
      ultimately show ?thesis by (simp add: times_def)
    next
      case False
      then have "reference_frame b (?h n) = None" using ref by (metis not_Some_eq)
      moreover have "filter (\<lambda>k. suffix (pss ! k) (?h n) \<and> \<not> of_nat k < ?w) [0..<length pss] = []"
        using False by (auto simp: filter_empty_conv)
      ultimately show ?thesis by (simp add: times_def)
    qed
  qed
  have "times opt (concat xss) = concat (map (times opt) xss)" for xss
    by (induction xss) (simp_all add: times_def)
  then have "times opt (reported b init_tracker rps) = concat (map (\<lambda>n. times opt
      (report_at (fst (rps ! n)) (reference_frame b (?h n)))) [0..<length rps])"
    using reported_reference [of b "[]" "[]" init_tracker rps] by (simp add: o_def)
  also have "\<dots> = whole_frame_latencies b ?w pss rps"
    unfolding whole_frame_latencies_def by (intro arg_cong [of _ _ concat] map_cong) (use one in auto)
  finally show ?thesis .
qed

section \<open>Properties\<close>


definition demo_payload :: bytes where
  "demo_payload = encode_header \<lparr>hdr_seq = 0, hdr_index = 0, hdr_count = 1\<rparr> @ le_bytes (5 :: u64)"

lemma demo_payload_facts:
  "length demo_payload = 16" "long_payload Sgmenon_Build demo_payload" "payload_stamp Sgmenon_Build demo_payload = 5"
  by (simp_all add: demo_payload_def long_payload_def payload_stamp_def frag_consts)

lemma demo_frame_published: "publish_frame Sgmenon_Build \<lparr>plan_count = 1, plan_len = 16\<rparr> 0 5 (init_block 16) =
    Inr ([demo_payload], demo_payload)"
proof -
  have "publish_frame Sgmenon_Build \<lparr>plan_count = 1, plan_len = 16\<rparr> 0 5 blk = Inr ([demo_payload], demo_payload)"
    if "length blk = 16" for blk
    using that by (simp add: publish_frame_def WriteChunkHeaders_def StampSendNs_def notify_payload_def chunk_header_def
      write_at_def read_at_def demo_payload_def frag_consts Let_def)
  then show ?thesis by simp
qed

lemma demo_pub_sends:
  "notified (sv_calls (svc_run (Run_service Sgmenon_Build None demo_pub) (run_events [(0, 5, 0)]))) = [demo_payload]"
proof -
  have o: "sv_worker (svc_run (Run_service Sgmenon_Build None demo_pub)
      [State ST_REGISTERED, Subscription True, Worker_step True 0 0 0, Worker_step True 0 0 0]) =
    Publishing 0 0 1 \<lparr>plan_count = 1, plan_len = 16\<rparr> (init_block 16)"
    using demo_pub_plan(1) by (simp add: Run_service_def OnState_service_def OnSubscription_def emit_def start_publishing_def
      demo_pub_def default_options_def int_range_def)
  show ?thesis
    using o demo_frame_published
    by (simp add: run_events_def frame_steps_def Run_service_def OnState_service_def OnSubscription_def emit_def publish_step_def)
qed


text \<open>
  C17. A subscriber started with a negative \<open>--warmup\<close>, which the command line accepts, records
  nothing and is never done, whatever arrives of whatever run of the publisher.
\<close>

theorem negative_warmup_measures_nothing:
  assumes "choose_plan opt = Inr plan" and "plan_sound plan (unat (opt_size opt))"
    and "int_range (opt_warmup opt + opt_count opt)"
    and "set (map snd (heard es')) \<subseteq> set (notified (sv_calls (svc_run (Run_service b dir opt) es)))"
    and "opt_warmup opt' < 0" and "int_range (opt_warmup opt')"
  shows "cl_latencies_us (client_run (init_client b sub_dir can_open opt') es') = [] \<and>
    \<not> cl_done (client_run (init_client b sub_dir can_open opt') es')"
proof -
  let ?c = "init_client b sub_dir can_open opt'"
  obtain pss where p: "published b pss (sv_calls (svc_run (Run_service b dir opt) es))"
    using svc_run_published [OF assms(1-3), of b dir es] by blast
  have "of_nat k < (word_of_int (opt_warmup opt') :: u32)" if "k < length pss" for k
  proof -
    have "k < 2 ^ 31" using that p by (simp add: published_def)
    moreover have "(opt_warmup opt' + 2 ^ 32) mod 2 ^ 32 = opt_warmup opt' + 2 ^ 32"
      using assms(5,6) by (intro mod_pos_pos_trivial) (auto simp: int_range_def)
    then have "uint (word_of_int (opt_warmup opt') :: u32) = opt_warmup opt' + 2 ^ 32"
      by (simp add: uint_word_of_int)
    moreover have "uint (of_nat k :: u32) = int k"
      using calculation(1) by (simp add: unsigned_of_nat take_bit_nat_eq_self)
    ultimately show ?thesis using assms(6) unfolding word_less_def by (simp add: int_range_def)
  qed
  then have "whole_frame_latencies b (word_of_int (opt_warmup opt')) pss (heard es') = []"
    by (auto simp: whole_frame_latencies_def filter_empty_conv)
  then have "cl_latencies_us (client_run ?c es') = []"
    using client_latencies [of ?c es'] times_whole_frames [OF p assms(4)] by (simp add: init_client_def)
  moreover have "cl_done (client_run ?c es') \<longrightarrow> cl_latencies_us (client_run ?c es') \<noteq> []"
    by (rule client_done_measured) (simp add: init_client_def)
  ultimately show ?thesis by simp
qed

lemma negative_warmup_measures_nothing_witness:
  "ParseOptions (render_args (default_options\<lparr>opt_warmup := -1\<rparr>)) default_options = Inr (default_options\<lparr>opt_warmup := -1\<rparr>) \<and>
   \<not> cl_done (client_run (init_client Sgmenon_Build None (\<lambda>_. False) (default_options\<lparr>opt_warmup := -1\<rparr>))
      [Cl_message 8 (notification demo_payload)])"
proof -
  have "set (map snd (heard [Cl_message 8 (notification demo_payload)])) \<subseteq>
      set (notified (sv_calls (svc_run (Run_service Sgmenon_Build None demo_pub) (run_events [(0, 5, 0)]))))"
    by (simp add: demo_pub_sends notification_def is_event_def)
  note neg = negative_warmup_measures_nothing [OF demo_pub_plan this, of "default_options\<lparr>opt_warmup := -1\<rparr>" None "\<lambda>_. False"]
  have "ParseOptions (render_args (default_options\<lparr>opt_warmup := -1\<rparr>)) default_options =
      Inr (default_options\<lparr>opt_warmup := -1\<rparr>)"
    by (rule ParseOptions_render)
      (simp_all add: options_ok_def options_in_range_def default_options_def int_range_def frag_consts)
  then show ?thesis using neg by (simp add: int_range_def)
qed

end
