(* ===== verification/Plan_Limits.thy ===== *)
theory Plan_Limits
  imports Network_Safety
begin

text \<open>
  Plans outside \<open>plan_sound\<close> that the command line accepts: datagram limits that leave a chunk no
  room for its header and the send time, and frames of more than 65535 chunks.
\<close>

section \<open>Datagrams too small for header and send time\<close>

text \<open>
  No payload is longer than a chunk of the plan and the hole, whatever the plan is; chunks
  without room for the send time are never taken for the first of a frame.
\<close>

definition short_calls :: "build \<Rightarrow> ChunkPlan \<Rightarrow> app_call list \<Rightarrow> bool" where
  "short_calls b plan cs \<longleftrightarrow> (\<forall>p\<in>set (notified cs). length p \<le> kE2eHoleBytes b + unat (plan_len plan))"

lemma notify_payload_length:
  assumes "notify_payload b block plan c = Inr p"
  shows "length p \<le> kE2eHoleBytes b + unat (plan_len plan)"
proof -
  define n where "n = min (plan_len plan) (of_nat (length block) - (of_nat c * plan_len plan :: u64))"
  have "n \<le> plan_len plan" by (simp add: n_def)
  then have n: "unat n \<le> unat (plan_len plan)" by (simp add: word_le_nat_alt)
  moreover have "unat (ucast n :: u32) \<le> unat n" by (simp add: unsigned_ucast_eq take_bit_nat_less_eq_self)
  ultimately show ?thesis
    using assms unfolding notify_payload_def Let_def n_def [symmetric]
    by (cases b) (auto simp: read_at_def split: if_splits)
qed

lemma mapE_mem: "mapE f xs = Inr ys \<Longrightarrow> y \<in> set ys \<Longrightarrow> \<exists>x\<in>set xs. f x = Inr y"
  by (induction xs arbitrary: ys) (auto simp: res_simps)

lemma publish_frame_short:
  assumes "publish_frame b plan sq now block = Inr (ps, block')" and "p \<in> set ps"
  shows "length p \<le> kE2eHoleBytes b + unat (plan_len plan)"
  using assms by (auto simp: publish_frame_def res_simps dest!: mapE_mem notify_payload_length)

definition short_inv :: "ChunkPlan \<Rightarrow> Options \<Rightarrow> service \<Rightarrow> bool" where
  "short_inv plan opt s \<longleftrightarrow> sv_opt s = opt \<and> short_calls (sv_build s) plan (sv_calls s) \<and>
     (\<forall>i sq tot plan' block. sv_worker s = Publishing i sq tot plan' block \<longrightarrow> plan' = plan)"

lemma svc_step_short:
  assumes "short_inv plan opt s" and "choose_plan opt = Inr plan"
  shows "short_inv plan opt (svc_step s e)"
  using assms
  by (cases e; cases "sv_worker s")
    (auto simp: short_inv_def short_calls_def OnState_service_def OnSubscription_def OnEchoRequest_def emit_def
      publish_step_def start_publishing_def Let_def dest: publish_frame_short split: sum.splits)

lemma svc_run_short:
  assumes "choose_plan opt = Inr plan"
  shows "short_calls b plan (sv_calls (svc_run (Run_service b dir opt) es))"
proof -
  have "short_inv plan opt (svc_run s es)" if "short_inv plan opt s" for s
    using that by (induction es arbitrary: s) (simp_all add: svc_step_short assms)
  from this [of "Run_service b dir opt"] show ?thesis
    by (simp add: short_inv_def short_calls_def Run_service_def)
qed

lemma reported_short:
  assumes "\<forall>(r, p)\<in>set rps. length p < kE2eHoleBytes b + kMinFrameBytes" and "\<not> trk_active t"
  shows "reported b t rps = []"
  using assms
proof (induction rps arbitrary: t)
  case (Cons rp rps)
  obtain r p where rp: "rp = (r, p)" by fastforce
  have "length p < kE2eHoleBytes b + kMinFrameBytes" using Cons.prems(1) rp by simp
  then have "fst (ingest b p t) = None \<and> \<not> trk_active (snd (ingest b p t))"
    using Cons.prems(2) by (cases "long_payload b p") (simp_all add: ingest_short ingest_long follow_chunk_def)
  then obtain t' where "ingest b p t = (None, t')" "\<not> trk_active t'" by (cases "ingest b p t") auto
  then show ?case using Cons by (simp add: rp)
qed simp

section \<open>More chunks than the header counts\<close>

text \<open>
  The chunks of one frame, cut at the indices that are 0 modulo \<open>2 ^ 16\<close>: each piece of
  \<open>count mod 2 ^ 16\<close> chunks looks like a frame of its own.
\<close>

definition piece_length :: "ChunkPlan \<Rightarrow> nat" where
  "piece_length plan = max 1 (unat (plan_count plan) mod 65536)"

lemma unat_hdr_count: "unat (hdr_count (chunk_header sq plan i)) = unat (plan_count plan) mod 65536"
  by (simp add: chunk_header_def unsigned_ucast_eq take_bit_nat_def)

lemma unat_hdr_index: "unat (hdr_index (chunk_header sq plan i)) = i mod 65536"
  by (simp add: chunk_header_def unat_of_nat)

lemma piece_run:
  assumes h: "\<forall>i<unat (plan_count plan). long_payload b (ps ! i) \<and> payload_header b (ps ! i) = chunk_header sq plan i"
    and len: "length ps = unat (plan_count plan)" and j: "j * 65536 + piece_length plan \<le> length ps"
    and full: "kE2eHoleBytes b + kMinFrameBytes \<le> length (ps ! (j * 65536))"
  shows "chunk_run b sq (payload_stamp b (ps ! (j * 65536))) (take (piece_length plan) (drop (j * 65536) ps))"
proof -
  let ?r = "take (piece_length plan) (drop (j * 65536) ps)"
  have m: "0 < piece_length plan" "piece_length plan \<le> 65536"
    using mod_less_divisor [of 65536 "unat (plan_count plan)"] by (simp_all add: piece_length_def)
  then have rl: "length ?r = piece_length plan" using j by simp
  have nth: "?r ! i = ps ! (j * 65536 + i)" if "i < piece_length plan" for i using that j by simp
  have hd: "hd ?r = ps ! (j * 65536)" using m(1) j by (simp add: hd_conv_nth hd_drop_conv_nth)
  show ?thesis
    unfolding chunk_run_def rl
  proof (intro conjI allI impI)
    fix i assume i: "i < piece_length plan"
    then have "j * 65536 + i < unat (plan_count plan)" using j len by simp
    then have e: "long_payload b (?r ! i)" "payload_header b (?r ! i) = chunk_header sq plan (j * 65536 + i)"
      using h nth [OF i] by simp_all
    show "long_payload b (?r ! i)" by (rule e(1))
    show "hdr_seq (payload_header b (?r ! i)) = sq" by (simp add: e(2)) (simp add: chunk_header_def)
    show "unat (hdr_index (payload_header b (?r ! i))) = i"
      unfolding e(2) unat_hdr_index using i m(2) by simp
  qed (use hd full in simp_all)
qed

lemma piece_reported:
  assumes h: "\<forall>i<unat (plan_count plan). long_payload b (ps ! i) \<and> payload_header b (ps ! i) = chunk_header sq plan i"
    and len: "length ps = unat (plan_count plan)" and j: "j * 65536 + piece_length plan \<le> length ps"
    and full: "kE2eHoleBytes b + kMinFrameBytes \<le> length (ps ! (j * 65536))"
  shows "fst (ingest_all b (take (piece_length plan) (drop (j * 65536) ps)) t) =
    replicate (piece_length plan - 1) None @ [Some \<lparr>frame_seq = sq, frame_send_ns = payload_stamp b (ps ! (j * 65536))\<rparr>]"
proof -
  let ?r = "take (piece_length plan) (drop (j * 65536) ps)" and ?ns = "payload_stamp b (ps ! (j * 65536))"
  note run = piece_run [OF assms]
  have rl: "length ?r = piece_length plan" using j by simp
  have cnt: "unat (hdr_count (payload_header b p)) = unat (plan_count plan) mod 65536" if "p \<in> set ?r" for p
  proof -
    have "p \<in> set ps" using that by (meson in_set_dropD in_set_takeD)
    then show ?thesis using h len unat_hdr_count by (auto simp: in_set_conv_nth)
  qed
  show ?thesis
  proof (cases "unat (plan_count plan) mod 65536 = 0")
    case True
    then have one: "piece_length plan = 1" by (simp add: piece_length_def)
    then have "length ?r = Suc 0" using rl by (simp only: One_nat_def)
    then obtain p where p: "?r = [p]" unfolding length_Suc_conv length_0_conv by blast
    have "ingest b p t = (Some \<lparr>frame_seq = sq, frame_send_ns = ?ns\<rparr>, tracker_at False sq 1 ?ns)"
      using ingest_run_step [of b sq ?ns "[]" p t] run cnt [of p] True unfolding p by (simp add: pending_run_def)
    then show ?thesis unfolding p by (simp add: one)
  next
    case False
    then have m: "piece_length plan = unat (plan_count plan) mod 65536" by (simp add: piece_length_def)
    have "hdr_count (payload_header b p) = of_nat (length ?r)" if "p \<in> set ?r" for p
      using arg_cong [OF cnt [OF that], of "of_nat :: nat \<Rightarrow> u16"] rl m by simp
    moreover have "length ?r \<le> 65535" using rl m mod_less_divisor [of 65536 "unat (plan_count plan)"] by simp
    moreover have "?r \<noteq> []" using rl False m by auto
    ultimately have "is_frame b sq ?ns ?r" using run unfolding is_frame_def by blast
    from ingest_frame [OF this, of t] show ?thesis unfolding rl by simp
  qed
qed

section \<open>Properties\<close>

text \<open>
  C16. With a datagram limit from 13 to 27 bytes, which the command line accepts, no chunk of a
  UDP frame has room for header and send time: whatever the publisher sends and whatever of it
  arrives, the subscriber never records a frame.
\<close>

theorem small_datagram_measures_nothing:
  assumes "opt_transport opt \<noteq> ''tcp''" and "12 < unat (opt_max_datagram opt)" and "unat (opt_max_datagram opt) < 28"
    and "0 < unat (opt_size opt)" and "unat (opt_size opt) < 2 ^ 63"
    and "set (map snd (heard es')) \<subseteq> set (notified (sv_calls (svc_run (Run_service b dir opt) es)))"
  shows "cl_latencies_us (client_run (init_client b sub_dir can_open opt') es') = [] \<and>
    \<not> cl_done (client_run (init_client b sub_dir can_open opt') es')"
proof -
  let ?c = "init_client b sub_dir can_open opt'"
  obtain plan where p: "choose_plan opt = Inr plan" "unat (plan_len plan) \<le> unat (opt_max_datagram opt) - 12"
    using PlanChunks_tiles [of "opt_max_datagram opt" "opt_size opt"] assms(1-5) by (auto simp: choose_plan_def)
  have "short_calls b plan (sv_calls (svc_run (Run_service b dir opt) es))" by (rule svc_run_short [OF p(1)])
  then have "\<forall>(r, q)\<in>set (heard es'). length q < kE2eHoleBytes b + kMinFrameBytes"
    using assms(3,6) p(2) by (fastforce simp: short_calls_def frag_consts)
  then have "reported b init_tracker (heard es') = []"
    by (rule reported_short) (simp add: init_tracker_def)
  then have "cl_latencies_us (client_run ?c es') = []"
    using client_latencies [of ?c es'] by (simp add: init_client_def times_def)
  moreover have "cl_done (client_run ?c es') \<longrightarrow> cl_latencies_us (client_run ?c es') \<noteq> []"
    by (rule client_done_measured) (simp add: init_client_def)
  ultimately show ?thesis by simp
qed

lemma small_datagram_measures_nothing_witness:
  "\<not> cl_done (client_run (init_client Covesa_Build None (\<lambda>_. False) default_options)
     (map (\<lambda>p. Cl_message 9 (notification p))
       (notified (sv_calls (svc_run (Run_service Covesa_Build None (default_options\<lparr>opt_max_datagram := 20\<rparr>))
         (run_events [(0, 5, 0)]))))))"
proof -
  let ?ps = "notified (sv_calls (svc_run (Run_service Covesa_Build None (default_options\<lparr>opt_max_datagram := 20\<rparr>)) (run_events [(0, 5, 0)])))"
  have "set (map snd (heard (map (\<lambda>p. Cl_message 9 (notification p)) ps))) \<subseteq> set ps" for ps
    by (induction ps) (auto simp: notification_def)
  from small_datagram_measures_nothing [of "default_options\<lparr>opt_max_datagram := 20\<rparr>", OF _ _ _ _ _ this [of ?ps]]
  show ?thesis by (simp add: default_options_def)
qed

text \<open>
  C15. A frame of more than 65535 chunks is reported too early, at its chunk \<open>count mod 2 ^ 16\<close>,
  and again at every later piece of that length that starts at a chunk whose 16-bit index wraps
  to 0; the send time of those reports is read from the middle of the frame's data.
\<close>

theorem oversized_frame_reported_early:
  assumes "plan_tiles plan (length block)" and "plan_roomy plan (length block)"
    and "unat (plan_len plan) < 2 ^ 32" and "kMinFrameBytes \<le> unat (plan_len plan)" and "kMinFrameBytes \<le> length block"
    and "65535 < unat (plan_count plan)"
  shows "\<exists>ps block'. publish_frame b plan sq now block = Inr (ps, block') \<and> piece_length plan < length ps \<and>
    (\<forall>t. fst (ingest_all b (take (piece_length plan) ps) t) =
       replicate (piece_length plan - 1) None @ [Some \<lparr>frame_seq = sq, frame_send_ns = now\<rparr>]) \<and>
    (\<forall>j t. j * 65536 + piece_length plan < length ps \<longrightarrow>
       fst (ingest_all b (take (piece_length plan) (drop (j * 65536) ps)) t) =
       replicate (piece_length plan - 1) None @ [Some \<lparr>frame_seq = sq, frame_send_ns = payload_stamp b (ps ! (j * 65536))\<rparr>])"
proof -
  obtain ps block' where p: "publish_frame b plan sq now block = Inr (ps, block')"
    "ps = map (\<lambda>c. replicate (kE2eHoleBytes b) 0 @ chunk_slice plan block' c) [0..<unat (plan_count plan)]"
    "\<forall>i<unat (plan_count plan). long_payload b (ps ! i) \<and> payload_header b (ps ! i) = chunk_header sq plan i"
    "\<forall>i. Suc i < unat (plan_count plan) \<longrightarrow> kE2eHoleBytes b + kMinFrameBytes \<le> length (ps ! i)"
    "payload_stamp b (hd ps) = now"
    using publish_frame_chunks [OF assms(1-5), of b sq now] by blast
  have len: "length ps = unat (plan_count plan)" by (simp add: p(2))
  have m: "piece_length plan < length ps" "0 < piece_length plan"
    using assms(6) mod_less_divisor [of 65536 "unat (plan_count plan)"] by (simp_all add: piece_length_def len)
  have again: "fst (ingest_all b (take (piece_length plan) (drop (j * 65536) ps)) t) =
       replicate (piece_length plan - 1) None @ [Some \<lparr>frame_seq = sq, frame_send_ns = payload_stamp b (ps ! (j * 65536))\<rparr>]"
    if "j * 65536 + piece_length plan < length ps" for j t
    using that m(2) p(4) len by (intro piece_reported [OF p(3) len]) auto
  have "hd ps = ps ! 0" using m by (intro hd_conv_nth) auto
  then have "fst (ingest_all b (take (piece_length plan) ps) t) =
       replicate (piece_length plan - 1) None @ [Some \<lparr>frame_seq = sq, frame_send_ns = now\<rparr>]" for t
    using again [of 0 t] m(1) p(5) by simp
  then show ?thesis using p(1) m(1) again by blast
qed

lemma oversized_frame_reported_early_witness:
  "\<exists>plan ps block'. PlanChunks 97160000 1400 = Inr plan \<and>
    publish_frame Sgmenon_Build plan 7 5 (init_block 97160000) = Inr (ps, block') \<and>
    fst (ingest_all Sgmenon_Build (take 4464 ps) init_tracker) = replicate 4463 None @ [Some \<lparr>frame_seq = 7, frame_send_ns = 5\<rparr>]"
proof -
  define plan where "plan = \<lparr>plan_count = 70000, plan_len = 1388 :: u64\<rparr>"
  have plan: "PlanChunks 97160000 1400 = Inr plan" by (simp add: PlanChunks_def plan_def frag_consts)
  have m: "piece_length plan = 4464" by (simp add: piece_length_def plan_def)
  have len: "length (init_block 97160000) = 97160000" by simp
  have t: "plan_tiles plan (length (init_block 97160000))" "plan_roomy plan (length (init_block 97160000))"
    unfolding len by (simp_all add: plan_def plan_tiles_def plan_roomy_def frag_consts)
  have "\<exists>ps block'. publish_frame Sgmenon_Build plan 7 5 (init_block 97160000) = Inr (ps, block') \<and>
      fst (ingest_all Sgmenon_Build (take 4464 ps) init_tracker) = replicate (4464 - 1) None @ [Some \<lparr>frame_seq = 7, frame_send_ns = 5\<rparr>]"
    using oversized_frame_reported_early [OF t, of Sgmenon_Build 7 5] unfolding len m
    by (auto simp: plan_def frag_consts)
  then show ?thesis using plan by simp
qed

end
