(* ===== verification/Echo_Safety.thy ===== *)
theory Echo_Safety
  imports Vsomeip_Run
begin

text \<open>
  The echo mode of publisher and subscriber together: the requests that the subscriber's calls send,
  the responses of the publisher's handler to them, and what a call measures whatever the network
  does with both.
\<close>

section \<open>Requests and responses\<close>

fun requests :: "client_call list \<Rightarrow> bytes list" where
  "requests [] = []"
| "requests (Send_request rel s i m p # cs) = p # requests cs"
| "requests (_ # cs) = requests cs"

fun responses :: "app_call list \<Rightarrow> bytes list" where
  "responses [] = []"
| "responses (Send_response p # cs) = p # responses cs"
| "responses (_ # cs) = responses cs"

definition is_response :: "message \<Rightarrow> bool" where
  "is_response m \<longleftrightarrow> msg_type m = MT_RESPONSE \<and> msg_method m = kEchoMethodId"

lemma requests_append [simp]: "requests (xs @ ys) = requests xs @ requests ys"
  by (induction xs rule: requests.induct) simp_all

lemma responses_append [simp]: "responses (xs @ ys) = responses xs @ responses ys"
  by (induction xs rule: responses.induct) simp_all

text \<open>The publisher responds with what it was asked, and only to requests.\<close>

lemma responses_pace [simp]: "responses (pace p e) = []"
  by (cases p) simp_all

lemma responses_notify [simp]: "responses (map (Notify s i m) ps) = []"
  by (induction ps) simp_all

lemma svc_step_responses:
  "responses (sv_calls (svc_step s e)) = responses (sv_calls s) @ (case e of Echo_request p \<Rightarrow> [p] | _ \<Rightarrow> [])"
proof (cases e)
  case (Worker_step r t0 now t1)
  then show ?thesis
    by (cases "sv_worker s") (auto simp: publish_step_def emit_def split: sum.splits)
qed (auto simp: OnState_service_def OnSubscription_def OnEchoRequest_def emit_def)

lemma svc_run_responses:
  "responses (sv_calls (svc_run s es)) = responses (sv_calls s) @ concat (map (\<lambda>e. case e of Echo_request p \<Rightarrow> [p] | _ \<Rightarrow> []) es)"
  by (induction es arbitrary: s) (simp_all add: svc_step_responses)

text \<open>A handler of the subscriber sends no request.\<close>

lemma client_step_requests [simp]: "requests (cl_calls (client_step c e)) = requests (cl_calls c)"
  by (cases e) (auto simp: OnState_def OnAvailability_def OnMessage_def OnEchoResponse_def record_frame_def call_def touch_ready_def Let_def
    split: option.splits prod.splits)

lemma client_run_requests [simp]: "requests (cl_calls (client_run c es)) = requests (cl_calls c)"
  by (induction es arbitrary: c) simp_all

section \<open>What a call measures\<close>

text \<open>While a call waits it is answered by a response with its number, or not at all.\<close>

definition answer :: "cl_event list \<Rightarrow> u32 \<Rightarrow> u64 \<Rightarrow> u64 \<Rightarrow> bool" where
  "answer es sq send_ns recv_ns \<longleftrightarrow>
     (\<exists>m. Cl_message recv_ns m \<in> set es \<and> is_response m \<and> ReadStamp (msg_payload m) = Some (send_ns, sq))"

lemma client_step_answer:
  "cl_rpc_pending_seq (client_step c e) = cl_rpc_pending_seq c \<and>
   (cl_rpc_done (client_step c e) = cl_rpc_done c \<and> cl_rpc_rtt_us (client_step c e) = cl_rpc_rtt_us c \<or>
    (\<exists>send_ns recv_ns. answer [e] (cl_rpc_pending_seq c) send_ns recv_ns \<and> cl_rpc_rtt_us (client_step c e) = elapsed_us send_ns recv_ns))"
proof (cases "not_the_answer (cl_rpc_pending_seq c) e")
  case True
  then show ?thesis using client_step_not_answer by blast
next
  case False
  then obtain r m ns where e: "e = Cl_message r m" "msg_type m = MT_RESPONSE" "msg_method m = kEchoMethodId"
    "ReadStamp (msg_payload m) = Some (ns, cl_rpc_pending_seq c)"
    by (auto simp: not_the_answer_def split: cl_event.splits)
  then have "answer [e] (cl_rpc_pending_seq c) ns r" by (simp add: answer_def is_response_def)
  then show ?thesis using e by (auto simp: OnMessage_def OnEchoResponse_def)
qed

lemma client_run_answer:
  "cl_rpc_pending_seq (client_run c es) = cl_rpc_pending_seq c \<and>
   (cl_rpc_done (client_run c es) = cl_rpc_done c \<and> cl_rpc_rtt_us (client_run c es) = cl_rpc_rtt_us c \<or>
    (\<exists>send_ns recv_ns. answer es (cl_rpc_pending_seq c) send_ns recv_ns \<and> cl_rpc_rtt_us (client_run c es) = elapsed_us send_ns recv_ns))"
proof (induction es rule: rev_induct)
  case (snoc e es)
  have "answer es sq a b \<Longrightarrow> answer (es @ [e]) sq a b" "answer [e] sq a b \<Longrightarrow> answer (es @ [e]) sq a b" for sq a b
    by (auto simp: answer_def)
  then show ?case
    using snoc client_step_answer [of "client_run c es" e] by (simp add: client_run_append) metis
qed simp

lemma StampPayload_read:
  assumes "StampPayload buf (length buf) ns sq = Inr d"
  shows "length d = length buf \<and> (\<forall>x. ReadStamp d = Some x \<longrightarrow> x = (ns, sq))"
proof (cases "kBenchHeaderBytes \<le> length buf")
  case True
  then show ?thesis using StampPayload_ReadStamp [of buf ns sq] assms by auto
next
  case False
  then show ?thesis using assms by (auto simp: StampPayload_def ReadStamp_def)
qed

text \<open>The payload of the request of call \<open>i\<close>.\<close>

definition call_payload :: "(nat \<Rightarrow> u64) \<Rightarrow> nat \<Rightarrow> nat \<Rightarrow> bytes \<Rightarrow> bool" where
  "call_payload now sz i p \<longleftrightarrow> (\<exists>buf. length buf = sz \<and> StampPayload buf sz (now i) (of_nat i) = Inr p)"

lemma echo_call_measures:
  assumes "echo_call now inbox i (c, buf, rtts, out) = Inr (c', buf', rtts', out')"
  shows "length buf' = length buf \<and> cl_opt c' = cl_opt c \<and>
    (\<exists>p. requests (cl_calls c') = requests (cl_calls c) @ [p] \<and> call_payload now (length buf) i p) \<and>
    (rtts' = rtts \<or> (\<exists>send_ns recv_ns. answer (inbox i) (of_nat i) send_ns recv_ns \<and> rtts' = rtts @ [elapsed_us send_ns recv_ns]))"
proof -
  obtain d where d: "StampPayload buf (length buf) (now i) (of_nat i) = Inr d"
    using assms by (cases "StampPayload buf (length buf) (now i) (of_nat i)") (auto simp: echo_call_def Let_def)
  define c1 where "c1 = call [Send_request (opt_transport (cl_opt c) = ''tcp'') kServiceId kInstanceId kEchoMethodId d]
    (c\<lparr>cl_rpc_pending_seq := of_nat i, cl_rpc_done := False\<rparr>)"
  have c1: "\<not> cl_rpc_done c1" "cl_rpc_pending_seq c1 = of_nat i" "cl_opt c1 = cl_opt c"
    "requests (cl_calls c1) = requests (cl_calls c) @ [d]"
    by (simp_all add: c1_def call_def)
  define c2 where "c2 = client_run c1 (inbox i)"
  have c2: "requests (cl_calls c2) = requests (cl_calls c) @ [d]" "cl_opt c2 = cl_opt c"
    by (simp_all add: c2_def c1 client_run_opt)
  have p: "call_payload now (length buf) i d" unfolding call_payload_def using d by blast
  show ?thesis
  proof (cases "cl_rpc_done c2")
    case True
    then obtain s r where "answer (inbox i) (of_nat i) s r" "cl_rpc_rtt_us c2 = elapsed_us s r"
      using client_run_answer [of c1 "inbox i"] c1(1,2) unfolding c2_def by auto
    moreover have "c' = call [Pause (f64_recip (opt_rate_hz (cl_opt c)))] c2" "buf' = d" "rtts' = rtts @ [cl_rpc_rtt_us c2]"
      using assms d True by (auto simp: echo_call_def Let_def c1_def [symmetric] c2_def [symmetric])
    ultimately show ?thesis using p c2 StampPayload_read [OF d] by (auto simp: call_def)
  next
    case False
    then have "c' = c2" "buf' = d" "rtts' = rtts"
      using assms d by (auto simp: echo_call_def Let_def c1_def [symmetric] c2_def [symmetric])
    then show ?thesis using p c2 StampPayload_read [OF d] by simp
  qed
qed

text \<open>All calls: the round trips are those of some of the calls, in order.\<close>

lemma echo_calls_measure:
  assumes "foldE (echo_call now inbox) [0..<n] (c, buf, [], out) = Inr (c', buf', rtts, out')"
  shows "length buf' = length buf \<and> cl_opt c' = cl_opt c \<and>
    (\<forall>p\<in>set (requests (cl_calls c')). p \<in> set (requests (cl_calls c)) \<or> (\<exists>j<n. call_payload now (length buf) j p)) \<and>
    (\<exists>calls send arrival. sorted_wrt (<) calls \<and> set calls \<subseteq> {..<n} \<and>
      (\<forall>i\<in>set calls. answer (inbox i) (of_nat i) (send i) (arrival i)) \<and> rtts = map (\<lambda>i. elapsed_us (send i) (arrival i)) calls)"
  using assms
proof (induction n arbitrary: c' buf' rtts out')
  case (Suc n)
  obtain c1 buf1 rtts1 out1 where f: "foldE (echo_call now inbox) [0..<n] (c, buf, [], out) = Inr (c1, buf1, rtts1, out1)"
    and e: "echo_call now inbox n (c1, buf1, rtts1, out1) = Inr (c', buf', rtts, out')"
    using Suc.prems by (auto simp: foldE_append rbind_eq_Inr)
  note IH = Suc.IH [OF f]
  note step = echo_call_measures [OF e]
  obtain calls send arrival where k: "sorted_wrt (<) calls" "set calls \<subseteq> {..<n}"
    "\<forall>i\<in>set calls. answer (inbox i) (of_nat i) (send i) (arrival i)" "rtts1 = map (\<lambda>i. elapsed_us (send i) (arrival i)) calls"
    using IH by blast
  have req: "\<forall>p\<in>set (requests (cl_calls c')). p \<in> set (requests (cl_calls c)) \<or> (\<exists>j<Suc n. call_payload now (length buf) j p)"
    using IH step by (auto intro: less_SucI)
  have "\<exists>calls send arrival. sorted_wrt (<) calls \<and> set calls \<subseteq> {..<Suc n} \<and>
      (\<forall>i\<in>set calls. answer (inbox i) (of_nat i) (send i) (arrival i)) \<and> rtts = map (\<lambda>i. elapsed_us (send i) (arrival i)) calls"
  proof (cases "rtts = rtts1")
    case True
    then show ?thesis using k by (intro exI [of _ calls] exI [of _ send] exI [of _ arrival]) auto
  next
    case False
    then obtain s r where a: "answer (inbox n) (of_nat n) s r" "rtts = rtts1 @ [elapsed_us s r]" using step by blast
    have n: "n \<notin> set calls" using k(2) by auto
    then have "rtts = map (\<lambda>i. elapsed_us ((send(n := s)) i) ((arrival(n := r)) i)) (calls @ [n])"
      using a(2) k(4) by (auto intro!: map_cong)
    moreover have "sorted_wrt (<) (calls @ [n])" using k(1,2) by (auto simp: sorted_wrt_append)
    ultimately show ?thesis
      using k(2,3) a(1) n
      by (intro exI [of _ "calls @ [n]"] exI [of _ "send(n := s)"] exI [of _ "arrival(n := r)"]) auto
  qed
  then show ?case using IH step req by simp
qed (auto intro: exI [of _ "[]"])

section \<open>Properties\<close>

text \<open>
  C19. Whatever the network does with requests and responses, losing, duplicating, delaying and
  reordering them among any other messages: the round-trip times that the subscriber summarises are
  those of some of its calls, in order, each from the stamp of the call's own request to the arrival
  of a response to it.
\<close>

theorem echo_times_own_request:
  assumes "RunEchoCalls now inbox c = Inr (c', out)" and "out \<noteq> ''''"
    and "requests (cl_calls c) = []" and "int_range (opt_rpc_calls (cl_opt c))"
    and "set (concat (map (\<lambda>e. case e of Echo_request p \<Rightarrow> [p] | _ \<Rightarrow> []) es)) \<subseteq> set (requests (cl_calls c'))"
    and "\<forall>i r m. Cl_message r m \<in> set (inbox i) \<and> is_response m \<longrightarrow>
      msg_payload m \<in> set (responses (sv_calls (svc_run (Run_service b dir opt) es)))"
  shows "\<exists>calls arrival out' line. sorted_wrt (<) calls \<and> set calls \<subseteq> {..<nat (opt_rpc_calls (cl_opt c))} \<and>
    (\<forall>i\<in>set calls. answer (inbox i) (of_nat i) (now i) (arrival i)) \<and>
    rpc_summary (cl_opt c) (map (\<lambda>i. elapsed_us (now i) (arrival i)) calls) = Inr line \<and> out = out' @ line"
proof -
  let ?n = "nat (opt_rpc_calls (cl_opt c))" and ?sz = "unat (opt_size (cl_opt c))"
  obtain buf' rtts out1 line where f: "foldE (echo_call now inbox) [0..<?n] (c, replicate ?sz 0, [], '''') = Inr (c', buf', rtts, out1)"
    and line: "rpc_summary (cl_opt c) rtts = Inr line" "out = out1 @ line"
    using assms(1,2) by (auto simp: RunEchoCalls_def Let_def rbind_eq_Inr split: if_splits)
  obtain calls send arrival where k: "sorted_wrt (<) calls" "set calls \<subseteq> {..<?n}"
    "\<forall>i\<in>set calls. answer (inbox i) (of_nat i) (send i) (arrival i)" "rtts = map (\<lambda>i. elapsed_us (send i) (arrival i)) calls"
    and req: "\<forall>p\<in>set (requests (cl_calls c')). \<exists>j<?n. call_payload now ?sz j p"
    using echo_calls_measure [OF f] assms(3) by auto
  have "send i = now i" if "i \<in> set calls" for i
  proof -
    obtain m where m: "Cl_message (arrival i) m \<in> set (inbox i)" "is_response m" "ReadStamp (msg_payload m) = Some (send i, of_nat i)"
      using k(3) \<open>i \<in> set calls\<close> unfolding answer_def by blast
    then have "msg_payload m \<in> set (requests (cl_calls c'))"
      using assms(5,6) by (auto simp: svc_run_responses Run_service_def)
    then obtain j where j: "j < ?n" "call_payload now ?sz j (msg_payload m)" using req by blast
    then obtain buf where "length buf = ?sz" "StampPayload buf ?sz (now j) (of_nat j) = Inr (msg_payload m)"
      unfolding call_payload_def by blast
    then have "(send i, of_nat i) = (now j, of_nat j :: u32)" using m(3) StampPayload_read by metis
    moreover have "?n < 2 ^ 32" using assms(4) by (simp add: int_range_def) arith
    ultimately show ?thesis using that j(1) k(2) of_nat_u32_eq [of i j] by auto
  qed
  then have "rtts = map (\<lambda>i. elapsed_us (now i) (arrival i)) calls" "\<forall>i\<in>set calls. answer (inbox i) (of_nat i) (now i) (arrival i)"
    using k(3,4) by simp_all
  then show ?thesis using k(1,2) line by blast
qed

text \<open>One call: its request is handled by the publisher, and the response arrives twice.\<close>

lemma demo_echo:
  fixes opt p inbox c
  defines "opt \<equiv> default_options\<lparr>opt_size := 12, opt_rpc_calls := 1\<rparr>"
    and "p \<equiv> le_bytes (1000 :: u64) @ le_bytes (0 :: u32)"
    and "inbox \<equiv> \<lambda>i :: nat. [Cl_message 8000 (echo_response p), Cl_message 9000 (echo_response p)]"
    and "c \<equiv> init_client Sgmenon_Build None (\<lambda>_. False) opt"
  shows "\<exists>c' out. RunEchoCalls (\<lambda>i. 1000) inbox c = Inr (c', out) \<and> out \<noteq> '''' \<and> requests (cl_calls c') = [p]"
proof -
  have st: "StampPayload (replicate 12 0) 12 1000 0 = Inr p"
    by (simp add: StampPayload_def write_at_def p_def frag_consts)
  have rd: "ReadStamp p = Some (1000, 0)"
    by (simp add: ReadStamp_def p_def frag_consts)
  have "\<exists>c1 buf rtt out. echo_call (\<lambda>i. 1000) inbox 0 (c, replicate 12 0, [], '''') = Inr (c1, buf, [rtt], out) \<and>
      requests (cl_calls c1) = [p] \<and> cl_opt c1 = opt"
    using st rd
    by (simp add: echo_call_def Let_def inbox_def c_def init_client_def call_def echo_response_def OnMessage_def OnEchoResponse_def)
  then obtain c1 buf rtt out where e: "echo_call (\<lambda>i. 1000) inbox 0 (c, replicate 12 0, [], '''') = Inr (c1, buf, [rtt], out)"
    "requests (cl_calls c1) = [p]" "cl_opt c1 = opt" by blast
  obtain m where "PercentileUs [rtt] (1 / 2) = Inr m" using PercentileUs_total [of "1 / 2" "[rtt]"] by auto
  then obtain line where "rpc_summary opt [rtt] = Inr line" "line \<noteq> ''''" by (auto simp: rpc_summary_def rpc_prefix_def)
  moreover have "cl_opt c = opt" "opt_size opt = 12" "opt_rpc_calls opt = 1" "opt_transport opt = opt_transport default_options"
    "opt_max_datagram opt = opt_max_datagram default_options" by (simp_all add: c_def init_client_def opt_def)
  ultimately have "RunEchoCalls (\<lambda>i. 1000) inbox c = Inr (c1, out @ line)"
    using e by (simp add: RunEchoCalls_def Let_def default_options_def)
  then show ?thesis using e(2) \<open>line \<noteq> ''''\<close> by blast
qed

lemma echo_times_own_request_witness:
  "\<exists>c' out calls arrival line out'. RunEchoCalls (\<lambda>i. 1000)
       (\<lambda>i. [Cl_message 8000 (echo_response (le_bytes (1000 :: u64) @ le_bytes (0 :: u32))), Cl_message 9000 (echo_response (le_bytes (1000 :: u64) @ le_bytes (0 :: u32)))])
       (init_client Sgmenon_Build None (\<lambda>_. False) (default_options\<lparr>opt_size := 12, opt_rpc_calls := 1\<rparr>)) = Inr (c', out) \<and>
     set calls \<subseteq> {0 :: nat} \<and> rpc_summary (default_options\<lparr>opt_size := 12, opt_rpc_calls := 1\<rparr>) (map (\<lambda>i. elapsed_us 1000 (arrival i)) calls) = Inr line \<and>
     out = out' @ line"
proof -
  let ?p = "le_bytes (1000 :: u64) @ le_bytes (0 :: u32)" and ?opt = "default_options\<lparr>opt_size := 12, opt_rpc_calls := 1\<rparr>"
  let ?inbox = "\<lambda>i :: nat. [Cl_message 8000 (echo_response ?p), Cl_message 9000 (echo_response ?p)]"
  let ?c = "init_client Sgmenon_Build None (\<lambda>_. False) ?opt"
  obtain c' out where r: "RunEchoCalls (\<lambda>i. 1000) ?inbox ?c = Inr (c', out)" "out \<noteq> ''''" "requests (cl_calls c') = [?p]"
    using demo_echo by blast
  have "set (concat (map (\<lambda>e. case e of Echo_request p \<Rightarrow> [p] | _ \<Rightarrow> []) [Echo_request ?p])) \<subseteq> set (requests (cl_calls c'))"
    by (simp add: r(3))
  moreover have "\<forall>i r m. Cl_message r m \<in> set (?inbox i) \<and> is_response m \<longrightarrow>
      msg_payload m \<in> set (responses (sv_calls (svc_run (Run_service Sgmenon_Build None default_options) [Echo_request ?p])))"
    by (auto simp: svc_run_responses echo_response_def simp del: svc_run.simps)
  moreover have "requests (cl_calls ?c) = []" "int_range (opt_rpc_calls (cl_opt ?c))" by (simp_all add: init_client_def int_range_def)
  ultimately obtain calls arrival out' line where "set calls \<subseteq> {..<nat (opt_rpc_calls (cl_opt ?c))}"
    "rpc_summary (cl_opt ?c) (map (\<lambda>i. elapsed_us 1000 (arrival i)) calls) = Inr line" "out = out' @ line"
    using echo_times_own_request [OF r(1,2), of "[Echo_request ?p]" Sgmenon_Build None default_options] by blast
  then show ?thesis using r(1) by (auto simp: init_client_def lessThan_Suc)
qed

end
