(* ===== verification/Ready_File.thy ===== *)
theory Ready_File
  imports Network_Safety
begin

text \<open>
  The ready file: with a sync directory, the publisher's worker polls for the file that the
  subscriber writes after it has subscribed. Publisher and subscriber are run together, in any
  interleaving of their handlers and of the publisher's worker; the only thing they share here is
  the directory, which is empty at the start. A subscription that the publisher is told of may be
  anybody's.
\<close>

section \<open>Publisher and subscriber with one directory\<close>

definition ready_path :: "string \<Rightarrow> string" where
  "ready_path dir = dir @ ''/.bench-sub-ready''"

definition ready_exists :: "service \<Rightarrow> client \<Rightarrow> bool" where
  "ready_exists s c \<longleftrightarrow> (case sv_sync_dir s of None \<Rightarrow> False | Some dir \<Rightarrow> cl_fs c (ready_path dir) \<noteq> None)"

fun is_handler :: "svc_event \<Rightarrow> bool" where
  "is_handler (Worker_step r t0 now t1) = False"
| "is_handler _ = True"

inductive joint_step :: "service \<times> client \<Rightarrow> service \<times> client \<Rightarrow> bool" where
  pub_handler: "is_handler e \<Longrightarrow> joint_step (s, c) (svc_step s e, c)"
| pub_worker: "joint_step (s, c) (svc_step s (Worker_step (ready_exists s c) t0 now t1), c)"
| sub_handler: "joint_step (s, c) (s, client_step c e)"

inductive joint_run :: "service \<times> client \<Rightarrow> service \<times> client \<Rightarrow> bool" where
  here: "joint_run x x"
| further: "joint_run x y \<Longrightarrow> joint_step y z \<Longrightarrow> joint_run x z"

text \<open>The naps of the worker before it first notifies.\<close>

definition naps :: "app_call list \<Rightarrow> nat" where
  "naps cs = count_list (takeWhile (\<lambda>x. notified [x] = []) cs) (Sleep_ns (Fin 100000000))"

lemma naps_append: "naps cs \<le> naps (cs @ ds)"
  by (induction cs) (auto simp: naps_def)

lemma naps_all: "notified cs = [] \<Longrightarrow> naps cs = count_list cs (Sleep_ns (Fin 100000000))"
  by (simp add: naps_def takeWhile_notified_Nil del: takeWhile_eq_all_conv)

definition has_subscribed :: "client \<Rightarrow> bool" where
  "has_subscribed c \<longleftrightarrow> Subscribe kServiceId kInstanceId kEventgroupId \<in> set (cl_calls c)"

text \<open>
  The worker polls only while nothing is notified; past the polls the subscriber has subscribed, or
  the 600 naps are over.
\<close>

definition worker_ready :: "service \<Rightarrow> client \<Rightarrow> bool" where
  "worker_ready s c \<longleftrightarrow>
     (case sv_worker s of
        Wait_registered \<Rightarrow> notified (sv_calls s) = []
      | Wait_subscribed \<Rightarrow> notified (sv_calls s) = []
      | Poll_ready i \<Rightarrow> notified (sv_calls s) = [] \<and> i \<le> naps (sv_calls s)
      | _ \<Rightarrow> has_subscribed c \<or> 600 \<le> naps (sv_calls s))"

definition ready_inv :: "string \<Rightarrow> service \<times> client \<Rightarrow> bool" where
  "ready_inv dir x \<longleftrightarrow> (case x of (s, c) \<Rightarrow>
     sv_sync_dir s = Some dir \<and> cl_sync_dir c = Some dir \<and>
     (cl_fs c (ready_path dir) \<noteq> None \<longrightarrow> has_subscribed c) \<and> worker_ready s c)"

lemma worker_ready_emit:
  assumes "worker_ready s c" and "sv_worker s' = sv_worker s" and "sv_calls s' = sv_calls s @ cs" and "notified cs = []"
  shows "worker_ready s' c"
  using assms naps_append [of "sv_calls s" cs]
  by (auto simp: worker_ready_def notified_append split: worker.splits)

lemma ready_handler:
  assumes "ready_inv dir (s, c)" and "is_handler e"
  shows "ready_inv dir (svc_step s e, c)"
proof -
  have "\<exists>cs. sv_worker (svc_step s e) = sv_worker s \<and> sv_calls (svc_step s e) = sv_calls s @ cs \<and> notified cs = [] \<and>
      sv_sync_dir (svc_step s e) = sv_sync_dir s"
    using assms(2) by (cases e) (auto simp: OnState_service_def OnSubscription_def OnEchoRequest_def emit_def)
  then show ?thesis using assms(1) worker_ready_emit by (fastforce simp: ready_inv_def)
qed

lemma start_publishing_not_poll: "\<exists>f i sq tot plan blk. start_publishing s \<in> {Failed f, Publishing i sq tot plan blk}"
  by (auto simp: start_publishing_def Let_def split: sum.splits)

lemma ready_worker:
  assumes "ready_inv dir (s, c)"
  shows "ready_inv dir (svc_step s (Worker_step (ready_exists s c) t0 now t1), c)"
proof -
  have dir: "sv_sync_dir s = Some dir" and ex: "ready_exists s c \<longrightarrow> has_subscribed c" and w: "worker_ready s c"
    using assms by (auto simp: ready_inv_def ready_exists_def)
  let ?s = "worker_step (ready_exists s c) t0 now t1 (sv_worker s) s"
  have "worker_ready ?s c"
  proof (cases "sv_worker s")
    case (Poll_ready i)
    then have p: "notified (sv_calls s) = []" "i \<le> naps (sv_calls s)" using w by (simp_all add: worker_ready_def)
    show ?thesis
    proof (cases "600 \<le> i \<or> ready_exists s c")
      case True
      then have "has_subscribed c \<or> 600 \<le> naps (sv_calls s)" using p(2) ex by auto
      then show ?thesis
        using Poll_ready True start_publishing_not_poll [of s] by (cases "start_publishing s") (auto simp: worker_ready_def)
    next
      case False
      have "naps (sv_calls s @ [Sleep_ns (Fin 100000000)]) = Suc (naps (sv_calls s))"
        using p(1) by (subst naps_all) (simp_all add: notified_append naps_all)
      then show ?thesis using Poll_ready False p by (simp add: worker_ready_def emit_def notified_append)
    qed
  next
    case (Publishing i sq tot plan blk)
    then have r: "has_subscribed c \<or> 600 \<le> naps (sv_calls s)" using w by (simp add: worker_ready_def)
    then have "has_subscribed c \<or> 600 \<le> naps (sv_calls s @ cs)" for cs using naps_append [of "sv_calls s" cs] by linarith
    then show ?thesis
      using Publishing r by (auto simp: worker_ready_def publish_step_def emit_def split: sum.splits)
  qed (use w dir in \<open>auto simp: worker_ready_def\<close>)
  moreover have "sv_sync_dir ?s = sv_sync_dir s"
    by (cases "sv_worker s") (auto simp: publish_step_def emit_def split: sum.splits)
  ultimately show ?thesis using assms by (simp add: ready_inv_def)
qed

text \<open>A handler of the subscriber writes the file only after it has subscribed.\<close>

lemma client_step_ready:
  assumes "cl_sync_dir c = Some dir" and "cl_fs c (ready_path dir) \<noteq> None \<longrightarrow> has_subscribed c"
  shows "cl_sync_dir (client_step c e) = Some dir \<and> (has_subscribed c \<longrightarrow> has_subscribed (client_step c e)) \<and>
    (cl_fs (client_step c e) (ready_path dir) \<noteq> None \<longrightarrow> has_subscribed (client_step c e))"
  using assms
  by (cases e) (auto simp: OnState_def OnAvailability_def OnMessage_def OnEchoResponse_def record_frame_def call_def touch_ready_def
    ready_path_def has_subscribed_def Let_def split: option.splits prod.splits if_splits)

lemma ready_step: "joint_step x y \<Longrightarrow> ready_inv dir x \<Longrightarrow> ready_inv dir y"
proof (induction rule: joint_step.induct)
  case (sub_handler s c e)
  then show ?case
    using client_step_ready [of c dir e] by (auto simp: ready_inv_def worker_ready_def split: worker.splits)
qed (simp_all only: ready_handler ready_worker not_False_eq_True)

lemma ready_run: "joint_run x y \<Longrightarrow> ready_inv dir x \<Longrightarrow> ready_inv dir y"
  by (induction rule: joint_run.induct) (blast intro: ready_step)+

section \<open>Properties\<close>

text \<open>
  C9. With a sync directory shared by publisher and subscriber, nothing is notified before the
  subscriber has subscribed, whoever else subscribes, unless the publisher's worker has napped its
  600 times for a tenth of a second first.
\<close>

theorem ready_file_delays_publishing:
  assumes "joint_run (Run_service b (Some dir) opt, init_client b' (Some dir) can_open opt') (s, c)"
    and "notified (sv_calls s) \<noteq> []"
  shows "Subscribe kServiceId kInstanceId kEventgroupId \<in> set (cl_calls c) \<or> 600 \<le> naps (sv_calls s)"
proof -
  have "ready_inv dir (Run_service b (Some dir) opt, init_client b' (Some dir) can_open opt')"
    by (simp add: ready_inv_def worker_ready_def Run_service_def init_client_def)
  from ready_run [OF assms(1) this] show ?thesis
    using assms(2) by (auto simp: ready_inv_def worker_ready_def has_subscribed_def split: worker.splits)
qed

lemma ready_file_delays_publishing_witness:
  "\<exists>s c. joint_run (Run_service Sgmenon_Build (Some ''/s'') demo_pub, init_client Sgmenon_Build (Some ''/s'') (\<lambda>_. True) demo_pub) (s, c) \<and>
     notified (sv_calls s) = [demo_payload] \<and> naps (sv_calls s) = 0 \<and> Subscribe kServiceId kInstanceId kEventgroupId \<in> set (cl_calls c)"
proof -
  define s0 where "s0 = Run_service Sgmenon_Build (Some ''/s'') demo_pub"
  define c0 where "c0 = init_client Sgmenon_Build (Some ''/s'') (\<lambda>_. True) demo_pub"
  define c where "c = client_step c0 (Cl_availability True)"
  define s2 where "s2 = OnSubscription True (OnState_service ST_REGISTERED s0)"
  define s4 where "s4 = s2\<lparr>sv_worker := Poll_ready 0\<rparr>"
  define s5 where "s5 = s2\<lparr>sv_worker := Publishing 0 0 1 \<lparr>plan_count = 1, plan_len = 16\<rparr> (init_block 16)\<rparr>"
  define s6 where "s6 = worker_step True 0 5 0 (sv_worker s5) s5"
  note defs = s0_def s2_def s4_def s5_def Run_service_def OnState_service_def OnSubscription_def emit_def ready_exists_def
  have ready: "cl_fs c (ready_path ''/s'') \<noteq> None"
    by (simp add: c_def c0_def OnAvailability_def touch_ready_def call_def init_client_def ready_path_def demo_pub_def default_options_def)
  have worker: "joint_run x (s', d)" if "joint_run x (s, d)" "worker_step (ready_exists s d) 0 5 0 (sv_worker s) s = s'" for x s d s'
    using joint_run.further [OF that(1) joint_step.pub_worker [of s d 0 5 0]] that(2) by simp
  have "joint_run (s0, c0) (s2, c0)"
    using joint_run.further [OF joint_run.further [OF joint_run.here joint_step.pub_handler [of "State ST_REGISTERED"]]
      joint_step.pub_handler [of "Subscription True"]] by (simp add: s2_def)
  then have "joint_run (s0, c0) (s2\<lparr>sv_worker := Wait_subscribed\<rparr>, c0)" by (rule worker) (simp add: defs)
  then have "joint_run (s0, c0) (s4, c0)" by (rule worker) (simp add: defs)
  from joint_run.further [OF this joint_step.sub_handler] have "joint_run (s0, c0) (s4, c)" unfolding c_def .
  then have "joint_run (s0, c0) (s5, c)"
    by (rule worker) (use ready demo_pub_plan(1) in \<open>simp add: defs start_publishing_def demo_pub_def default_options_def int_range_def\<close>)
  then have r: "joint_run (s0, c0) (s6, c)" by (rule worker) (simp add: s6_def defs)
  have n: "notified (sv_calls s6) = [demo_payload]" "naps (sv_calls s6) = 0"
    using demo_frame_published by (simp_all add: s6_def defs publish_step_def naps_def notified_append)
  then show ?thesis
    using ready_file_delays_publishing [OF r [unfolded s0_def c0_def]] r unfolding s0_def c0_def by auto
qed

end
