(* ===== verification/Credit_Flow.thy ===== *)
theory Credit_Flow
  imports Stats
begin

text \<open>
  The multithreaded one-way benchmark (\<open>RunMtOneWay\<close> of \<open>benchmarks/cyclone_bench.cc\<close>; that of
  \<open>zenoh_bench.cc\<close> has the same protocol, that of \<open>subspace_bench.cc\<close> treats a failed write
  differently, see \<open>Publisher_Threads\<close>): a publisher thread and the benchmark thread share a
  credit counter, a sequence counter and a stop flag. Every atomic operation and every call into the
  middleware is one step of a relation, so that all interleavings are runs of it. The middleware is
  a queue; a best-effort one may lose samples.
\<close>

section \<open>State\<close>

text \<open>
  Where the publisher is: at the loop test, at the credit test, about to write, about to count
  what it has written, or out of the loop.
\<close>

datatype pub_pc = Pub_loop | Pub_gate | Pub_send | Pub_count | Pub_ended

text \<open>
  Where the benchmark thread is. A release of a credit is a load followed by compare-and-swap
  attempts with the value last seen; what follows it depends on where the sample was taken.
\<close>

datatype after_release = After_drain nat | After_take

datatype sub_pc =
    Sub_drain nat
  | Sub_take
  | Sub_load after_release
  | Sub_cas after_release int
  | Sub_stopping
  | Sub_joining
  | Sub_ended

record mt_state =
  cf_in_flight :: int
  cf_seq :: u64
  cf_stop :: bool
  cf_queue :: "u64 list"
  cf_pub :: pub_pc
  cf_sub :: sub_pc
  cf_stats :: MtTakeStats
  cf_lats :: "rat list"
  cf_sent :: "u64 list"
  cf_taken :: "u64 list"
  cf_skipped :: nat
  cf_lost :: nat

text \<open>
  The last four fields are history: the numbers written and taken, the releases that found no
  credit to return, and the samples lost.
\<close>

definition mt_start :: mt_state where
  "mt_start = \<lparr>cf_in_flight = 0, cf_seq = 0, cf_stop = False, cf_queue = [], cf_pub = Pub_loop, cf_sub = Sub_drain 0,
     cf_stats = mt_init, cf_lats = [], cf_sent = [], cf_taken = [], cf_skipped = 0, cf_lost = 0\<rparr>"

definition max_in_flight :: int where "max_in_flight = 2"

text \<open>After the timed sample of an iteration the next one begins or the benchmark is over.\<close>

fun resumes :: "after_release \<Rightarrow> sub_pc \<Rightarrow> bool" where
  "resumes (After_drain n) pc \<longleftrightarrow> pc = Sub_drain n"
| "resumes After_take pc \<longleftrightarrow> pc = Sub_drain 0 \<or> pc = Sub_stopping"

section \<open>Steps\<close>

inductive mt_step :: "bool \<Rightarrow> mt_state \<Rightarrow> mt_state \<Rightarrow> bool" for reliable :: bool where
  pub_leave: "cf_pub s = Pub_loop \<Longrightarrow> cf_stop s \<Longrightarrow> mt_step reliable s (s\<lparr>cf_pub := Pub_ended\<rparr>)"
| pub_enter: "cf_pub s = Pub_loop \<Longrightarrow> \<not> cf_stop s \<Longrightarrow> mt_step reliable s (s\<lparr>cf_pub := Pub_gate\<rparr>)"
| pub_yield: "cf_pub s = Pub_gate \<Longrightarrow> max_in_flight \<le> cf_in_flight s \<Longrightarrow> mt_step reliable s (s\<lparr>cf_pub := Pub_loop\<rparr>)"
| pub_pass: "cf_pub s = Pub_gate \<Longrightarrow> cf_in_flight s < max_in_flight \<Longrightarrow>
    mt_step reliable s (s\<lparr>cf_seq := cf_seq s + 1, cf_pub := Pub_send\<rparr>)"
| pub_failed: "cf_pub s = Pub_send \<Longrightarrow> mt_step reliable s (s\<lparr>cf_pub := (if reliable then Pub_loop else Pub_ended)\<rparr>)"
| pub_write: "cf_pub s = Pub_send \<Longrightarrow>
    mt_step reliable s (s\<lparr>cf_queue := cf_queue s @ [cf_seq s], cf_sent := cf_sent s @ [cf_seq s], cf_pub := Pub_count\<rparr>)"
| pub_count: "cf_pub s = Pub_count \<Longrightarrow> mt_step reliable s (s\<lparr>cf_in_flight := cf_in_flight s + 1, cf_pub := Pub_loop\<rparr>)"
| lose: "\<not> reliable \<Longrightarrow> cf_queue s = xs @ x # ys \<Longrightarrow>
    mt_step reliable s (s\<lparr>cf_queue := xs @ ys, cf_lost := cf_lost s + 1\<rparr>)"
| drain_end: "cf_sub s = Sub_drain n \<Longrightarrow> mt_step reliable s (s\<lparr>cf_sub := Sub_take\<rparr>)"
| drain_failed: "cf_sub s = Sub_drain n \<Longrightarrow> n < 32 \<Longrightarrow> mt_step reliable s (s\<lparr>cf_sub := Sub_stopping\<rparr>)"
| drain_take: "cf_sub s = Sub_drain n \<Longrightarrow> n < 32 \<Longrightarrow> cf_queue s = x # xs \<Longrightarrow>
    mt_step reliable s (s\<lparr>cf_queue := xs, cf_taken := cf_taken s @ [x], cf_stats := Record e2e True 0 (cf_stats s),
      cf_sub := Sub_load (After_drain (n + 1))\<rparr>)"
| take_failed: "cf_sub s = Sub_take \<Longrightarrow> mt_step reliable s (s\<lparr>cf_sub := Sub_stopping\<rparr>)"
| timed_take: "cf_sub s = Sub_take \<Longrightarrow> cf_queue s = x # xs \<Longrightarrow> (was_queued \<longrightarrow> wait_ns = 0) \<Longrightarrow>
    mt_step reliable s (s\<lparr>cf_queue := xs, cf_taken := cf_taken s @ [x],
      cf_stats := Record e2e was_queued (fl (dbl_of_u64 wait_ns * lit_1em9)) (cf_stats s),
      cf_lats := cf_lats s @ [e2e], cf_sub := Sub_load After_take\<rparr>)"
| release_load: "cf_sub s = Sub_load k \<Longrightarrow> mt_step reliable s (s\<lparr>cf_sub := Sub_cas k (cf_in_flight s)\<rparr>)"
| release_cas: "cf_sub s = Sub_cas k cur \<Longrightarrow> 0 < cur \<Longrightarrow> cf_in_flight s = cur \<Longrightarrow> resumes k pc \<Longrightarrow>
    mt_step reliable s (s\<lparr>cf_in_flight := cur - 1, cf_sub := pc\<rparr>)"
| release_again: "cf_sub s = Sub_cas k cur \<Longrightarrow> 0 < cur \<Longrightarrow> mt_step reliable s (s\<lparr>cf_sub := Sub_cas k (cf_in_flight s)\<rparr>)"
| release_skip: "cf_sub s = Sub_cas k cur \<Longrightarrow> \<not> 0 < cur \<Longrightarrow> resumes k pc \<Longrightarrow>
    mt_step reliable s (s\<lparr>cf_skipped := cf_skipped s + 1, cf_sub := pc\<rparr>)"
| sub_stop: "cf_sub s = Sub_stopping \<Longrightarrow> mt_step reliable s (s\<lparr>cf_stop := True, cf_sub := Sub_joining\<rparr>)"
| sub_join: "cf_sub s = Sub_joining \<Longrightarrow> cf_pub s = Pub_ended \<Longrightarrow> mt_step reliable s (s\<lparr>cf_sub := Sub_ended\<rparr>)"

inductive mt_runs :: "bool \<Rightarrow> mt_state \<Rightarrow> mt_state \<Rightarrow> bool" for reliable :: bool where
  here: "mt_runs reliable s s"
| further: "mt_runs reliable s s' \<Longrightarrow> mt_step reliable s' s'' \<Longrightarrow> mt_runs reliable s s''"

definition mt_reachable :: "bool \<Rightarrow> mt_state \<Rightarrow> bool" where
  "mt_reachable reliable s \<longleftrightarrow> mt_runs reliable mt_start s"

section \<open>Credits\<close>

text \<open>A sample written but not yet counted, and a sample taken but not yet released.\<close>

definition counting :: "mt_state \<Rightarrow> int" where
  "counting s = (if cf_pub s = Pub_count then 1 else 0)"

definition releasing :: "mt_state \<Rightarrow> int" where
  "releasing s = (case cf_sub s of Sub_load k \<Rightarrow> 1 | Sub_cas k cur \<Rightarrow> 1 | _ \<Rightarrow> 0)"

text \<open>
  Every sample is queued, being released, skipped or lost, or else its credit has come back. The
  publisher has seen a free credit when it is past the credit test. A release that has seen no
  credit is the first that skips.
\<close>

definition credit_inv :: "mt_state \<Rightarrow> bool" where
  "credit_inv s \<longleftrightarrow>
     int (length (cf_queue s)) + releasing s + int (cf_skipped s) + int (cf_lost s) = cf_in_flight s + counting s \<and>
     0 \<le> cf_in_flight s \<and> cf_in_flight s + counting s \<le> max_in_flight \<and>
     (cf_pub s = Pub_send \<longrightarrow> cf_in_flight s < max_in_flight) \<and>
     cf_skipped s \<le> 1 \<and> (\<forall>k cur. cf_sub s = Sub_cas k cur \<longrightarrow> cur \<le> 0 \<longrightarrow> cf_skipped s = 0)"

definition flow_inv :: "bool \<Rightarrow> mt_state \<Rightarrow> bool" where
  "flow_inv reliable s \<longleftrightarrow>
     (reliable \<longrightarrow> cf_lost s = 0 \<and> cf_sent s = cf_taken s @ cf_queue s) \<and>
     mt_n (cf_stats s) = of_nat (length (cf_taken s)) \<and>
     length (cf_lats s) \<le> length (cf_taken s) \<and>
     (cf_sub s \<in> {Sub_joining, Sub_ended} \<longrightarrow> cf_stop s) \<and> (cf_sub s = Sub_ended \<longrightarrow> cf_pub s = Pub_ended)"

fun_cases resumesE: "resumes (After_drain n) pc" "resumes After_take pc"

lemma resumes_cases: "resumes k pc \<Longrightarrow> (\<exists>n. pc = Sub_drain n) \<or> pc = Sub_stopping"
  by (cases k) (auto elim: resumesE)

inductive_cases mt_stepE: "mt_step reliable s s'"

lemma credit_step: "mt_step reliable s s' \<Longrightarrow> credit_inv s \<Longrightarrow> credit_inv s'"
proof (induction rule: mt_step.induct)
  case (release_load s k)
  then show ?case by (auto simp: credit_inv_def counting_def releasing_def max_in_flight_def split: if_splits)
next
  case (release_cas s k cur pc)
  then show ?case
    by (auto simp: credit_inv_def counting_def releasing_def max_in_flight_def dest!: resumes_cases)
next
  case (release_skip s k cur pc)
  then show ?case
    by (auto simp: credit_inv_def counting_def releasing_def max_in_flight_def dest!: resumes_cases)
qed (auto simp: credit_inv_def counting_def releasing_def max_in_flight_def split: if_splits)

lemma flow_step: "mt_step reliable s s' \<Longrightarrow> flow_inv reliable s \<Longrightarrow> flow_inv reliable s'"
  by (induction rule: mt_step.induct) (auto simp: flow_inv_def Record_def Let_def dest: resumes_cases)

lemma invariants_run:
  "mt_runs reliable s s' \<Longrightarrow> credit_inv s \<and> flow_inv reliable s \<Longrightarrow> credit_inv s' \<and> flow_inv reliable s'"
  by (induction rule: mt_runs.induct) (blast intro: credit_step flow_step)+

lemma reachable_inv: "mt_reachable reliable s \<Longrightarrow> credit_inv s \<and> flow_inv reliable s"
  unfolding mt_reachable_def
  by (erule invariants_run) (simp add: mt_start_def credit_inv_def flow_inv_def counting_def releasing_def max_in_flight_def mt_init_def)

lemma reachable_start: "mt_reachable reliable mt_start"
  by (simp add: mt_reachable_def mt_runs.here)

lemma reachable_step: "mt_reachable reliable s \<Longrightarrow> mt_step reliable s s' \<Longrightarrow> mt_reachable reliable s'"
  unfolding mt_reachable_def by (rule mt_runs.further)

section \<open>Credits that never come back\<close>

definition debt :: "mt_state \<Rightarrow> nat" where
  "debt s = cf_skipped s + cf_lost s"

lemma debt_le: "credit_inv s \<Longrightarrow> debt s \<le> 2"
  by (auto simp: credit_inv_def debt_def counting_def releasing_def max_in_flight_def split: sub_pc.splits if_splits)

lemma no_credit:
  assumes "credit_inv s" and "debt s = 2"
  shows "cf_queue s = []" "releasing s = 0" "cf_pub s \<noteq> Pub_send"
proof -
  have "int (length (cf_queue s)) + releasing s + 2 = cf_in_flight s + counting s" "cf_in_flight s + counting s \<le> 2"
    using assms by (simp_all add: credit_inv_def debt_def max_in_flight_def)
  moreover have "0 \<le> releasing s" by (simp add: releasing_def split: sub_pc.splits)
  ultimately have "int (length (cf_queue s)) = 0" "releasing s = 0" by linarith+
  then show "cf_queue s = []" "releasing s = 0" by simp_all
  with \<open>int (length (cf_queue s)) + releasing s + 2 = cf_in_flight s + counting s\<close>
  show "cf_pub s \<noteq> Pub_send" using assms(1) by (auto simp: credit_inv_def counting_def max_in_flight_def)
qed

lemma no_credit_step:
  assumes "mt_step reliable s s'" and "credit_inv s" and "debt s = 2"
  shows "debt s' = 2 \<and> cf_sent s' = cf_sent s \<and> cf_taken s' = cf_taken s \<and> cf_lats s' = cf_lats s"
  using assms(1) no_credit [OF assms(2,3)] assms(3)
  by (induction rule: mt_step.induct) (auto simp: debt_def releasing_def)

lemma no_credit_run:
  assumes "mt_runs reliable s s'" and "credit_inv s" and "debt s = 2"
  shows "credit_inv s' \<and> debt s' = 2 \<and> cf_sent s' = cf_sent s \<and> cf_taken s' = cf_taken s \<and> cf_lats s' = cf_lats s"
  using assms
proof (induction rule: mt_runs.induct)
  case (further s s' s'')
  then show ?case using no_credit_step [OF further.hyps(2)] credit_step [OF further.hyps(2)] by auto
qed simp

section \<open>The end of a run\<close>

fun pub_left :: "pub_pc \<Rightarrow> nat" where
  "pub_left Pub_gate = 4"
| "pub_left Pub_send = 3"
| "pub_left Pub_count = 2"
| "pub_left Pub_loop = 1"
| "pub_left Pub_ended = 0"

text \<open>The publisher's places in the order in which it still has steps to make.\<close>

instantiation pub_pc :: linorder
begin

definition less_eq_pub_pc :: "pub_pc \<Rightarrow> pub_pc \<Rightarrow> bool" where
  "less_eq_pub_pc p q \<longleftrightarrow> pub_left p \<le> pub_left q"

definition less_pub_pc :: "pub_pc \<Rightarrow> pub_pc \<Rightarrow> bool" where
  "less_pub_pc p q \<longleftrightarrow> pub_left p < pub_left q"

instance
proof
  fix p q :: pub_pc
  show "p = q" if "p \<le> q" "q \<le> p"
    using that by (cases p; cases q) (auto simp: less_eq_pub_pc_def)
qed (auto simp: less_eq_pub_pc_def less_pub_pc_def)

end

definition steps_left :: "mt_state \<Rightarrow> nat" where
  "steps_left s = 2 * pub_left (cf_pub s) + length (cf_queue s) + (if cf_sub s = Sub_joining then 1 else 0)"

definition joined :: "mt_state \<Rightarrow> bool" where
  "joined s \<longleftrightarrow> cf_stop s \<and> cf_sub s \<in> {Sub_joining, Sub_ended}"

lemma joined_step: "mt_step reliable s s' \<Longrightarrow> joined s \<Longrightarrow> joined s' \<and> steps_left s' < steps_left s"
  by (induction rule: mt_step.induct) (auto simp: joined_def steps_left_def)

text \<open>Waiting to be joined, the publisher only moves towards its end; after that only losses happen.\<close>

lemma joined_descends: "mt_step reliable s s' \<Longrightarrow> joined s \<Longrightarrow> cf_pub s' \<le> cf_pub s"
  by (erule mt_stepE) (auto simp: joined_def less_eq_pub_pc_def)

lemma ended_only_loses:
  assumes "mt_step reliable s s'" and "cf_sub s = Sub_ended" and "cf_pub s = Pub_ended"
  shows "\<not> reliable \<and> cf_lost s' = cf_lost s + 1"
  using assms by (auto elim!: mt_stepE)

lemma joined_run_descends: "mt_runs reliable s s' \<Longrightarrow> joined s \<Longrightarrow> joined s' \<and> cf_pub s' \<le> cf_pub s"
  by (induction rule: mt_runs.induct) (auto dest: joined_step joined_descends intro: order_trans)

lemma joined_ends: "joined s \<Longrightarrow> Wellfounded.accp (\<lambda>y x. mt_step reliable x y) s"
proof (induction "steps_left s" arbitrary: s rule: less_induct)
  case less
  show ?case by (rule accp.accI) (use less joined_step in blast)
qed

lemma joining_moves: "cf_sub s = Sub_joining \<Longrightarrow> joined s \<Longrightarrow> \<exists>s'. mt_step reliable s s'"
proof (cases "cf_pub s")
  case Pub_loop
  assume "joined s"
  then show ?thesis using Pub_loop mt_step.pub_leave joined_def by blast
next
  case Pub_gate
  then show ?thesis using mt_step.pub_yield mt_step.pub_pass by (cases "max_in_flight \<le> cf_in_flight s") (blast, force)
next
  case Pub_ended
  assume "cf_sub s = Sub_joining"
  then show ?thesis using Pub_ended mt_step.sub_join by blast
qed (blast intro: mt_step.intros)+

section \<open>Two runs\<close>

text \<open>
  A sample is written, taken and released before the publisher counts it: the release finds no
  credit.
\<close>

definition overtaken :: mt_state where
  "overtaken = mt_start\<lparr>cf_seq := 1, cf_sent := [1], cf_taken := [1], cf_stats := Record 0 True 0 mt_init,
     cf_sub := Sub_drain 1, cf_skipped := 1, cf_in_flight := 1\<rparr>"

lemma overtaken_reachable: "mt_reachable reliable overtaken"
proof -
  have "mt_reachable reliable (mt_start\<lparr>cf_pub := Pub_gate\<rparr>)"
    using reachable_step [OF reachable_start mt_step.pub_enter] by (simp add: mt_start_def)
  from reachable_step [OF this mt_step.pub_pass]
  have "mt_reachable reliable (mt_start\<lparr>cf_seq := 1, cf_pub := Pub_send\<rparr>)"
    by (simp add: mt_start_def max_in_flight_def)
  from reachable_step [OF this mt_step.pub_write]
  have "mt_reachable reliable (mt_start\<lparr>cf_seq := 1, cf_sent := [1], cf_queue := [1], cf_pub := Pub_count\<rparr>)"
    by (simp add: mt_start_def)
  from reachable_step [OF this mt_step.drain_take [of _ 0 1 "[]" reliable 0]]
  have "mt_reachable reliable (mt_start\<lparr>cf_seq := 1, cf_sent := [1], cf_taken := [1], cf_stats := Record 0 True 0 mt_init,
      cf_pub := Pub_count, cf_sub := Sub_load (After_drain 1)\<rparr>)"
    by (simp add: mt_start_def)
  from reachable_step [OF this mt_step.release_load]
  have "mt_reachable reliable (mt_start\<lparr>cf_seq := 1, cf_sent := [1], cf_taken := [1], cf_stats := Record 0 True 0 mt_init,
      cf_pub := Pub_count, cf_sub := Sub_cas (After_drain 1) 0\<rparr>)"
    by (simp add: mt_start_def)
  from reachable_step [OF this mt_step.release_skip [of _ "After_drain 1" 0 "Sub_drain 1"]]
  have "mt_reachable reliable (mt_start\<lparr>cf_seq := 1, cf_sent := [1], cf_taken := [1], cf_stats := Record 0 True 0 mt_init,
      cf_pub := Pub_count, cf_sub := Sub_drain 1, cf_skipped := 1\<rparr>)"
    by (simp add: mt_start_def)
  from reachable_step [OF this mt_step.pub_count] show ?thesis
    by (simp add: mt_start_def overtaken_def)
qed

text \<open>A best-effort middleware loses two samples.\<close>

definition lose_one :: "mt_state \<Rightarrow> mt_state" where
  "lose_one s = s\<lparr>cf_seq := cf_seq s + 1, cf_sent := cf_sent s @ [cf_seq s + 1], cf_queue := [], cf_lost := cf_lost s + 1,
     cf_in_flight := cf_in_flight s + 1, cf_pub := Pub_loop\<rparr>"

lemma lose_one_reachable:
  assumes "mt_reachable False s" and "cf_pub s = Pub_loop" "\<not> cf_stop s" "cf_queue s = []" "cf_in_flight s < max_in_flight"
  shows "mt_reachable False (lose_one s)"
proof -
  have "mt_reachable False (s\<lparr>cf_pub := Pub_gate\<rparr>)"
    using reachable_step [OF assms(1) mt_step.pub_enter] assms by simp
  from reachable_step [OF this mt_step.pub_pass] have "mt_reachable False (s\<lparr>cf_seq := cf_seq s + 1, cf_pub := Pub_send\<rparr>)"
    using assms by simp
  from reachable_step [OF this mt_step.pub_write] have "mt_reachable False (s\<lparr>cf_seq := cf_seq s + 1, cf_queue := [cf_seq s + 1],
      cf_sent := cf_sent s @ [cf_seq s + 1], cf_pub := Pub_count\<rparr>)"
    using assms by simp
  from reachable_step [OF this mt_step.lose [of _ _ "[]" "cf_seq s + 1" "[]"]] have
    "mt_reachable False (s\<lparr>cf_seq := cf_seq s + 1, cf_sent := cf_sent s @ [cf_seq s + 1], cf_pub := Pub_count,
      cf_queue := [], cf_lost := cf_lost s + 1\<rparr>)"
    by simp
  from reachable_step [OF this mt_step.pub_count] show ?thesis using assms by (simp add: lose_one_def)
qed

lemma two_lost_reachable: "mt_reachable False (lose_one (lose_one mt_start))"
  by (intro lose_one_reachable reachable_start) (simp_all add: lose_one_def mt_start_def max_in_flight_def)

section \<open>Properties\<close>

text \<open>
  C20. In every interleaving, the samples queued, being released, lost, and released without a
  credit are together the credits taken: never more than two, so that the counter stays in
  range and the ring of eight slots is never full; and at most one release in a whole run finds
  no credit.
\<close>

theorem credit_conservation:
  assumes "mt_reachable reliable s"
  shows "int (length (cf_queue s)) + releasing s + int (cf_skipped s) + int (cf_lost s) = cf_in_flight s + counting s \<and>
    0 \<le> cf_in_flight s \<and> cf_in_flight s + counting s \<le> max_in_flight \<and> length (cf_queue s) \<le> 2 \<and> cf_skipped s \<le> 1"
proof -
  have inv: "credit_inv s" using reachable_inv [OF assms] by blast
  moreover have "0 \<le> releasing s" by (simp add: releasing_def split: sub_pc.splits)
  ultimately show ?thesis by (simp add: credit_inv_def max_in_flight_def)
qed

lemma credit_conservation_witness:
  "cf_skipped overtaken = 1 \<and> cf_in_flight overtaken = 1 \<and> cf_queue overtaken = [] \<and> 0 \<le> cf_in_flight overtaken"
  using credit_conservation [OF overtaken_reachable [of True]] by (simp add: overtaken_def mt_start_def)

text \<open>
  Over a reliable middleware the benchmark thread takes the samples in the order they were
  written, each once, and records exactly those it has taken.
\<close>

theorem taken_in_order:
  assumes "mt_reachable True s"
  shows "cf_sent s = cf_taken s @ cf_queue s \<and> mt_n (cf_stats s) = of_nat (length (cf_taken s))"
  using reachable_inv [OF assms] by (simp add: flow_inv_def)

lemma taken_in_order_witness: "cf_sent overtaken = cf_taken overtaken \<and> cf_taken overtaken = [1]"
  using taken_in_order [OF overtaken_reachable] by (simp add: overtaken_def mt_start_def)

text \<open>
  C21. Over a reliable middleware the publisher is never starved: at the credit test, with no
  sample queued or being released, it finds a credit, in spite of a skipped release.
\<close>

theorem reliable_publisher_not_starved:
  assumes "mt_reachable True s" and "cf_pub s = Pub_gate" and "cf_queue s = []" and "releasing s = 0"
  shows "cf_in_flight s < max_in_flight \<and> mt_step True s (s\<lparr>cf_seq := cf_seq s + 1, cf_pub := Pub_send\<rparr>)"
proof -
  have "credit_inv s" "cf_lost s = 0" using reachable_inv [OF assms(1)] by (simp_all add: flow_inv_def)
  then have "cf_in_flight s < max_in_flight" using assms by (auto simp: credit_inv_def counting_def max_in_flight_def)
  then show ?thesis using mt_step.pub_pass assms(2) by blast
qed

lemma reliable_publisher_not_starved_witness:
  "cf_skipped (overtaken\<lparr>cf_pub := Pub_gate\<rparr>) = 1 \<and> cf_in_flight (overtaken\<lparr>cf_pub := Pub_gate\<rparr>) < max_in_flight"
proof -
  have "mt_reachable True (overtaken\<lparr>cf_pub := Pub_gate\<rparr>)"
    by (rule reachable_step [OF overtaken_reachable mt_step.pub_enter]) (simp_all add: overtaken_def mt_start_def)
  from reliable_publisher_not_starved [OF this] show ?thesis
    by (simp add: overtaken_def mt_start_def releasing_def)
qed

text \<open>
  C22. Once two samples are lost (or one is lost and one release was skipped), the benchmark is
  stalled for good: nothing is ever written, taken or measured again, in any continuation.
\<close>

theorem lost_credits_stall:
  assumes "mt_reachable reliable s" and "cf_skipped s + cf_lost s = 2" and "mt_runs reliable s s'"
  shows "cf_sent s' = cf_sent s \<and> cf_taken s' = cf_taken s \<and> cf_lats s' = cf_lats s"
  using no_credit_run [OF assms(3)] reachable_inv [OF assms(1)] assms(2) by (simp add: debt_def)

lemma lost_credits_stall_witness:
  "\<exists>s'. mt_runs False (lose_one (lose_one mt_start)) s' \<and> cf_pub s' = Pub_gate \<and> cf_sent s' = [1, 2] \<and> cf_taken s' = []"
proof -
  define s' where "s' = (lose_one (lose_one mt_start))\<lparr>cf_pub := Pub_gate\<rparr>"
  have run: "mt_runs False (lose_one (lose_one mt_start)) s'"
    unfolding s'_def by (rule mt_runs.further [OF mt_runs.here mt_step.pub_enter]) (simp_all add: lose_one_def mt_start_def)
  have "cf_skipped (lose_one (lose_one mt_start)) + cf_lost (lose_one (lose_one mt_start)) = 2"
    by (simp add: lose_one_def mt_start_def)
  from lost_credits_stall [OF two_lost_reachable this run] run show ?thesis
    by (intro exI [of _ s']) (simp add: s'_def lose_one_def mt_start_def)
qed

text \<open>
  C23. When the benchmark thread waits for the publisher thread at the end, every run is finite:
  the publisher only moves towards its end, and the run ends with the publisher joined.
\<close>

theorem join_terminates:
  assumes "mt_reachable reliable s" and "cf_sub s = Sub_joining"
  shows "Wellfounded.accp (\<lambda>y x. mt_step reliable x y) s \<and>
    (\<forall>s'. mt_runs reliable s s' \<longrightarrow> cf_pub s' \<le> cf_pub s) \<and>
    (\<forall>s'. mt_runs reliable s s' \<and> (\<nexists>s''. mt_step reliable s' s'') \<longrightarrow> cf_sub s' = Sub_ended \<and> cf_pub s' = Pub_ended)"
proof -
  have j: "joined s" using reachable_inv [OF assms(1)] assms(2) by (simp add: flow_inv_def joined_def)
  have "cf_sub s' = Sub_ended \<and> cf_pub s' = Pub_ended" if run: "mt_runs reliable s s'" "\<nexists>s''. mt_step reliable s' s''" for s'
  proof -
    have "joined s'" using joined_run_descends [OF run(1) j] by blast
    then have "cf_sub s' = Sub_ended" using joining_moves [of s' reliable] run(2) by (auto simp: joined_def)
    moreover have "flow_inv reliable s'" using invariants_run [OF run(1)] reachable_inv [OF assms(1)] by blast
    ultimately show ?thesis by (simp add: flow_inv_def)
  qed
  then show ?thesis using joined_ends [OF j] joined_run_descends [OF _ j] by blast
qed

lemma join_terminates_witness:
  "\<exists>s. cf_sub s = Sub_joining \<and> cf_pub s = Pub_loop \<and> Wellfounded.accp (\<lambda>y x. mt_step True x y) s"
proof -
  have "mt_reachable True (overtaken\<lparr>cf_sub := Sub_stopping\<rparr>)"
    by (rule reachable_step [OF overtaken_reachable mt_step.drain_failed [of _ 1]]) (simp_all add: overtaken_def mt_start_def)
  from reachable_step [OF this mt_step.sub_stop] have r: "mt_reachable True (overtaken\<lparr>cf_stop := True, cf_sub := Sub_joining\<rparr>)"
    by simp
  from join_terminates [OF this] show ?thesis
    by (intro exI [of _ "overtaken\<lparr>cf_stop := True, cf_sub := Sub_joining\<rparr>"]) (simp add: overtaken_def mt_start_def)
qed

end
