(* ===== verification/Net_Common.thy ===== *)
theory Net_Common
  imports Bench_Common
begin

text \<open>
  What the network command-line tools share (\<open>benchmarks/net/net_common.h\<close>): options, the
  \<open>host:port\<close> form of the peer, the CSV line and the two topic names.
\<close>

section \<open>Options\<close>

record Options_net =
  net_role :: string
  net_peer :: string
  net_channel :: string
  net_size :: u64
  net_count :: int
  net_disc_port :: int
  net_warmup :: int
  net_stack :: string

definition default_options_net :: Options_net where
  "default_options_net = \<lparr>net_role = '''', net_peer = '''', net_channel = ''bench/net'', net_size = 1024,
     net_count = 1000, net_disc_port = 7420, net_warmup = 50, net_stack = ''''\<rparr>"

section \<open>The peer\<close>

definition rfind :: "char \<Rightarrow> string \<Rightarrow> nat option" where
  "rfind c s = (if c \<in> set s then Some (length s - 1 - length (takeWhile (\<lambda>x. x \<noteq> c) (rev s))) else None)"

text \<open>
  \<open>ParseHostPort\<close>: the result and the two output parameters, which start as \<open>host\<close> and
  \<open>port\<close>; \<open>atoi\<close> of an out-of-range number is undefined.
\<close>

definition ParseHostPort :: "string \<Rightarrow> string \<Rightarrow> int \<Rightarrow> (bool \<times> string \<times> int) res" where
  "ParseHostPort peer host port =
     (case rfind CHR '':'' peer of
        None \<Rightarrow> Inr (False, host, port)
      | Some colon \<Rightarrow>
          if colon = 0 \<or> length peer \<le> colon + 1 then Inr (False, host, port)
          else let host = take colon peer in
            case atoi (drop (colon + 1) peer) of
              None \<Rightarrow> Inl Int_overflow
            | Some port \<Rightarrow> Inr (host \<noteq> '''' \<and> 0 < port, host, port))"

section \<open>The command line\<close>

datatype net_error =
    Net_help
  | Net_unknown_arg string
  | Role_required
  | Peer_required
  | Invalid_size_count
  | Net_undefined_number

definition net_int_arg :: "string \<Rightarrow> (int \<Rightarrow> 'o) \<Rightarrow> net_error + 'o" where
  "net_int_arg v upd = (case atoi v of None \<Rightarrow> Inl Net_undefined_number | Some i \<Rightarrow> Inr (upd i))"

definition net_parse_arg :: "string \<Rightarrow> Options_net \<Rightarrow> net_error + Options_net" where
  "net_parse_arg a out =
     (case take_value a ''--role='' of Some v \<Rightarrow> Inr (out\<lparr>net_role := v\<rparr>) | None \<Rightarrow>
      case take_value a ''--peer='' of Some v \<Rightarrow> Inr (out\<lparr>net_peer := v\<rparr>) | None \<Rightarrow>
      case take_value a ''--channel='' of Some v \<Rightarrow> Inr (out\<lparr>net_channel := v\<rparr>) | None \<Rightarrow>
      case take_value a ''--size='' of Some v \<Rightarrow> Inr (out\<lparr>net_size := strtoull v\<rparr>) | None \<Rightarrow>
      case take_value a ''--count='' of Some v \<Rightarrow> net_int_arg v (\<lambda>i. out\<lparr>net_count := i\<rparr>) | None \<Rightarrow>
      case take_value a ''--disc-port='' of Some v \<Rightarrow> net_int_arg v (\<lambda>i. out\<lparr>net_disc_port := i\<rparr>) | None \<Rightarrow>
      case take_value a ''--warmup='' of Some v \<Rightarrow> net_int_arg v (\<lambda>i. out\<lparr>net_warmup := i\<rparr>) | None \<Rightarrow>
      if a = ''--help'' \<or> a = ''-h'' then Inl Net_help else Inl (Net_unknown_arg a))"

definition ParseOptions_net :: "string list \<Rightarrow> Options_net \<Rightarrow> net_error + Options_net" where
  "ParseOptions_net args out =
     rbind (foldE net_parse_arg args out) (\<lambda>out.
     if net_role out \<noteq> ''pub'' \<and> net_role out \<noteq> ''sub'' then Inl Role_required
     else if net_role out = ''pub'' \<and> net_peer out = '''' then Inl Peer_required
     else if net_size out = 0 \<or> net_count out \<le> 0 then Inl Invalid_size_count
     else Inr out)"

section \<open>The report and the topics\<close>

definition PrintCsv_net :: "Options_net \<Rightarrow> rat list \<Rightarrow> string res" where
  "PrintCsv_net opt half_rtt_us =
     rbind (PercentileUs_net half_rtt_us p50) (\<lambda>lo. rbind (PercentileUs_net half_rtt_us p99) (\<lambda>hi.
     Inr (join '','' [net_stack opt, show_nat (unat (net_size opt)), show_nat (length half_rtt_us),
       show_fixed 3 (MeanUs_net half_rtt_us), show_fixed 3 lo, show_fixed 3 hi] @ ''\<newline>'')))"

definition ReqKey :: "Options_net \<Rightarrow> string" where "ReqKey opt = net_channel opt @ ''/req''"
definition RepKey :: "Options_net \<Rightarrow> string" where "RepKey opt = net_channel opt @ ''/rep''"

section \<open>Lemmas\<close>

lemma ReqKey_neq_RepKey: "ReqKey opt \<noteq> RepKey opt'"
proof
  assume "ReqKey opt = RepKey opt'"
  then have "last (ReqKey opt) = last (RepKey opt')" by simp
  then show False by (simp add: ReqKey_def RepKey_def)
qed

lemma rfind_last:
  assumes "c \<notin> set t" shows "rfind c (s @ c # t) = Some (length s)"
proof -
  have "takeWhile (\<lambda>x. x \<noteq> c) (rev (s @ c # t)) = rev t"
    using assms by (simp add: takeWhile_append)
  then show ?thesis by (simp add: rfind_def)
qed

lemma rfind_Some: "rfind c s = Some i \<Longrightarrow> \<exists>t. s = take i s @ c # t \<and> c \<notin> set t \<and> i < length s"
proof -
  assume r: "rfind c s = Some i"
  then have "c \<in> set s" by (auto simp: rfind_def split: if_splits)
  then obtain u t where s: "s = u @ c # t" "c \<notin> set t" by (metis split_list_last)
  then have "i = length u" using r rfind_last [OF s(2), of u] by simp
  then show ?thesis using s by auto
qed

lemma digits_no_colon:
  assumes "\<forall>d\<in>set ds. d < 10" shows "CHR '':'' \<notin> set (map digit_char ds)"
  using assms digit_char_neq by fastforce

lemma show_nat_no_colon [simp]: "CHR '':'' \<notin> set (show_nat n)"
  using digits_no_colon [OF digits_of_less] by (simp add: show_nat_digits)

lemma show_nat_nonempty [simp]: "show_nat n \<noteq> []"
  by (subst show_nat.simps) simp

lemma atoi_show_nat: "n < 2 ^ 31 \<Longrightarrow> atoi (show_nat n) = Some (int n)"
  using atoi_show_int [of "int n"] by (simp add: show_int_def int_range_def)

lemma ParseHostPort_render:
  assumes "host \<noteq> ''''" and "0 < n" and "n < 2 ^ 31"
  shows "ParseHostPort (host @ CHR '':'' # show_nat n) h0 p0 = Inr (True, host, int n)"
proof -
  have "0 < length (show_nat n)" by simp
  then show ?thesis using assms by (simp add: ParseHostPort_def rfind_last atoi_show_nat)
qed

text \<open>What success says of the peer, and that failure before the colon test leaves the outputs alone.\<close>

lemma ParseHostPort_sound:
  assumes "ParseHostPort peer h0 p0 = Inr (True, host, port)"
  shows "\<exists>rest. peer = host @ CHR '':'' # rest \<and> host \<noteq> '''' \<and> rest \<noteq> '''' \<and> CHR '':'' \<notin> set rest \<and>
    atoi rest = Some port \<and> 0 < port"
proof -
  obtain colon where c: "rfind CHR '':'' peer = Some colon" "colon \<noteq> 0" "colon + 1 < length peer"
    "host = take colon peer" "atoi (drop (colon + 1) peer) = Some port" "0 < port"
    using assms by (auto simp: ParseHostPort_def Let_def split: option.splits if_splits)
  obtain t where t: "peer = take colon peer @ CHR '':'' # t" "CHR '':'' \<notin> set t"
    using rfind_Some [OF c(1)] by blast
  have "drop (colon + 1) peer = t"
    using c(3) arg_cong [OF t(1), of "drop (colon + 1)"] by simp
  then show ?thesis using c t by (intro exI [of _ t]) auto
qed

definition net_options_ok :: "Options_net \<Rightarrow> bool" where
  "net_options_ok o' \<longleftrightarrow> net_role o' \<in> {''pub'', ''sub''} \<and> (net_role o' = ''pub'' \<longrightarrow> net_peer o' \<noteq> '''') \<and>
     0 < net_size o' \<and> 0 < net_count o'"

definition net_options_in_range :: "Options_net \<Rightarrow> bool" where
  "net_options_in_range o' \<longleftrightarrow>
     int_range (net_count o') \<and> int_range (net_warmup o') \<and> int_range (net_disc_port o')"

lemma ParseOptions_net_ok: "ParseOptions_net args out = Inr out' \<Longrightarrow> net_options_ok out'"
  by (auto simp: ParseOptions_net_def res_simps net_options_ok_def word_gt_0 split: if_splits)

lemma net_parse_arg_range:
  "net_parse_arg a out = Inr out' \<Longrightarrow> net_options_in_range out \<Longrightarrow> net_options_in_range out'"
  by (auto simp: net_parse_arg_def net_int_arg_def net_options_in_range_def dest: atoi_range split: option.splits if_splits)

lemma ParseOptions_net_range:
  assumes "ParseOptions_net args default_options_net = Inr out" shows "net_options_in_range out"
proof -
  have "foldE net_parse_arg args default_options_net = Inr out"
    using assms by (auto simp: ParseOptions_net_def res_simps split: if_splits)
  moreover have "net_options_in_range default_options_net"
    by (simp add: net_options_in_range_def default_options_net_def int_range_def)
  ultimately show ?thesis by (rule foldE_invariant) (rule net_parse_arg_range)
qed

definition net_render_args :: "Options_net \<Rightarrow> string list" where
  "net_render_args o' =
     [''--role='' @ net_role o', ''--peer='' @ net_peer o', ''--channel='' @ net_channel o',
      ''--size='' @ show_nat (unat (net_size o')), ''--count='' @ show_int (net_count o'),
      ''--disc-port='' @ show_int (net_disc_port o'), ''--warmup='' @ show_int (net_warmup o')]"

lemma net_parse_arg_rendered [simp]:
  "net_parse_arg (''--role='' @ v) out = Inr (out\<lparr>net_role := v\<rparr>)"
  "net_parse_arg (''--peer='' @ v) out = Inr (out\<lparr>net_peer := v\<rparr>)"
  "net_parse_arg (''--channel='' @ v) out = Inr (out\<lparr>net_channel := v\<rparr>)"
  "net_parse_arg (''--size='' @ v) out = Inr (out\<lparr>net_size := strtoull v\<rparr>)"
  "net_parse_arg (''--count='' @ v) out = net_int_arg v (\<lambda>i. out\<lparr>net_count := i\<rparr>)"
  "net_parse_arg (''--disc-port='' @ v) out = net_int_arg v (\<lambda>i. out\<lparr>net_disc_port := i\<rparr>)"
  "net_parse_arg (''--warmup='' @ v) out = net_int_arg v (\<lambda>i. out\<lparr>net_warmup := i\<rparr>)"
  by (simp_all add: net_parse_arg_def take_value_def StartsWith_def)

lemma ParseOptions_net_render_from:
  assumes "net_options_ok o'" and "net_options_in_range o'" and "net_stack d = net_stack o'"
  shows "ParseOptions_net (net_render_args o') d = Inr o'"
proof -
  have "foldE net_parse_arg (net_render_args o') d = Inr o'"
    using assms(2,3) unfolding net_render_args_def foldE.simps net_parse_arg_rendered
    by (simp add: net_int_arg_def net_options_in_range_def)
  then show ?thesis using assms(1) by (auto simp: ParseOptions_net_def net_options_ok_def)
qed

lemma ParseOptions_net_render:
  assumes "net_options_ok o'" and "net_options_in_range o'"
  shows "ParseOptions_net (net_render_args o') (default_options_net\<lparr>net_stack := net_stack o'\<rparr>) = Inr o'"
  using ParseOptions_net_render_from [OF assms] by simp

lemma PrintCsv_net_total:
  assumes "length lat \<le> 2 ^ 53" shows "\<exists>line. PrintCsv_net opt lat = Inr line"
proof -
  obtain a where "PercentileUs lat p50 = Inr a"
    using PercentileUs_total [of p50] assms by (auto simp: p50_def)
  moreover obtain b where "PercentileUs lat p99 = Inr b"
    using PercentileUs_total [OF p99_bounds assms] by blast
  ultimately show ?thesis by (simp add: PrintCsv_net_def percentile_copies)
qed

end
