(* ===== verification/Echo_Link.thy ===== *)
theory Echo_Link
  imports Net_Common
begin

text \<open>
  The ping-pong of the network tools (\<open>benchmarks/net/*_net.cc\<close>): the publisher sends a
  sequence number, waits for its echo and halves the round-trip time. The three tools repeat
  the same two loops over their own send and receive functions; the loops are defined here
  once over those functions, and a locale states what each tool's functions promise. The
  middleware behind them is not part of the repository: it is a world \<open>'w\<close> and functions on
  it, arguments of the definitions. What the program does is recorded in a log.
\<close>

section \<open>The log\<close>

text \<open>
  \<open>Clock t\<close>: the program read its clock around a round. \<open>Sent seq ns\<close>: a sample was handed to
  the middleware and accepted. \<open>Got seq\<close>: a sample was received. \<open>Call f n\<close>: a release call \<open>f\<close> on the entity \<open>n\<close>.
\<close>

datatype link_event =
    Clock u64
  | Sent u64 u64
  | Got u64
  | Call string int

record 'w link =
  lk_env :: 'w
  lk_log :: "link_event list"

definition note_event :: "link_event \<Rightarrow> 'w link \<Rightarrow> 'w link" where
  "note_event e s = s\<lparr>lk_log := lk_log s @ [e]\<rparr>"

text \<open>
  A call on the world. \<open>steady_clock\<close> readings are nanosecond counts; \<open>NowNs\<close> converts them
  to 64 bits.
\<close>

definition on_env :: "('w \<Rightarrow> 'a \<times> 'w) \<Rightarrow> 'w link \<Rightarrow> 'a \<times> 'w link" where
  "on_env f s = (case f (lk_env s) of (a, w) \<Rightarrow> (a, s\<lparr>lk_env := w\<rparr>))"

definition env_do :: "('w \<Rightarrow> 'w) \<Rightarrow> 'w link \<Rightarrow> 'w link" where
  "env_do f s = s\<lparr>lk_env := f (lk_env s)\<rparr>"

lemma env_do_log [simp]: "lk_log (env_do f s) = lk_log s"
  by (simp add: env_do_def)

definition NowNs :: "('w \<Rightarrow> int \<times> 'w) \<Rightarrow> 'w link \<Rightarrow> u64 \<times> 'w link" where
  "NowNs clock s = (case on_env clock s of (t, s) \<Rightarrow> (word_of_int t, s))"

definition round_clock :: "('w \<Rightarrow> int \<times> 'w) \<Rightarrow> 'w link \<Rightarrow> u64 \<times> 'w link" where
  "round_clock clock s = (case NowNs clock s of (t, s) \<Rightarrow> (t, note_event (Clock t) s))"

lemma on_env_log [simp]: "on_env f s = (a, s') \<Longrightarrow> lk_log s' = lk_log s"
  by (auto simp: on_env_def split: prod.splits)

lemma NowNs_log [simp]: "NowNs clock s = (t, s') \<Longrightarrow> lk_log s' = lk_log s"
  by (auto simp: NowNs_def split: prod.splits)

lemma round_clock_log: "round_clock clock s = (t, s') \<Longrightarrow> lk_log s' = lk_log s @ [Clock t]"
  by (auto simp: round_clock_def note_event_def split: prod.splits)

section \<open>The two loops\<close>

datatype send_outcome = Sent_ok | Send_failed | Send_threw string

datatype round_error =
    Publish_failed u64
  | Echo_timeout u64
  | Round_threw string

text \<open>The probes of the link-up loop: one attempt and one pause per probe, until one is echoed.\<close>

fun link_probes ::
  "(u64 \<Rightarrow> 's \<Rightarrow> ((string + bool) \<times> 's) option) \<Rightarrow> ('s \<Rightarrow> 's) \<Rightarrow> u64 list \<Rightarrow> 's \<Rightarrow> ((string + bool) \<times> 's) option" where
  "link_probes attempt pause [] s = Some (Inr False, s)"
| "link_probes attempt pause (p # ps) s =
     (case attempt p s of
        None \<Rightarrow> None
      | Some (Inl m, s) \<Rightarrow> Some (Inl m, s)
      | Some (Inr linked, s) \<Rightarrow>
          let s = pause s in if linked then Some (Inr True, s) else link_probes attempt pause ps s)"

definition lit_1em3 :: rat where "lit_1em3 = fl (1 / 1000)"

text \<open>\<open>static_cast<double>(t1 - t0) / 2.0 * 1e-3\<close>\<close>

definition half_rtt :: "u64 \<Rightarrow> u64 \<Rightarrow> rat" where
  "half_rtt t0 t1 = fl (fl (dbl_of_u64 (t1 - t0) / 2) * lit_1em3)"

fun echo_rounds ::
  "(u64 \<Rightarrow> 's \<Rightarrow> send_outcome \<times> 's) \<Rightarrow> (u64 \<Rightarrow> 's \<Rightarrow> (bool \<times> 's) option) \<Rightarrow> ('s \<Rightarrow> u64 \<times> 's)
   \<Rightarrow> int \<Rightarrow> nat list \<Rightarrow> u64 \<Rightarrow> rat list \<Rightarrow> 's \<Rightarrow> ((round_error + rat list) \<times> 's) option" where
  "echo_rounds send recv clock warmup [] sq half_us s = Some (Inr half_us, s)"
| "echo_rounds send recv clock warmup (i # is) sq half_us s =
     (let sq = sq + 1; (t0, s) = clock s in
      case send sq s of
        (Send_threw m, s) \<Rightarrow> Some (Inl (Round_threw m), s)
      | (Send_failed, s) \<Rightarrow> Some (Inl (Publish_failed sq), s)
      | (Sent_ok, s) \<Rightarrow>
          (case recv sq s of
             None \<Rightarrow> None
           | Some (False, s) \<Rightarrow> Some (Inl (Echo_timeout sq), s)
           | Some (True, s) \<Rightarrow>
               let (t1, s) = clock s;
                   half_us = (if warmup \<le> int i then half_us @ [half_rtt t0 t1] else half_us) in
               echo_rounds send recv clock warmup is sq half_us s))"

section \<open>What a round leaves in the log\<close>

text \<open>A round: first clock reading, number, send time, numbers of stale samples skipped, second reading.\<close>

type_synonym echo_round = "u64 \<times> u64 \<times> u64 \<times> u64 list \<times> u64"

fun round_events :: "echo_round \<Rightarrow> link_event list" where
  "round_events (t0, sq, ns, stale, t1) = [Clock t0, Sent sq ns] @ map Got stale @ [Got sq, Clock t1]"

definition round_no :: "echo_round \<Rightarrow> u64" where
  "round_no r = (case r of (t0, sq, ns, stale, t1) \<Rightarrow> sq)"

definition round_half :: "echo_round \<Rightarrow> rat" where
  "round_half r = (case r of (t0, sq, ns, stale, t1) \<Rightarrow> half_rtt t0 t1)"

locale echo_link =
  fixes send :: "u64 \<Rightarrow> 's \<Rightarrow> send_outcome \<times> 's"
    and recv :: "u64 \<Rightarrow> 's \<Rightarrow> (bool \<times> 's) option"
    and clock :: "'s \<Rightarrow> u64 \<times> 's"
    and log :: "'s \<Rightarrow> link_event list"
  assumes send_ok: "send sq s = (Sent_ok, s') \<Longrightarrow> \<exists>ns. log s' = log s @ [Sent sq ns]"
    and recv_found: "recv sq s = Some (True, s') \<Longrightarrow> \<exists>stale. log s' = log s @ map Got stale @ [Got sq]"
    and clock_log: "clock s = (t, s') \<Longrightarrow> log s' = log s @ [Clock t]"
begin

lemma echo_rounds_log:
  assumes "echo_rounds send recv clock warmup is sq half s = Some (Inr half', s')"
  shows "\<exists>rounds. map round_no rounds = map (\<lambda>k. sq + 1 + of_nat k) [0..<length is] \<and>
    log s' = log s @ concat (map round_events rounds) \<and>
    half' = half @ map (\<lambda>k. round_half (rounds ! k)) (filter (\<lambda>k. warmup \<le> int (is ! k)) [0..<length is])"
  using assms
proof (induction "is" arbitrary: sq half s)
  case Nil
  then show ?case by simp
next
  case (Cons i "is")
  obtain t0 s1 where c0: "clock s = (t0, s1)" by fastforce
  obtain s2 where sd: "send (sq + 1) s1 = (Sent_ok, s2)"
    using Cons.prems c0 by (auto simp: Let_def split: send_outcome.splits prod.splits)
  obtain s3 where rc: "recv (sq + 1) s2 = Some (True, s3)"
    using Cons.prems c0 sd by (auto simp: Let_def split: option.splits prod.splits bool.splits)
  obtain t1 s4 where c1: "clock s3 = (t1, s4)" by fastforce
  let ?half = "if warmup \<le> int i then half @ [half_rtt t0 t1] else half"
  have rest: "echo_rounds send recv clock warmup is (sq + 1) ?half s4 = Some (Inr half', s')"
    using Cons.prems c0 sd rc c1 by (simp add: Let_def)
  obtain rounds where IH: "map round_no rounds = map (\<lambda>k. sq + 1 + 1 + of_nat k) [0..<length is]"
    "log s' = log s4 @ concat (map round_events rounds)"
    "half' = ?half @ map (\<lambda>k. round_half (rounds ! k)) (filter (\<lambda>k. warmup \<le> int (is ! k)) [0..<length is])"
    using Cons.IH [OF rest] by blast
  obtain ns where l2: "log s2 = log s1 @ [Sent (sq + 1) ns]" using send_ok [OF sd] by blast
  obtain stale where l3: "log s3 = log s2 @ map Got stale @ [Got (sq + 1)]" using recv_found [OF rc] by blast
  define r where "r = (t0, sq + 1, ns, stale, t1)"
  have "log s4 = log s @ round_events r"
    using clock_log [OF c0] clock_log [OF c1] l2 l3 by (simp add: r_def)
  moreover have "filter (\<lambda>k. warmup \<le> int ((i # is) ! k)) [0..<length (i # is)] =
      (if warmup \<le> int i then [0] else []) @ map Suc (filter (\<lambda>k. warmup \<le> int (is ! k)) [0..<length is])"
    by (simp add: upt_conv_Cons map_Suc_upt [symmetric] filter_map o_def del: upt_Suc)
  moreover have "round_no r = sq + 1" "round_half r = half_rtt t0 t1"
    by (simp_all add: r_def round_no_def round_half_def)
  moreover have "map (\<lambda>k. sq + 1 + of_nat k) [0..<length (i # is)] = (sq + 1) # map (\<lambda>k. sq + 1 + 1 + of_nat k) [0..<length is]"
    by (simp add: map_upt_Suc add.assoc del: upt_Suc)
  ultimately show ?case
    using IH by (intro exI [of _ "r # rounds"]) (simp del: upt_Suc)
qed

text \<open>The round that failed, when one did: all earlier rounds were completed.\<close>

lemma echo_rounds_error:
  assumes "echo_rounds send recv clock warmup is sq half s = Some (Inl e, s')"
  shows "\<exists>k<length is. e \<in> {Publish_failed (sq + 1 + of_nat k), Echo_timeout (sq + 1 + of_nat k)} \<or> (\<exists>m. e = Round_threw m)"
  using assms
proof (induction "is" arbitrary: sq half s)
  case (Cons i "is")
  obtain t0 s1 where c0: "clock s = (t0, s1)" by fastforce
  obtain r s2 where sd: "send (sq + 1) s1 = (r, s2)" by fastforce
  show ?case
  proof (cases "r = Sent_ok \<and> (\<exists>s3. recv (sq + 1) s2 = Some (True, s3))")
    case False
    then have "e \<in> {Publish_failed (sq + 1), Echo_timeout (sq + 1)} \<or> (\<exists>m. e = Round_threw m)"
      using Cons.prems c0 sd by (auto simp: Let_def split: send_outcome.splits option.splits bool.splits)
    then show ?thesis by (intro exI [of _ 0]) simp
  next
    case True
    then obtain s3 t1 s4 where s3: "recv (sq + 1) s2 = Some (True, s3)" "clock s3 = (t1, s4)" by fastforce
    then have "echo_rounds send recv clock warmup is (sq + 1)
        (if warmup \<le> int i then half @ [half_rtt t0 t1] else half) s4 = Some (Inl e, s')"
      using Cons.prems c0 sd True by (simp add: Let_def)
    from Cons.IH [OF this] obtain k where "k < length is"
      "e \<in> {Publish_failed (sq + 1 + 1 + of_nat k), Echo_timeout (sq + 1 + 1 + of_nat k)} \<or> (\<exists>m. e = Round_threw m)"
      by blast
    then show ?thesis by (intro exI [of _ "Suc k"]) (simp add: add.assoc)
  qed
qed simp

end

section \<open>Returning, and succeeding\<close>

text \<open>A link whose receive function always returns, from states that satisfy an invariant.\<close>

locale live_link =
  fixes send :: "u64 \<Rightarrow> 's \<Rightarrow> send_outcome \<times> 's"
    and recv :: "u64 \<Rightarrow> 's \<Rightarrow> (bool \<times> 's) option"
    and clock :: "'s \<Rightarrow> u64 \<times> 's"
    and live :: "'s \<Rightarrow> bool"
  assumes recv_returns: "live s \<Longrightarrow> \<exists>r s'. recv sq s = Some (r, s') \<and> live s'"
    and send_live: "live s \<Longrightarrow> live (snd (send sq s))"
    and clock_live: "live s \<Longrightarrow> live (snd (clock s))"
begin

lemma echo_rounds_returns:
  assumes "live s" shows "\<exists>r s'. echo_rounds send recv clock warmup is sq half s = Some (r, s')"
  using assms
proof (induction "is" arbitrary: sq half s)
  case (Cons i "is")
  obtain t0 s1 where c0: "clock s = (t0, s1)" by fastforce
  obtain r s2 where sd: "send (sq + 1) s1 = (r, s2)" by fastforce
  have "live s2" using send_live [of s1 "sq + 1"] clock_live [OF Cons.prems] c0 sd by simp
  then obtain g s3 where rc: "recv (sq + 1) s2 = Some (g, s3)" "live s3" using recv_returns by blast
  obtain t1 s4 where c1: "clock s3 = (t1, s4)" by fastforce
  have "live s4" using clock_live [OF rc(2)] c1 by simp
  then show ?case
    using Cons.IH c0 sd rc(1) c1 by (cases r; cases g) (simp_all add: Let_def)
qed simp

end

text \<open>A link on which every number sent from an idle state is received back, leaving it idle.\<close>

locale echoing_link =
  fixes send :: "u64 \<Rightarrow> 's \<Rightarrow> send_outcome \<times> 's"
    and recv :: "u64 \<Rightarrow> 's \<Rightarrow> (bool \<times> 's) option"
    and clock :: "'s \<Rightarrow> u64 \<times> 's"
    and idle :: "'s \<Rightarrow> bool"
  assumes clock_idle: "idle s \<Longrightarrow> idle (snd (clock s))"
    and round_trip: "idle s \<Longrightarrow> \<exists>s' s''. send sq s = (Sent_ok, s') \<and> recv sq s' = Some (True, s'') \<and> idle s''"
begin

lemma echo_rounds_succeeds:
  assumes "idle s"
  shows "\<exists>half' s'. echo_rounds send recv clock warmup is sq half s = Some (Inr half', s') \<and> idle s' \<and>
    length half' = length half + length (filter (\<lambda>i. warmup \<le> int i) is)"
  using assms
proof (induction "is" arbitrary: sq half s)
  case (Cons i "is")
  obtain t0 s1 where c0: "clock s = (t0, s1)" "idle s1"
    using clock_idle [OF Cons.prems] by (cases "clock s") auto
  obtain s2 s3 where s3: "send (sq + 1) s1 = (Sent_ok, s2)" "recv (sq + 1) s2 = Some (True, s3)" "idle s3"
    using round_trip [OF c0(2)] by blast
  obtain t1 s4 where c1: "clock s3 = (t1, s4)" "idle s4"
    using clock_idle [OF s3(3)] by (cases "clock s3") auto
  obtain half' s' where IH: "echo_rounds send recv clock warmup is (sq + 1)
      (if warmup \<le> int i then half @ [half_rtt t0 t1] else half) s4 = Some (Inr half', s')" "idle s'"
    "length half' = length (if warmup \<le> int i then half @ [half_rtt t0 t1] else half) +
       length (filter (\<lambda>i. warmup \<le> int i) is)"
    using Cons.IH [OF c1(2)] by blast
  then show ?case using c0(1) s3 c1(1) by (simp add: Let_def)
qed simp

end

text \<open>The number of rounds that are measured.\<close>

lemma measured_rounds:
  assumes "0 \<le> warmup" and "0 \<le> cnt"
  shows "length (filter (\<lambda>i. warmup \<le> int i) [0..<nat (warmup + cnt)]) = nat cnt"
proof -
  have "nat (warmup + cnt) = nat warmup + nat cnt" using assms by (simp add: nat_add_distrib)
  moreover have "filter (\<lambda>i. warmup \<le> int i) [0..<nat warmup] = []"
    by (auto simp: filter_empty_conv)
  moreover have "filter (\<lambda>i. warmup \<le> int i) [nat warmup..<nat warmup + nat cnt] = [nat warmup..<nat warmup + nat cnt]"
    unfolding filter_id_conv using assms by auto
  ultimately show ?thesis by (simp add: upt_add_eq_append [of 0 "nat warmup" "nat cnt"])
qed

section \<open>The publisher after its set-up\<close>

text \<open>
  Exit code and standard output of the timed loop and of the whole ping-pong; a fault is
  undefined behaviour or an uncaught exception. \<open>warmup + count\<close> is an \<open>int\<close> sum.
\<close>

definition timed_run ::
  "(u64 \<Rightarrow> 's \<Rightarrow> send_outcome \<times> 's) \<Rightarrow> (u64 \<Rightarrow> 's \<Rightarrow> (bool \<times> 's) option) \<Rightarrow> ('s \<Rightarrow> u64 \<times> 's)
   \<Rightarrow> Options_net \<Rightarrow> 's \<Rightarrow> ((nat \<times> string) res \<times> 's) option" where
  "timed_run send recv clock opt s =
     (let tot = net_warmup opt + net_count opt in
      if \<not> int_range tot then Some (Inl Int_overflow, s)
      else case echo_rounds send recv clock (net_warmup opt) [0..<nat tot] 1000 [] s of
             None \<Rightarrow> None
           | Some (Inl (Round_threw m), s) \<Rightarrow> Some (Inl (Thrown m), s)
           | Some (Inl _, s) \<Rightarrow> Some (Inr (1, ''''), s)
           | Some (Inr half_us, s) \<Rightarrow> Some (rbind (PrintCsv_net opt half_us) (\<lambda>line. Inr (0, line)), s))"

definition ping_pong ::
  "(u64 \<Rightarrow> 's \<Rightarrow> ((string + bool) \<times> 's) option) \<Rightarrow> ('s \<Rightarrow> 's) \<Rightarrow> nat
   \<Rightarrow> (u64 \<Rightarrow> 's \<Rightarrow> send_outcome \<times> 's) \<Rightarrow> (u64 \<Rightarrow> 's \<Rightarrow> (bool \<times> 's) option) \<Rightarrow> ('s \<Rightarrow> u64 \<times> 's)
   \<Rightarrow> Options_net \<Rightarrow> 's \<Rightarrow> ((nat \<times> string) res \<times> 's) option" where
  "ping_pong attempt pause probes send recv clock opt s =
     (case link_probes attempt pause (map (\<lambda>i. of_nat (i + 1)) [0..<probes]) s of
        None \<Rightarrow> None
      | Some (Inl m, s) \<Rightarrow> Some (Inl (Thrown m), s)
      | Some (Inr False, s) \<Rightarrow> Some (Inr (1, ''''), s)
      | Some (Inr True, s) \<Rightarrow> timed_run send recv clock opt s)"

lemma filter_from: "filter (\<lambda>k. w \<le> int k) [0..<n] = [nat w..<n]"
proof (induction n)
  case (Suc n)
  have "w \<le> int n \<longleftrightarrow> nat w \<le> n" by linarith
  then show ?case using Suc by simp
qed simp

text \<open>A publisher that exits with 0 was linked, completed every round and reports the rounds after the warm-up.\<close>

definition ping_pong_log :: "Options_net \<Rightarrow> nat \<Rightarrow> link_event list \<Rightarrow> string \<Rightarrow> bool" where
  "ping_pong_log opt probes es line \<longleftrightarrow>
     (\<exists>link rounds. es = link @ concat (map round_events rounds) \<and>
        (\<exists>p\<in>{1..probes}. link \<noteq> [] \<and> last link = Got (of_nat p)) \<and>
        map round_no rounds = map (\<lambda>k. 1001 + of_nat k) [0..<nat (net_warmup opt + net_count opt)] \<and>
        PrintCsv_net opt (map round_half (drop (nat (net_warmup opt)) rounds)) = Inr line)"

locale tool_link = echo_link +
  fixes attempt :: "u64 \<Rightarrow> 's \<Rightarrow> ((string + bool) \<times> 's) option" and pause :: "'s \<Rightarrow> 's"
  assumes attempt_log: "attempt p s = Some (Inr linked, s') \<Longrightarrow>
      \<exists>es. log s' = log s @ es \<and> (linked \<longrightarrow> es \<noteq> [] \<and> last es = Got p)"
    and pause_log: "log (pause s) = log s"
begin

lemma link_probes_log:
  assumes "link_probes attempt pause ps s = Some (Inr linked, s')"
  shows "\<exists>es. log s' = log s @ es \<and> (linked \<longrightarrow> es \<noteq> [] \<and> (\<exists>p\<in>set ps. last es = Got p))"
  using assms
proof (induction ps arbitrary: s)
  case (Cons p ps)
  obtain l s1 where a: "attempt p s = Some (Inr l, s1)"
    using Cons.prems by (auto split: option.splits sum.splits)
  then obtain es where es: "log s1 = log s @ es" "l \<longrightarrow> es \<noteq> [] \<and> last es = Got p" using attempt_log by blast
  show ?case
  proof (cases l)
    case True
    then show ?thesis using Cons.prems a es pause_log by (auto simp: Let_def)
  next
    case False
    then obtain fs where "log s' = log (pause s1) @ fs" "linked \<longrightarrow> fs \<noteq> [] \<and> (\<exists>p\<in>set ps. last fs = Got p)"
      using Cons.IH [of "pause s1"] Cons.prems a by (auto simp: Let_def)
    then show ?thesis using es pause_log by (intro exI [of _ "es @ fs"]) auto
  qed
qed simp

lemma ping_pong_ok:
  assumes "ping_pong attempt pause probes send recv clock opt s = Some (Inr (0, line), s')"
  shows "\<exists>es. log s' = log s @ es \<and> ping_pong_log opt probes es line"
proof -
  obtain s1 where l: "link_probes attempt pause (map (\<lambda>i. of_nat (i + 1)) [0..<probes]) s = Some (Inr True, s1)"
    and t: "timed_run send recv clock opt s1 = Some (Inr (0, line), s')"
    using assms by (auto simp: ping_pong_def split: option.splits sum.splits bool.splits)
  obtain es where es: "log s1 = log s @ es" "es \<noteq> []" "\<exists>p\<in>{1..probes}. last es = Got (of_nat p)"
    using link_probes_log [OF l] by force
  let ?n = "nat (net_warmup opt + net_count opt)"
  obtain half where h: "echo_rounds send recv clock (net_warmup opt) [0..<?n] 1000 [] s1 = Some (Inr half, s')"
    "PrintCsv_net opt half = Inr line"
    using t by (auto simp: timed_run_def Let_def res_simps split: option.splits sum.splits round_error.splits if_splits)
  obtain rounds where r: "map round_no rounds = map (\<lambda>k. 1000 + 1 + of_nat k) [0..<?n]"
    "log s' = log s1 @ concat (map round_events rounds)"
    "half = map (\<lambda>k. round_half (rounds ! k)) (filter (\<lambda>k. net_warmup opt \<le> int ([0..<?n] ! k)) [0..<?n])"
    using echo_rounds_log [OF h(1)] by auto
  have len: "length rounds = ?n" using arg_cong [OF r(1), of length] by simp
  have "filter (\<lambda>k. net_warmup opt \<le> int ([0..<?n] ! k)) [0..<?n] = filter (\<lambda>k. net_warmup opt \<le> int k) [0..<?n]"
    by (rule filter_cong) auto
  then have "half = map round_half (drop (nat (net_warmup opt)) rounds)"
    using r(3) len by (intro nth_equalityI) (auto simp: filter_from)
  then show ?thesis
    using es r(1,2) h(2) unfolding ping_pong_log_def
    by (intro exI [of _ "es @ concat (map round_events rounds)"]) auto
qed

end

locale live_tool = live_link +
  fixes attempt :: "u64 \<Rightarrow> 's \<Rightarrow> ((string + bool) \<times> 's) option" and pause :: "'s \<Rightarrow> 's"
  assumes attempt_returns: "live s \<Longrightarrow> \<exists>r s'. attempt p s = Some (r, s') \<and> live s'"
    and pause_live: "live s \<Longrightarrow> live (pause s)"
begin

lemma link_probes_returns:
  "live s \<Longrightarrow> \<exists>r s'. link_probes attempt pause ps s = Some (r, s') \<and> live s'"
proof (induction ps arbitrary: s)
  case (Cons p ps)
  obtain r s1 where "attempt p s = Some (r, s1)" "live s1" using attempt_returns [OF Cons.prems] by blast
  then show ?case using Cons.IH [of "pause s1"] pause_live by (cases r) (auto simp: Let_def)
qed simp

lemma ping_pong_returns:
  assumes "live s" shows "\<exists>r s'. ping_pong attempt pause probes send recv clock opt s = Some (r, s')"
proof -
  let ?ps = "map (\<lambda>i. of_nat (i + 1)) [0..<probes]"
  obtain r s1 where l: "link_probes attempt pause ?ps s = Some (r, s1)" "live s1"
    using link_probes_returns [OF assms] by blast
  have "\<exists>r s'. timed_run send recv clock opt s1 = Some (r, s')"
    using echo_rounds_returns [OF l(2), of "net_warmup opt" "[0..<nat (net_warmup opt + net_count opt)]" 1000 "[]"]
    by (auto simp: timed_run_def Let_def split: sum.splits round_error.splits)
  then show ?thesis using l(1) by (auto simp: ping_pong_def split: sum.splits bool.splits)
qed

end

locale echoing_tool = echoing_link +
  fixes attempt :: "u64 \<Rightarrow> 's \<Rightarrow> ((string + bool) \<times> 's) option" and pause :: "'s \<Rightarrow> 's"
  assumes attempt_links: "idle s \<Longrightarrow> \<exists>s'. attempt p s = Some (Inr True, s') \<and> idle s'"
    and pause_idle: "idle s \<Longrightarrow> idle (pause s)"
begin

lemma ping_pong_succeeds:
  assumes "idle s" and "0 < probes" and o': "0 \<le> net_warmup opt" "0 \<le> net_count opt" "int_range (net_warmup opt + net_count opt)"
  shows "\<exists>half line s'. ping_pong attempt pause probes send recv clock opt s = Some (Inr (0, line), s') \<and>
    PrintCsv_net opt half = Inr line \<and> length half = nat (net_count opt)"
proof -
  obtain ps where ps: "map (\<lambda>i. of_nat (i + 1)) [0..<probes] = (1 :: u64) # ps"
    using assms(2) by (auto simp: upt_conv_Cons)
  obtain s1 where "attempt 1 s = Some (Inr True, s1)" "idle s1" using attempt_links [OF assms(1)] by blast
  then have l: "link_probes attempt pause (1 # ps) s = Some (Inr True, pause s1)" "idle (pause s1)"
    using pause_idle by (simp_all add: Let_def)
  let ?n = "nat (net_warmup opt + net_count opt)"
  obtain half s' where h: "echo_rounds send recv clock (net_warmup opt) [0..<?n] 1000 [] (pause s1) = Some (Inr half, s')"
    "length half = nat (net_count opt)"
    using echo_rounds_succeeds [OF l(2), of "net_warmup opt" "[0..<?n]" 1000 "[]"] measured_rounds [OF o'(1,2)] by auto
  have "nat (net_count opt) \<le> 2 ^ 53" using o' by (simp add: int_range_def)
  then obtain line where "PrintCsv_net opt half = Inr line" using PrintCsv_net_total h(2) by metis
  then show ?thesis
    unfolding ping_pong_def timed_run_def ps l(1) using h o'(3)
    by (intro exI [of _ half] exI [of _ line] exI [of _ s']) (simp add: Let_def)
qed

end

section \<open>The echo server\<close>

text \<open>
  The subscriber's loop never returns but on an error, so it is run for a number of iterations:
  the exit code or exception if it ended, or that it is still running.
\<close>

fun iterate_echo :: "('s \<Rightarrow> 'e option \<times> 's) \<Rightarrow> nat \<Rightarrow> 's \<Rightarrow> 'e option \<times> 's" where
  "iterate_echo body 0 s = (None, s)"
| "iterate_echo body (Suc n) s =
     (case body s of (Some code, s) \<Rightarrow> (Some code, s) | (None, s) \<Rightarrow> iterate_echo body n s)"

definition echoed_events :: "(u64 \<times> u64) list \<Rightarrow> link_event list" where
  "echoed_events ps = concat (map (\<lambda>(sq, ns). [Got sq, Sent sq ns]) ps)"

locale echo_server =
  fixes body :: "'s \<Rightarrow> 'e option \<times> 's" and log :: "'s \<Rightarrow> link_event list"
  assumes body_log: "body s = (None, s') \<Longrightarrow> \<exists>ps. length ps \<le> 1 \<and> log s' = log s @ echoed_events ps"
    and body_exit: "body s = (Some code, s') \<Longrightarrow> \<exists>gs. log s' = log s @ map Got gs"
begin

lemma iterate_echo_log:
  assumes "iterate_echo body n s = (code, s')"
  shows "\<exists>ps gs. length ps \<le> n \<and> log s' = log s @ echoed_events ps @ map Got gs \<and> (code = None \<longrightarrow> gs = [])"
  using assms
proof (induction n arbitrary: s)
  case 0
  then show ?case by (auto simp: echoed_events_def intro: exI [of _ "[]"])
next
  case (Suc n)
  obtain r s1 where b: "body s = (r, s1)" by fastforce
  show ?case
  proof (cases r)
    case (Some c)
    then have "code = Some c" "s' = s1" using Suc.prems b by auto
    moreover obtain gs where "log s1 = log s @ map Got gs" using body_exit b Some by blast
    ultimately show ?thesis by (intro exI [of _ "[]"] exI [of _ gs]) (simp add: echoed_events_def)
  next
    case None
    then have "iterate_echo body n s1 = (code, s')" using Suc.prems b by simp
    then obtain ps gs where IH: "length ps \<le> n" "log s' = log s1 @ echoed_events ps @ map Got gs" "code = None \<longrightarrow> gs = []"
      using Suc.IH by blast
    obtain qs where "length qs \<le> 1" "log s1 = log s @ echoed_events qs" using body_log b None by blast
    then show ?thesis using IH by (intro exI [of _ "qs @ ps"] exI [of _ gs]) (simp add: echoed_events_def)
  qed
qed

end

section \<open>What a receive function logs\<close>

text \<open>
  The contract of every receive loop: numbers other than the wanted one are skipped, and the
  wanted one is the last received when the loop reports success.
\<close>

definition received_until :: "u64 \<Rightarrow> 'w link \<Rightarrow> bool \<times> 'w link \<Rightarrow> bool" where
  "received_until want s y \<longleftrightarrow>
     (\<exists>gs. lk_log (snd y) = lk_log s @ map Got gs @ (if fst y then [Got want] else []) \<and> want \<notin> set gs)"

named_theorems receiving \<open>steps of a receive loop\<close>

lemma received_stop [receiving]: "lk_log s' = lk_log s \<Longrightarrow> received_until want s (False, s')"
  by (auto simp: received_until_def intro: exI [of _ "[]"])

lemma received_hit [receiving]:
  "lk_log s1 = lk_log s \<Longrightarrow> received_until want s (True, note_event (Got want) s1)"
  by (auto simp: received_until_def note_event_def intro: exI [of _ "[]"])

lemma received_same [receiving]: "received_until want s1 y \<Longrightarrow> lk_log s1 = lk_log s \<Longrightarrow> received_until want s y"
  by (simp add: received_until_def)

lemma received_skip [receiving]:
  assumes "received_until want (note_event (Got g) s1) y" and "g \<noteq> want" and "lk_log s1 = lk_log s"
  shows "received_until want s y"
proof -
  obtain gs where "lk_log (snd y) = lk_log s @ map Got (g # gs) @ (if fst y then [Got want] else [])" "want \<notin> set (g # gs)"
    using assms by (auto simp: received_until_def note_event_def)
  then show ?thesis unfolding received_until_def by blast
qed

lemma received_until_found:
  "received_until want s (True, s') \<Longrightarrow> \<exists>stale. lk_log s' = lk_log s @ map Got stale @ [Got want]"
  by (auto simp: received_until_def)

section \<open>The receive loop\<close>

text \<open>
  The receive functions of the three tools are one loop: until a deadline, poll the middleware
  once and compare the number received. The loop runs as long as the clock stays below the
  deadline, so it may not end; nor does it when a poll blocks (\<open>Poll_blocked\<close>).
\<close>

datatype poll_outcome = Poll_failed | Poll_blocked | Poll_nothing | Poll_number u64

partial_function (option) poll_until ::
  "('w \<Rightarrow> int \<times> 'w) \<Rightarrow> ('w \<Rightarrow> poll_outcome \<times> 'w) \<Rightarrow> u64 \<Rightarrow> int \<Rightarrow> 'w link \<Rightarrow> (bool \<times> 'w link) option" where
  "poll_until clock poll want deadline s =
     (case on_env clock s of (now, s) \<Rightarrow>
      if \<not> now < deadline then Some (False, s)
      else case on_env poll s of
          (Poll_failed, s) \<Rightarrow> Some (False, s)
        | (Poll_blocked, s) \<Rightarrow> None
        | (Poll_nothing, s) \<Rightarrow> poll_until clock poll want deadline s
        | (Poll_number n, s) \<Rightarrow>
            let s = note_event (Got n) s in
            if n = want then Some (True, s) else poll_until clock poll want deadline s)"

definition receive_within ::
  "('w \<Rightarrow> int \<times> 'w) \<Rightarrow> ('w \<Rightarrow> poll_outcome \<times> 'w) \<Rightarrow> u64 \<Rightarrow> int \<Rightarrow> 'w link \<Rightarrow> (bool \<times> 'w link) option" where
  "receive_within clock poll want timeout_ms s =
     (case on_env clock s of (now, s) \<Rightarrow> poll_until clock poll want (now + timeout_ms * 1000000) s)"

lemma poll_until_log:
  assumes "poll_until clock poll want deadline s = Some y"
  shows "received_until want s y"
  using assms
proof (induction rule: poll_until.raw_induct [rotated, consumes 1, case_names step])
  case (step rec clock poll want deadline s y)
  obtain t s1 where c: "on_env clock s = (t, s1)" by fastforce
  obtain r s2 where p: "on_env poll s1 = (r, s2)" by fastforce
  have l: "lk_log s1 = lk_log s" "lk_log s2 = lk_log s" using c p by simp_all
  have "received_until want s y" if "rec clock poll want deadline (note_event (Got n) s2) = Some y" "n \<noteq> want" for n
    by (rule received_skip [OF step(1) [OF that(1)] that(2) l(2)])
  moreover have "received_until want s y" if "rec clock poll want deadline s2 = Some y"
    by (rule received_same [OF step(1) [OF that] l(2)])
  moreover note received_stop [OF l(1)] received_stop [OF l(2)] received_hit [OF l(2)]
  ultimately show ?case using step(2) c p by (auto simp: Let_def split: poll_outcome.splits if_splits)
qed

lemma receive_within_log: "receive_within clock poll want ms s = Some y \<Longrightarrow> received_until want s y"
proof -
  assume r: "receive_within clock poll want ms s = Some y"
  obtain t s1 where c: "on_env clock s = (t, s1)" by fastforce
  then have "poll_until clock poll want (t + ms * 1000000) s1 = Some y" using r by (simp add: receive_within_def)
  then show ?thesis using received_same [OF poll_until_log] c by fastforce
qed

lemma received_until_log:
  "received_until want s (found, s') \<Longrightarrow>
     \<exists>es. lk_log s' = lk_log s @ es \<and> (found \<longrightarrow> es \<noteq> [] \<and> last es = Got want)"
  by (auto simp: received_until_def)

text \<open>
  \<open>steady_clock\<close> is monotonic; between two readings of a polling loop at least one tick
  passes. \<open>tm\<close> is the time of a world.
\<close>

definition clock_advances :: "('w \<Rightarrow> int \<times> 'w) \<Rightarrow> ('w \<Rightarrow> poll_outcome \<times> 'w) \<Rightarrow> bool" where
  "clock_advances clock poll \<longleftrightarrow>
     (\<exists>tm. (\<forall>w. fst (clock w) = tm w \<and> tm w < tm (snd (clock w))) \<and> (\<forall>w. fst (poll w) \<noteq> Poll_blocked \<and> tm w \<le> tm (snd (poll w))))"

lemma poll_until_returns:
  assumes "clock_advances clock poll" shows "\<exists>y. poll_until clock poll want deadline s = Some y"
proof -
  obtain tm where tm: "\<And>w. fst (clock w) = tm w" "\<And>w. tm w < tm (snd (clock w))" "\<And>w. tm w \<le> tm (snd (poll w))"
    and nb: "\<And>w. fst (poll w) \<noteq> Poll_blocked"
    using assms unfolding clock_advances_def by metis
  show ?thesis
  proof (induction "nat (deadline - tm (lk_env s))" arbitrary: s rule: less_induct)
    case less
    obtain t s1 where c: "on_env clock s = (t, s1)" by fastforce
    obtain r s2 where p: "on_env poll s1 = (r, s2)" by fastforce
    have t: "t = tm (lk_env s)" "tm (lk_env s) < tm (lk_env s1)" "tm (lk_env s1) \<le> tm (lk_env s2)"
      using c p tm(1,2) [of "lk_env s"] tm(3) [of "lk_env s1"] by (auto simp: on_env_def split: prod.splits)
    have IH: "\<exists>y. poll_until clock poll want deadline s' = Some y" if "t < deadline" "lk_env s' = lk_env s2" for s'
      using that less [of s'] t by simp
    have "\<exists>y. poll_until clock poll want deadline (note_event g s2) = Some y" if "t < deadline" for g
      by (rule IH [OF that]) (simp add: note_event_def)
    moreover have "r \<noteq> Poll_blocked" using p nb [of "lk_env s1"] by (auto simp: on_env_def split: prod.splits)
    ultimately show ?case
      using IH [of s2] by (subst poll_until.simps) (auto simp: c p Let_def split: poll_outcome.splits)
  qed
qed

lemma receive_within_returns: "clock_advances clock poll \<Longrightarrow> \<exists>y. receive_within clock poll want ms s = Some y"
  using poll_until_returns by (fastforce simp: receive_within_def split: prod.splits)

text \<open>
  Clock readings that are close together; \<open>tm\<close> and \<open>q\<close> observe the time and what waits to be
  received in a world.
\<close>

definition close_clock :: "('w \<Rightarrow> int \<times> 'w) \<Rightarrow> ('w \<Rightarrow> int) \<Rightarrow> ('w \<Rightarrow> 'q) \<Rightarrow> bool" where
  "close_clock clock tm q \<longleftrightarrow> (\<forall>w. \<exists>w'. clock w = (tm w, w') \<and> tm w' < tm w + 200000000 \<and> q w' = q w)"

lemma close_clock_env:
  assumes "close_clock clock tm q"
  obtains s1 where "on_env clock s = (tm (lk_env s), s1)" "tm (lk_env s1) < tm (lk_env s) + 200000000" "q (lk_env s1) = q (lk_env s)"
proof -
  obtain w' where "clock (lk_env s) = (tm (lk_env s), w')" "tm w' < tm (lk_env s) + 200000000" "q w' = q (lk_env s)"
    using assms unfolding close_clock_def by blast
  then show thesis using that [of "s\<lparr>lk_env := w'\<rparr>"] by (simp add: on_env_def)
qed

lemma close_round_clock:
  assumes "close_clock clock tm q" shows "q (lk_env (snd (round_clock clock s))) = q (lk_env s)"
proof -
  obtain s1 where "on_env clock s = (tm (lk_env s), s1)" "q (lk_env s1) = q (lk_env s)"
    using close_clock_env [OF assms, of s] by metis
  then show ?thesis by (simp add: round_clock_def NowNs_def note_event_def)
qed

lemma receive_within_hit:
  assumes cl: "close_clock clock tm q" and hit: "\<And>w. q w = x \<Longrightarrow> \<exists>w'. poll w = (Poll_number want, w') \<and> q w' = y"
    and "q (lk_env s) = x" and "200 \<le> ms"
  shows "\<exists>s'. receive_within clock poll want ms s = Some (True, s') \<and> q (lk_env s') = y"
proof -
  obtain s1 where s1: "on_env clock s = (tm (lk_env s), s1)" "tm (lk_env s1) < tm (lk_env s) + 200000000" "q (lk_env s1) = x"
    using close_clock_env [OF cl, of s] assms(3) by metis
  obtain s2 where s2: "on_env clock s1 = (tm (lk_env s1), s2)" "q (lk_env s2) = x"
    using close_clock_env [OF cl, of s1] s1(3) by metis
  obtain w where w: "poll (lk_env s2) = (Poll_number want, w)" "q w = y" using hit [OF s2(2)] by blast
  have "tm (lk_env s1) < tm (lk_env s) + ms * 1000000" using s1(2) assms(4) by simp
  moreover have "on_env poll s2 = (Poll_number want, s2\<lparr>lk_env := w\<rparr>)" using w(1) by (simp add: on_env_def)
  ultimately have "receive_within clock poll want ms s = Some (True, note_event (Got want) (s2\<lparr>lk_env := w\<rparr>))"
    using s1(1) s2(1) by (simp add: receive_within_def poll_until.simps Let_def)
  then show ?thesis using w(2) by (simp add: note_event_def)
qed

section \<open>What the loops leave alone\<close>

text \<open>The calls in a log, leaving out what the ping-pong itself records.\<close>

fun is_call :: "link_event \<Rightarrow> bool" where
  "is_call (Call f n) = True"
| "is_call _ = False"

definition calls :: "'w link \<Rightarrow> link_event list" where
  "calls s = filter is_call (lk_log s)"

lemma calls_same: "lk_log s' = lk_log s \<Longrightarrow> calls s' = calls s"
  by (simp add: calls_def)

lemma calls_append: "lk_log s' = lk_log s @ es \<Longrightarrow> \<forall>e\<in>set es. \<not> is_call e \<Longrightarrow> calls s' = calls s"
  by (simp add: calls_def filter_empty_conv)

lemma calls_received: "received_until want s (found, s') \<Longrightarrow> calls s' = calls s"
  by (auto simp: received_until_def calls_def filter_empty_conv)

lemma calls_round_clock: "round_clock clock s = (t, s') \<Longrightarrow> calls s' = calls s"
  using round_clock_log [of clock s t s'] by (auto intro: calls_append)

text \<open>A quantity that no step of a tool changes is not changed by the whole ping-pong.\<close>

locale quiet_tool =
  fixes send :: "u64 \<Rightarrow> 's \<Rightarrow> send_outcome \<times> 's"
    and recv :: "u64 \<Rightarrow> 's \<Rightarrow> (bool \<times> 's) option"
    and clock :: "'s \<Rightarrow> u64 \<times> 's"
    and attempt :: "u64 \<Rightarrow> 's \<Rightarrow> ((string + bool) \<times> 's) option"
    and pause :: "'s \<Rightarrow> 's"
    and obs :: "'s \<Rightarrow> 'o"
  assumes send_obs: "send sq s = (r, s') \<Longrightarrow> obs s' = obs s"
    and recv_obs: "recv sq s = Some (b, s') \<Longrightarrow> obs s' = obs s"
    and clock_obs: "clock s = (t, s') \<Longrightarrow> obs s' = obs s"
    and attempt_obs: "attempt p s = Some (l, s') \<Longrightarrow> obs s' = obs s"
    and pause_obs: "obs (pause s) = obs s"
begin

lemma echo_rounds_obs:
  "echo_rounds send recv clock warmup is sq half s = Some (r, s') \<Longrightarrow> obs s' = obs s"
proof (induction "is" arbitrary: sq half s)
  case (Cons i "is")
  obtain t0 s1 where c0: "clock s = (t0, s1)" by fastforce
  obtain o' s2 where sd: "send (sq + 1) s1 = (o', s2)" by fastforce
  note before = clock_obs [OF c0] send_obs [OF sd]
  show ?case
  proof (cases "o' = Sent_ok \<and> (\<exists>s3. recv (sq + 1) s2 = Some (True, s3))")
    case True
    then obtain s3 t1 s4 where rc: "recv (sq + 1) s2 = Some (True, s3)" and c1: "clock s3 = (t1, s4)" by fastforce
    then have "echo_rounds send recv clock warmup is (sq + 1)
        (if warmup \<le> int i then half @ [half_rtt t0 t1] else half) s4 = Some (r, s')"
      using Cons.prems c0 sd True by (simp add: Let_def)
    then show ?thesis using Cons.IH before recv_obs [OF rc] clock_obs [OF c1] by simp
  next
    case False
    then have "s' = s2 \<or> recv (sq + 1) s2 = Some (False, s')"
      using Cons.prems c0 sd by (auto simp: Let_def split: send_outcome.splits option.splits bool.splits)
    then show ?thesis using before recv_obs by fastforce
  qed
qed simp

lemma link_probes_obs: "link_probes attempt pause ps s = Some (r, s') \<Longrightarrow> obs s' = obs s"
proof (induction ps arbitrary: s)
  case (Cons p ps)
  obtain l s1 where a: "attempt p s = Some (l, s1)" using Cons.prems by (auto split: option.splits)
  then show ?case
    using Cons attempt_obs [OF a] pause_obs [of s1] by (auto simp: Let_def split: sum.splits if_splits)
qed simp

lemma ping_pong_obs:
  assumes "ping_pong attempt pause probes send recv clock opt s = Some (r, s')"
  shows "obs s' = obs s"
proof -
  have timed: "timed_run send recv clock opt s1 = Some (r, s') \<Longrightarrow> obs s' = obs s1" for s1
    by (auto simp: timed_run_def Let_def dest: echo_rounds_obs split: option.splits sum.splits round_error.splits if_splits)
  obtain l s1 where l: "link_probes attempt pause (map (\<lambda>i. of_nat (i + 1)) [0..<probes]) s = Some (l, s1)"
    using assms by (auto simp: ping_pong_def split: option.splits)
  then have "s' = s1 \<or> timed_run send recv clock opt s1 = Some (r, s')"
    using assms by (auto simp: ping_pong_def split: sum.splits bool.splits)
  then show ?thesis using timed link_probes_obs [OF l] by auto
qed

end

lemma iterate_echo_obs:
  assumes "iterate_echo body n s = (r, s')" and "\<And>s r s'. body s = (r, s') \<Longrightarrow> obs s' = obs s"
  shows "obs s' = obs s"
  using assms(1)
proof (induction n arbitrary: s)
  case (Suc n)
  obtain e s1 where b: "body s = (e, s1)" by fastforce
  then show ?case using Suc assms(2) [OF b] by (cases e) auto
qed simp

end
