(* ===== verification/Cyclone_Net.thy ===== *)
theory Cyclone_Net
  imports Echo_Link
begin

text \<open>
  The Cyclone DDS network tool (\<open>benchmarks/net/cyclone_net.cc\<close>). Cyclone DDS is a parameter:
  a record of functions on the world, one for each call the program makes. The sample type is
  that of \<open>benchmarks/gen/Bench.h\<close>.
\<close>

section \<open>The calls into the middleware\<close>

record Bench_Sample =
  bs_seq :: u64
  bs_send_ns :: u64
  bs_data :: bytes

record 'w dds =
  dds_clock :: "'w \<Rightarrow> int \<times> 'w"
  dds_thread_sleep :: "int \<Rightarrow> 'w \<Rightarrow> 'w"
  dds_write_file :: "string \<Rightarrow> string \<Rightarrow> 'w \<Rightarrow> string \<times> 'w"
  dds_setenv :: "string \<Rightarrow> string \<Rightarrow> 'w \<Rightarrow> 'w"
  dds_create_participant :: "'w \<Rightarrow> int \<times> 'w"
  dds_create_topic :: "int \<Rightarrow> string \<Rightarrow> 'w \<Rightarrow> int \<times> 'w"
  dds_create_writer :: "int \<Rightarrow> int \<Rightarrow> 'w \<Rightarrow> int \<times> 'w"
  dds_create_reader :: "int \<Rightarrow> int \<Rightarrow> 'w \<Rightarrow> int \<times> 'w"
  dds_create_waitset :: "int \<Rightarrow> 'w \<Rightarrow> int \<times> 'w"
  dds_create_readcondition :: "int \<Rightarrow> 'w \<Rightarrow> int \<times> 'w"
  dds_waitset_attach :: "int \<Rightarrow> int \<Rightarrow> int \<Rightarrow> 'w \<Rightarrow> int \<times> 'w"
  dds_matched :: "int \<Rightarrow> 'w \<Rightarrow> (int \<times> int) \<times> 'w"
  dds_sleepfor :: "int \<Rightarrow> 'w \<Rightarrow> 'w"
  dds_take :: "int \<Rightarrow> 'w \<Rightarrow> (int \<times> bool \<times> Bench_Sample) \<times> 'w"
  dds_waitset_wait :: "int \<Rightarrow> int \<Rightarrow> 'w \<Rightarrow> 'w"
  dds_write :: "int \<Rightarrow> Bench_Sample \<Rightarrow> 'w \<Rightarrow> int \<times> 'w"

section \<open>Configuration\<close>

definition MakeConfig :: "string \<Rightarrow> string" where
  \<open>MakeConfig peer_host =
     ''<?xml version="1.0" encoding="UTF-8" ?>\<newline><CycloneDDS>\<newline>  <Domain id="any">\<newline>'' @
     ''    <General>\<newline>      <AllowMulticast>spdp</AllowMulticast>\<newline>    </General>\<newline>'' @
     ''    <Discovery>\<newline>      <ParticipantIndex>auto</ParticipantIndex>\<newline>'' @
     (if peer_host \<noteq> '''' then ''      <Peers><Peer address="'' @ peer_host @ ''"/></Peers>\<newline>'' else '''') @
     ''    </Discovery>\<newline>    <SharedMemory>\<newline>      <Enable>false</Enable>\<newline>'' @
     ''    </SharedMemory>\<newline>  </Domain>\<newline></CycloneDDS>\<newline>''\<close>

text \<open>The host that \<open>Setup\<close> puts into the configuration.\<close>

definition setup_peer_host :: "Options_net \<Rightarrow> bool \<Rightarrow> string res" where
  "setup_peer_host opt is_pub =
     (if is_pub
      then rbind (ParseHostPort (net_peer opt) '''' 0) (\<lambda>(ok, host, port).
        if ok then Inr host
        else case rfind CHR '':'' (net_peer opt) of
               None \<Rightarrow> Inr (net_peer opt)
             | Some colon \<Rightarrow> Inr (take colon (net_peer opt)))
      else if net_peer opt \<noteq> ''''
      then rbind (ParseHostPort (net_peer opt) '''' 0) (\<lambda>(ok, host, port).
        Inr (if ok then host else net_peer opt))
      else Inr '''')"

section \<open>Entities\<close>

record Entities =
  en_pp :: int
  en_writer :: int
  en_reader :: int
  en_waitset :: int
  en_samples :: bool
  en_cfg_path :: string

definition no_entities :: Entities where
  "no_entities = \<lparr>en_pp = 0, en_writer = 0, en_reader = 0, en_waitset = 0, en_samples = False, en_cfg_path = ''''\<rparr>"

text \<open>The destructor.\<close>

definition destroy_entities :: "Entities \<Rightarrow> 'w link \<Rightarrow> 'w link" where
  "destroy_entities e s =
     (let s = (if en_samples e then note_event (Call ''Bench_Sample_free'' 0) s else s);
          s = (if 0 < en_waitset e then note_event (Call ''dds_delete'' (en_waitset e)) s else s) in
      if 0 < en_pp e then note_event (Call ''dds_delete'' (en_pp e)) s else s)"

text \<open>A \<open>throw\<close> out of \<open>Setup\<close> destroys the entities built so far.\<close>

definition throw_setup :: "string \<Rightarrow> Entities \<Rightarrow> 'w link \<Rightarrow> Entities res \<times> 'w link" where
  "throw_setup msg e s = (Inl (Thrown msg), destroy_entities e s)"

definition Setup :: "'w dds \<Rightarrow> Options_net \<Rightarrow> bool \<Rightarrow> 'w link \<Rightarrow> Entities res \<times> 'w link" where
  "Setup d opt is_pub s =
     (case setup_peer_host opt is_pub of Inl f \<Rightarrow> (Inl f, s) | Inr peer_host \<Rightarrow>
      case on_env (dds_write_file d ''cyclone_net'' (MakeConfig peer_host)) s of (path, s) \<Rightarrow>
      let e = no_entities\<lparr>en_cfg_path := path\<rparr>;
          s = env_do (dds_setenv d ''CYCLONEDDS_URI'' (''file://'' @ path)) s in
      case on_env (dds_create_participant d) s of (pp, s) \<Rightarrow>
      let e = e\<lparr>en_pp := pp\<rparr> in
      if pp < 0 then throw_setup ''dds_create_participant failed'' e s else
      let write_topic = (if is_pub then ReqKey opt else RepKey opt);
          read_topic = (if is_pub then RepKey opt else ReqKey opt) in
      case on_env (dds_create_topic d pp write_topic) s of (wtopic, s) \<Rightarrow>
      case on_env (dds_create_topic d pp read_topic) s of (rtopic, s) \<Rightarrow>
      case on_env (dds_create_writer d pp wtopic) s of (writer, s) \<Rightarrow>
      case on_env (dds_create_reader d pp rtopic) s of (reader, s) \<Rightarrow>
      let e = e\<lparr>en_writer := writer, en_reader := reader\<rparr> in
      if wtopic < 0 \<or> rtopic < 0 \<or> writer < 0 \<or> reader < 0
      then throw_setup ''failed to create writer/reader'' e s else
      let e = e\<lparr>en_samples := True\<rparr> in
      case on_env (dds_create_waitset d pp) s of (waitset, s) \<Rightarrow>
      let e = e\<lparr>en_waitset := waitset\<rparr> in
      case on_env (dds_create_readcondition d reader) s of (rdcond, s) \<Rightarrow>
      if waitset < 0 \<or> rdcond < 0 then throw_setup ''failed to create waitset'' e s else
      case on_env (dds_waitset_attach d waitset rdcond reader) s of (rc, s) \<Rightarrow>
      if rc < 0 then throw_setup ''failed to create waitset'' e s else (Inr e, s))"

section \<open>Sending and receiving\<close>

fun wait_matched_steps :: "'w dds \<Rightarrow> int \<Rightarrow> nat \<Rightarrow> 'w link \<Rightarrow> bool \<times> 'w link" where
  "wait_matched_steps d writer 0 s = (False, s)"
| "wait_matched_steps d writer (Suc n) s =
     (case on_env (dds_matched d writer) s of ((rc, current_count), s) \<Rightarrow>
      if rc = 0 \<and> 0 < current_count then (True, s)
      else wait_matched_steps d writer n (env_do (dds_sleepfor d 10000000) s))"

definition WaitMatched :: "'w dds \<Rightarrow> int \<Rightarrow> nat \<Rightarrow> 'w link \<Rightarrow> bool \<times> 'w link" where
  "WaitMatched d writer timeout_ms = wait_matched_steps d writer (timeout_ms div 10)"

text \<open>The sequence length is the 32-bit truncation of the payload size.\<close>

definition WriteSample :: "'w dds \<Rightarrow> int \<Rightarrow> u64 \<Rightarrow> bytes \<Rightarrow> 'w link \<Rightarrow> int \<times> 'w link" where
  "WriteSample d writer sq payload s =
     (case NowNs (dds_clock d) s of (ns, s) \<Rightarrow>
      let len = (of_nat (length payload) :: u32);
          sample = \<lparr>bs_seq = sq, bs_send_ns = ns, bs_data = take (unat len) payload\<rparr> in
      case on_env (dds_write d writer sample) s of (rc, s) \<Rightarrow>
      (rc, if rc < 0 then s else note_event (Sent sq ns) s))"

text \<open>One poll of the receive loop; without a sample it waits at most 50 ms for one.\<close>

definition cy_poll :: "'w dds \<Rightarrow> int \<Rightarrow> int \<Rightarrow> 'w \<Rightarrow> poll_outcome \<times> 'w" where
  "cy_poll d reader waitset w =
     (case dds_take d reader w of ((rc, valid_data, sample), w) \<Rightarrow>
      if rc < 0 then (Poll_failed, w)
      else if rc > 0 \<and> valid_data then (Poll_number (bs_seq sample), w)
      else (Poll_nothing, dds_waitset_wait d waitset 50000000 w))"

definition TakeSeq :: "'w dds \<Rightarrow> int \<Rightarrow> int \<Rightarrow> u64 \<Rightarrow> int \<Rightarrow> 'w link \<Rightarrow> (bool \<times> 'w link) option" where
  "TakeSeq d reader waitset = receive_within (dds_clock d) (cy_poll d reader waitset)"

section \<open>The publisher\<close>

text \<open>What the timed loop uses: a failed write is a negative return code.\<close>

definition cy_send :: "'w dds \<Rightarrow> Entities \<Rightarrow> bytes \<Rightarrow> u64 \<Rightarrow> 'w link \<Rightarrow> send_outcome \<times> 'w link" where
  "cy_send d e payload sq s =
     (case WriteSample d (en_writer e) sq payload s of (rc, s) \<Rightarrow> (if rc < 0 then Send_failed else Sent_ok, s))"

definition cy_recv :: "'w dds \<Rightarrow> Entities \<Rightarrow> u64 \<Rightarrow> 'w link \<Rightarrow> (bool \<times> 'w link) option" where
  "cy_recv d e sq = TakeSeq d (en_reader e) (en_waitset e) sq 5000"

definition cy_attempt :: "'w dds \<Rightarrow> Entities \<Rightarrow> bytes \<Rightarrow> u64 \<Rightarrow> 'w link \<Rightarrow> ((string + bool) \<times> 'w link) option" where
  "cy_attempt d e payload probe s =
     (case WaitMatched d (en_writer e) 100 s of (matched, s) \<Rightarrow>
      if \<not> matched then Some (Inr False, s)
      else case WriteSample d (en_writer e) probe payload s of (rc, s) \<Rightarrow>
        if rc < 0 then Some (Inr False, s)
        else map_option (\<lambda>(found, s). (Inr found, s)) (TakeSeq d (en_reader e) (en_waitset e) probe 200 s))"

definition RunPub_cyclone :: "'w dds \<Rightarrow> Options_net \<Rightarrow> 'w link \<Rightarrow> ((nat \<times> string) res \<times> 'w link) option" where
  "RunPub_cyclone d opt s =
     (case Setup d opt True s of
        (Inl f, s) \<Rightarrow> Some (Inl f, s)
      | (Inr e, s) \<Rightarrow>
          let payload = replicate (unat (net_size opt)) 0 in
          map_option (\<lambda>(r, s). (r, destroy_entities e s))
            (ping_pong (cy_attempt d e payload) (env_do (dds_thread_sleep d 50000000)) 200
              (cy_send d e payload) (cy_recv d e) (round_clock (dds_clock d)) opt s))"

section \<open>The subscriber\<close>

text \<open>
  One iteration of the echo loop: the exit code if it returns. The loop itself never returns
  otherwise, so it is run for \<open>n\<close> iterations.
\<close>

definition cy_echo_once :: "'w dds \<Rightarrow> Entities \<Rightarrow> bytes \<Rightarrow> 'w link \<Rightarrow> nat option \<times> 'w link" where
  "cy_echo_once d e payload s =
     (case on_env (dds_take d (en_reader e)) s of ((rc, valid_data, sample), s) \<Rightarrow>
      if rc < 0 then (Some 1, s)
      else if rc = 0 \<or> \<not> valid_data then (None, env_do (dds_waitset_wait d (en_waitset e) 50000000) s)
      else let s = note_event (Got (bs_seq sample)) s in
        case WriteSample d (en_writer e) (bs_seq sample) payload s of (rc, s) \<Rightarrow>
        (if rc < 0 then Some 1 else None, s))"

definition RunSub_cyclone :: "'w dds \<Rightarrow> Options_net \<Rightarrow> nat \<Rightarrow> 'w link \<Rightarrow> nat option res \<times> 'w link" where
  "RunSub_cyclone d opt n s =
     (case Setup d opt False s of
        (Inl f, s) \<Rightarrow> (Inl f, s)
      | (Inr e, s) \<Rightarrow>
          let payload = replicate (unat (net_size opt)) 0 in
          case WaitMatched d (en_writer e) 30000 s of (_, s) \<Rightarrow>
          case iterate_echo (cy_echo_once d e payload) n s of
            (Some code, s) \<Rightarrow> (Inr (Some code), destroy_entities e s)
          | (None, s) \<Rightarrow> (Inr None, s))"

section \<open>The program\<close>

text \<open>
  \<open>main\<close>: exit code and standard output. An exception is caught and gives exit code 1; what is
  left of the fault type is undefined behaviour. The subscriber is run for \<open>n\<close> iterations and
  may still be running (no exit code).
\<close>

fun cy_catch :: "'a \<Rightarrow> 'a res \<Rightarrow> 'a res" where
  "cy_catch dflt (Inl (Thrown m)) = Inr dflt"
| "cy_catch dflt r = r"

definition cyclone_net_main ::
  "'w dds \<Rightarrow> string list \<Rightarrow> nat \<Rightarrow> 'w link \<Rightarrow> ((nat option \<times> string) res \<times> 'w link) option" where
  "cyclone_net_main d args n s =
     (case ParseOptions_net args (default_options_net\<lparr>net_stack := ''cyclone''\<rparr>) of
        Inl _ \<Rightarrow> Some (Inr (Some 2, ''''), s)
      | Inr opt \<Rightarrow>
          if net_role opt = ''pub''
          then map_option (\<lambda>(r, s). (rbind (cy_catch (1, '''') r) (\<lambda>(code, out). Inr (Some code, out)), s))
                 (RunPub_cyclone d opt s)
          else (case RunSub_cyclone d opt n s of
                  (r, s) \<Rightarrow> Some (rbind (cy_catch (Some 1) r) (\<lambda>code. Inr (code, '''')), s)))"

section \<open>What sending and receiving log\<close>

lemma TakeSeq_log: "TakeSeq d reader waitset want ms s = Some y \<Longrightarrow> received_until want s y"
  unfolding TakeSeq_def by (rule receive_within_log)

lemma WriteSample_log:
  "WriteSample d writer sq payload s = (rc, s') \<Longrightarrow>
     (if rc < 0 then lk_log s' = lk_log s else \<exists>ns. lk_log s' = lk_log s @ [Sent sq ns])"
  by (auto simp: WriteSample_def note_event_def Let_def split: prod.splits if_splits)

interpretation cy: echo_link "cy_send d e payload" "cy_recv d e" "round_clock (dds_clock d)" lk_log
  for d e payload
proof
  show "\<exists>ns. lk_log s' = lk_log s @ [Sent sq ns]" if "cy_send d e payload sq s = (Sent_ok, s')" for sq s s'
    using that WriteSample_log by (fastforce simp: cy_send_def split: prod.splits if_splits)
  show "\<exists>stale. lk_log s' = lk_log s @ map Got stale @ [Got sq]" if "cy_recv d e sq s = Some (True, s')" for sq s s'
    using that received_until_found TakeSeq_log unfolding cy_recv_def by blast
qed (rule round_clock_log)

interpretation cy_sub: echo_server "cy_echo_once d e payload" lk_log for d e payload
proof
  fix s s' code
  obtain rc v smp s1 where tk: "on_env (dds_take d (en_reader e)) s = ((rc, v, smp), s1)"
    by (metis prod_cases3 surj_pair)
  obtain rc2 s2 where wr: "WriteSample d (en_writer e) (bs_seq smp) payload (note_event (Got (bs_seq smp)) s1) = (rc2, s2)"
    by fastforce
  note logs = tk wr WriteSample_log [OF wr]
  show "\<exists>ps. length ps \<le> 1 \<and> lk_log s' = lk_log s @ echoed_events ps" if "cy_echo_once d e payload s = (None, s')"
  proof (cases "rc = 0 \<or> \<not> v")
    case True
    then have "lk_log s' = lk_log s" using that tk by (auto simp: cy_echo_once_def split: if_splits)
    then show ?thesis by (intro exI [of _ "[]"]) (simp add: echoed_events_def)
  next
    case False
    then have "\<not> rc2 < 0" "s' = s2" using that tk wr by (auto simp: cy_echo_once_def Let_def split: if_splits)
    then obtain ns where "lk_log s' = lk_log s @ [Got (bs_seq smp), Sent (bs_seq smp) ns]"
      using logs by (auto simp: note_event_def)
    then show ?thesis by (intro exI [of _ "[(bs_seq smp, ns)]"]) (simp add: echoed_events_def)
  qed
  show "\<exists>gs. lk_log s' = lk_log s @ map Got gs" if "cy_echo_once d e payload s = (Some code, s')"
  proof (cases "rc < 0")
    case True
    then have "s' = s1" using that tk by (auto simp: cy_echo_once_def)
    then show ?thesis using tk by (intro exI [of _ "[]"]) simp
  next
    case False
    then have "rc2 < 0" "s' = s2" using that tk wr by (auto simp: cy_echo_once_def Let_def split: if_splits)
    then show ?thesis using logs by (intro exI [of _ "[bs_seq smp]"]) (simp add: note_event_def)
  qed
qed

section \<open>Termination\<close>

text \<open>Taking and waiting do not turn the clock back; reading it advances it.\<close>

definition dds_clock_advances :: "'w dds \<Rightarrow> bool" where
  "dds_clock_advances d \<longleftrightarrow> (\<exists>tm. (\<forall>w. fst (dds_clock d w) = tm w \<and> tm w < tm (snd (dds_clock d w))) \<and>
     (\<forall>r w. tm w \<le> tm (snd (dds_take d r w))) \<and> (\<forall>ws ns w. tm w \<le> tm (dds_waitset_wait d ws ns w)))"

lemma TakeSeq_returns:
  assumes "dds_clock_advances d" shows "\<exists>y. TakeSeq d reader waitset want ms s = Some y"
proof -
  obtain tm where "\<And>w. fst (dds_clock d w) = tm w" "\<And>w. tm w < tm (snd (dds_clock d w))"
    "\<And>r w. tm w \<le> tm (snd (dds_take d r w))" "\<And>ws ns w. tm w \<le> tm (dds_waitset_wait d ws ns w)"
    using assms unfolding dds_clock_advances_def by metis
  then have "clock_advances (dds_clock d) (cy_poll d reader waitset)"
    unfolding clock_advances_def cy_poll_def
    by (intro exI [of _ tm]) (auto split: prod.splits intro: order_trans, (metis order_trans snd_conv)+)
  then show ?thesis unfolding TakeSeq_def by (rule receive_within_returns)
qed

interpretation cy_live: live_link "cy_send d e payload" "cy_recv d e" "round_clock (dds_clock d)" "\<lambda>_. dds_clock_advances d"
  for d e payload
proof
  show "\<exists>r s'. cy_recv d e sq s = Some (r, s') \<and> dds_clock_advances d" if "dds_clock_advances d" for sq s
    using TakeSeq_returns [OF that] that by (fastforce simp: cy_recv_def)
qed auto

section \<open>The tool\<close>

lemma wait_matched_log: "wait_matched_steps d writer n s = (b, s') \<Longrightarrow> lk_log s' = lk_log s"
  by (induction n arbitrary: s) (auto split: prod.splits if_splits)

lemma WaitMatched_log: "WaitMatched d writer ms s = (b, s') \<Longrightarrow> lk_log s' = lk_log s"
  by (auto simp: WaitMatched_def dest: wait_matched_log)

interpretation cy_tool: tool_link "cy_send d e payload" "cy_recv d e" "round_clock (dds_clock d)" lk_log
  "cy_attempt d e payload" "env_do (dds_thread_sleep d ns)"
  for d e payload ns
proof
  fix p linked and s s' :: "'a link"
  assume a: "cy_attempt d e payload p s = Some (Inr linked, s')"
  obtain m s1 where w: "WaitMatched d (en_writer e) 100 s = (m, s1)" by fastforce
  obtain rc s2 where wr: "WriteSample d (en_writer e) p payload s1 = (rc, s2)" by fastforce
  note l = WaitMatched_log [OF w] WriteSample_log [OF wr]
  show "\<exists>es. lk_log s' = lk_log s @ es \<and> (linked \<longrightarrow> es \<noteq> [] \<and> last es = Got p)"
  proof (cases "m \<and> \<not> rc < 0")
    case False
    then have "\<not> linked" "lk_log s' = lk_log s" using a w wr l by (auto simp: cy_attempt_def split: if_splits)
    then show ?thesis by simp
  next
    case True
    then have "TakeSeq d (en_reader e) (en_waitset e) p 200 s2 = Some (linked, s')" using a w wr by (auto simp: cy_attempt_def)
    then obtain es where "lk_log s' = lk_log s2 @ es" "linked \<longrightarrow> es \<noteq> [] \<and> last es = Got p"
      using received_until_log [OF TakeSeq_log] by blast
    then show ?thesis using True l by auto
  qed
qed simp

interpretation cy_live_tool: live_tool "cy_send d e payload" "cy_recv d e" "round_clock (dds_clock d)"
  "\<lambda>_. dds_clock_advances d" "cy_attempt d e payload" "env_do (dds_thread_sleep d ns)"
  for d e payload ns
proof
  show "\<exists>r s'. cy_attempt d e payload p s = Some (r, s') \<and> dds_clock_advances d" if "dds_clock_advances d" for p s
    using TakeSeq_returns [OF that, of "en_reader e" "en_waitset e" p 200] that
    by (fastforce simp: cy_attempt_def split: prod.splits)
qed simp

text \<open>
  A network on which the peer echoes at once: a written sample is the next one taken, clock
  readings are close together, and the writer is matched. \<open>tm\<close> and \<open>q\<close> observe the time and
  the samples waiting in the reader.
\<close>

definition dds_loopback :: "'w dds \<Rightarrow> Entities \<Rightarrow> ('w \<Rightarrow> int) \<Rightarrow> ('w \<Rightarrow> Bench_Sample list) \<Rightarrow> bool" where
  "dds_loopback d e tm q \<longleftrightarrow>
     close_clock (dds_clock d) tm q \<and>
     (\<forall>w smp. q w = [] \<longrightarrow> (\<exists>rc w'. dds_write d (en_writer e) smp w = (rc, w') \<and> 0 \<le> rc \<and> q w' = [smp])) \<and>
     (\<forall>w smp. q w = [smp] \<longrightarrow> (\<exists>w'. dds_take d (en_reader e) w = ((1, True, smp), w') \<and> q w' = [])) \<and>
     (\<forall>w. \<exists>n w'. dds_matched d (en_writer e) w = ((0, n), w') \<and> 0 < n \<and> q w' = q w) \<and>
     (\<forall>ns w. q (dds_thread_sleep d ns w) = q w)"

lemma loopback_write:
  assumes lo: "dds_loopback d e tm q" and "q (lk_env s) = []"
  shows "\<exists>rc s' smp. WriteSample d (en_writer e) sq payload s = (rc, s') \<and> 0 \<le> rc \<and> q (lk_env s') = [smp] \<and> bs_seq smp = sq"
proof -
  obtain s1 where s1: "on_env (dds_clock d) s = (tm (lk_env s), s1)" "q (lk_env s1) = []"
    using close_clock_env [of "dds_clock d" tm q s] lo assms(2) unfolding dds_loopback_def by metis
  define smp where "smp = \<lparr>bs_seq = sq, bs_send_ns = word_of_int (tm (lk_env s)), bs_data = take (unat (of_nat (length payload) :: u32)) payload\<rparr>"
  obtain rc w where w: "dds_write d (en_writer e) smp (lk_env s1) = (rc, w)" "0 \<le> rc" "q w = [smp]"
    using lo s1(2) unfolding dds_loopback_def by blast
  then have "WriteSample d (en_writer e) sq payload s = (rc, note_event (Sent sq (word_of_int (tm (lk_env s)))) (s1\<lparr>lk_env := w\<rparr>))"
    using s1(1) by (simp add: WriteSample_def NowNs_def Let_def on_env_def smp_def split: prod.splits)
  then show ?thesis using w by (intro exI [of _ rc] exI exI [of _ smp]) (auto simp: note_event_def smp_def)
qed

lemma loopback_take:
  assumes lo: "dds_loopback d e tm q" and "q (lk_env s) = [smp]" and "bs_seq smp = sq" and "200 \<le> ms"
  shows "\<exists>s'. TakeSeq d (en_reader e) (en_waitset e) sq ms s = Some (True, s') \<and> q (lk_env s') = []"
proof -
  have "\<exists>w'. cy_poll d (en_reader e) (en_waitset e) w = (Poll_number sq, w') \<and> q w' = []" if "q w = [smp]" for w
    using lo that assms(3) unfolding dds_loopback_def cy_poll_def by fastforce
  then show ?thesis
    using receive_within_hit [of "dds_clock d" tm q "[smp]" _ sq "[]"] lo assms(2,4)
    unfolding TakeSeq_def dds_loopback_def by blast
qed

lemma loopback_matched:
  assumes lo: "dds_loopback d e tm q"
  shows "\<exists>s'. WaitMatched d (en_writer e) 100 s = (True, s') \<and> q (lk_env s') = q (lk_env s)"
proof -
  obtain n w where "dds_matched d (en_writer e) (lk_env s) = ((0, n), w)" "0 < n" "q w = q (lk_env s)"
    using lo unfolding dds_loopback_def by blast
  then have "wait_matched_steps d (en_writer e) (Suc 9) s = (True, s\<lparr>lk_env := w\<rparr>)" "q w = q (lk_env s)"
    unfolding wait_matched_steps.simps by (simp_all add: on_env_def)
  moreover have "(100 :: nat) div 10 = Suc 9" by simp
  ultimately show ?thesis unfolding WaitMatched_def by (metis link.select_convs(1) link.surjective link.update_convs(1))
qed

interpretation cy_echoing: echoing_tool "cy_send d e payload" "cy_recv d e" "round_clock (dds_clock d)"
  "\<lambda>s. dds_loopback d e tm q \<and> q (lk_env s) = []" "cy_attempt d e payload" "env_do (dds_thread_sleep d ns)"
  for d e payload tm q ns
proof
  fix s :: "'a link" and sq :: u64
  assume i: "dds_loopback d e tm q \<and> q (lk_env s) = []"
  then show "dds_loopback d e tm q \<and> q (lk_env (snd (round_clock (dds_clock d) s))) = []"
    using close_round_clock [of "dds_clock d" tm q s] by (simp add: dds_loopback_def)
  obtain rc s1 smp where w: "WriteSample d (en_writer e) sq payload s = (rc, s1)" "0 \<le> rc" "q (lk_env s1) = [smp]" "bs_seq smp = sq"
    using loopback_write i by metis
  obtain s2 where "TakeSeq d (en_reader e) (en_waitset e) sq 5000 s1 = Some (True, s2)" "q (lk_env s2) = []"
    using loopback_take [of d e tm q s1 smp sq 5000] i w by auto
  then show "\<exists>s' s''. cy_send d e payload sq s = (Sent_ok, s') \<and> cy_recv d e sq s' = Some (True, s'') \<and>
      dds_loopback d e tm q \<and> q (lk_env s'') = []"
    using w i by (auto simp: cy_send_def cy_recv_def)
  show "dds_loopback d e tm q \<and> q (lk_env (env_do (dds_thread_sleep d ns) s)) = []"
    using i by (auto simp: env_do_def dds_loopback_def)
next
  fix s :: "'a link" and p :: u64
  assume i: "dds_loopback d e tm q \<and> q (lk_env s) = []"
  obtain s0 where m: "WaitMatched d (en_writer e) 100 s = (True, s0)" "q (lk_env s0) = []"
    using loopback_matched [of d e tm q s] i by auto
  obtain rc s1 smp where w: "WriteSample d (en_writer e) p payload s0 = (rc, s1)" "0 \<le> rc" "q (lk_env s1) = [smp]" "bs_seq smp = p"
    using loopback_write i m(2) by metis
  obtain s2 where "TakeSeq d (en_reader e) (en_waitset e) p 200 s1 = Some (True, s2)" "q (lk_env s2) = []"
    using loopback_take [of d e tm q s1 smp p 200] i w by auto
  then show "\<exists>s'. cy_attempt d e payload p s = Some (Inr True, s') \<and> dds_loopback d e tm q \<and> q (lk_env s') = []"
    using w m i by (auto simp: cy_attempt_def)
qed

lemma Setup_ok_log: "Setup d opt is_pub s = (Inr e, s') \<Longrightarrow> lk_log s' = lk_log s"
  by (auto simp: Setup_def throw_setup_def Let_def split: sum.splits prod.splits if_splits)

definition releases :: "Entities \<Rightarrow> link_event list" where
  "releases e = (if en_samples e then [Call ''Bench_Sample_free'' 0] else []) @
     (if 0 < en_waitset e then [Call ''dds_delete'' (en_waitset e)] else []) @
     (if 0 < en_pp e then [Call ''dds_delete'' (en_pp e)] else [])"

lemma destroy_log [simp]: "lk_log (destroy_entities e s) = lk_log s @ releases e"
  by (simp add: destroy_entities_def releases_def note_event_def Let_def)

lemma RunPub_cyclone_0:
  assumes "RunPub_cyclone d opt s = Some (Inr (0, line), s')"
  shows "\<exists>es e. lk_log s' = lk_log s @ es @ releases e \<and> ping_pong_log opt 200 es line"
proof -
  obtain e s1 where st: "Setup d opt True s = (Inr e, s1)"
    using assms by (auto simp: RunPub_cyclone_def split: prod.splits sum.splits)
  then obtain s2 where "ping_pong (cy_attempt d e (replicate (unat (net_size opt)) 0)) (env_do (dds_thread_sleep d 50000000)) 200
      (cy_send d e (replicate (unat (net_size opt)) 0)) (cy_recv d e) (round_clock (dds_clock d)) opt s1 = Some (Inr (0, line), s2)"
    "s' = destroy_entities e s2"
    using assms by (auto simp: RunPub_cyclone_def Let_def)
  then obtain es where "lk_log s2 = lk_log s1 @ es" "ping_pong_log opt 200 es line"
    using cy_tool.ping_pong_ok by blast
  then show ?thesis using Setup_ok_log [OF st] \<open>s' = destroy_entities e s2\<close> by auto
qed

lemma RunPub_cyclone_loopback:
  assumes st: "Setup d opt True s = (Inr e, s1)" and lo: "dds_loopback d e tm q" "q (lk_env s1) = []"
    and "0 \<le> net_warmup opt" "0 \<le> net_count opt" "int_range (net_warmup opt + net_count opt)"
  shows "\<exists>half line s'. RunPub_cyclone d opt s = Some (Inr (0, line), s') \<and>
    PrintCsv_net opt half = Inr line \<and> length half = nat (net_count opt)"
proof -
  let ?p = "replicate (unat (net_size opt)) 0 :: bytes"
  have "\<exists>half line s'. ping_pong (cy_attempt d e ?p) (env_do (dds_thread_sleep d 50000000)) 200
      (cy_send d e ?p) (cy_recv d e) (round_clock (dds_clock d)) opt s1 = Some (Inr (0, line), s') \<and>
      PrintCsv_net opt half = Inr line \<and> length half = nat (net_count opt)"
    by (rule cy_echoing.ping_pong_succeeds) (use assms in auto)
  then show ?thesis using st by (auto simp: RunPub_cyclone_def Let_def)
qed

text \<open>A concrete network: the clock ticks at every reading, what is written is taken next.\<close>

definition demo_dds :: "(int \<times> Bench_Sample list) dds" where
  "demo_dds = \<lparr>
     dds_clock = (\<lambda>(t, q). (t, (t + 1, q))), dds_thread_sleep = (\<lambda>ns w. w),
     dds_write_file = (\<lambda>prefix contents w. (''/tmp/cyclone_net.1.tmp'', w)), dds_setenv = (\<lambda>name v w. w),
     dds_create_participant = (\<lambda>w. (1, w)), dds_create_topic = (\<lambda>pp name w. (2, w)),
     dds_create_writer = (\<lambda>pp topic w. (3, w)), dds_create_reader = (\<lambda>pp topic w. (4, w)),
     dds_create_waitset = (\<lambda>pp w. (5, w)), dds_create_readcondition = (\<lambda>reader w. (6, w)),
     dds_waitset_attach = (\<lambda>ws c r w. (0, w)), dds_matched = (\<lambda>writer w. ((0, 1), w)), dds_sleepfor = (\<lambda>ns w. w),
     dds_take = (\<lambda>reader (t, q). case q of [] \<Rightarrow> ((0, False, \<lparr>bs_seq = 0, bs_send_ns = 0, bs_data = []\<rparr>), (t, []))
                                         | x # xs \<Rightarrow> ((1, True, x), (t, xs))),
     dds_waitset_wait = (\<lambda>ws ns w. w), dds_write = (\<lambda>writer x (t, q). (0, (t, q @ [x])))\<rparr>"

definition demo_options :: Options_net where
  "demo_options = default_options_net\<lparr>net_role := ''pub'', net_peer := ''peer:7420'', net_count := 3, net_warmup := 2, net_stack := ''cyclone''\<rparr>"

lemma demo_dds_laws: "dds_loopback demo_dds e fst snd" "dds_clock_advances demo_dds"
  by (auto simp: dds_loopback_def close_clock_def demo_dds_def dds_clock_advances_def split: list.splits intro!: exI [of _ fst])

lemma setup_peer_host_demo: "setup_peer_host demo_options True = Inr ''peer''"
  using ParseHostPort_render [of "''peer''" 7420 "''''" 0]
  by (simp add: setup_peer_host_def demo_options_def default_options_net_def text_eval)

lemma demo_dds_setup:
  "\<exists>e s1. Setup demo_dds demo_options True \<lparr>lk_env = (0, []), lk_log = []\<rparr> = (Inr e, s1) \<and> snd (lk_env s1) = []"
  by (simp add: Setup_def setup_peer_host_demo) (simp add: demo_dds_def on_env_def env_do_def Let_def)

lemma demo_dds_run:
  "\<exists>line s'. RunPub_cyclone demo_dds demo_options \<lparr>lk_env = (0, []), lk_log = []\<rparr> = Some (Inr (0, line), s')"
proof -
  obtain e s1 where "Setup demo_dds demo_options True \<lparr>lk_env = (0, []), lk_log = []\<rparr> = (Inr e, s1)" "snd (lk_env s1) = []"
    using demo_dds_setup by blast
  moreover have "0 \<le> net_warmup demo_options" "0 \<le> net_count demo_options" "int_range (net_warmup demo_options + net_count demo_options)"
    by (simp_all add: demo_options_def default_options_net_def int_range_def)
  ultimately show ?thesis using RunPub_cyclone_loopback demo_dds_laws(1) by metis
qed

lemma demo_dds_setup_any:
  "setup_peer_host opt is_pub = Inr h \<Longrightarrow> \<exists>e s1. Setup demo_dds opt is_pub s = (Inr e, s1)"
  by (cases s; cases "lk_env s") (simp add: Setup_def, simp add: demo_dds_def on_env_def env_do_def Let_def)

lemma demo_dds_echo_once: "\<exists>s'. cy_echo_once demo_dds e payload s = (None, s')"
proof -
  obtain t q where s: "lk_env s = (t, q)" by fastforce
  show ?thesis
    by (cases q) (simp_all add: s cy_echo_once_def demo_dds_def on_env_def WriteSample_def NowNs_def note_event_def Let_def)
qed

lemma demo_dds_echoes: "\<exists>s'. iterate_echo (cy_echo_once demo_dds e payload) n s = (None, s')"
proof (induction n arbitrary: s)
  case (Suc n)
  obtain s1 where "cy_echo_once demo_dds e payload s = (None, s1)" using demo_dds_echo_once by blast
  then show ?case using Suc [of s1] by simp
qed simp

lemma demo_dds_sub:
  assumes "setup_peer_host opt False = Inr h" shows "\<exists>s'. RunSub_cyclone demo_dds opt n s = (Inr None, s')"
proof -
  obtain e s1 where "Setup demo_dds opt False s = (Inr e, s1)" using demo_dds_setup_any [OF assms] by blast
  moreover obtain b s2 where "WaitMatched demo_dds (en_writer e) 30000 s1 = (b, s2)" by fastforce
  moreover obtain s3 where "iterate_echo (cy_echo_once demo_dds e (replicate (unat (net_size opt)) 0)) n s2 = (None, s3)"
    using demo_dds_echoes by blast
  ultimately show ?thesis by (simp add: RunSub_cyclone_def Let_def)
qed

section \<open>Properties\<close>





text \<open>
  On a network that echoes every sample at once, the Cyclone publisher exits with 0 and its
  CSV line reports exactly \<open>--count\<close> measurements.
\<close>

theorem cyclone_net_main_succeeds:
  assumes "ParseOptions_net args (default_options_net\<lparr>net_stack := ''cyclone''\<rparr>) = Inr opt" and "net_role opt = ''pub''"
    and "Setup d opt True s = (Inr e, s1)" and "dds_loopback d e tm q" and "q (lk_env s1) = []"
    and "0 \<le> net_warmup opt" and "int_range (net_warmup opt + net_count opt)"
  shows "\<exists>half line s'. cyclone_net_main d args n s = Some (Inr (Some 0, line), s') \<and>
    PrintCsv_net opt half = Inr line \<and> length half = nat (net_count opt)"
proof -
  have "0 \<le> net_count opt" using ParseOptions_net_ok [OF assms(1)] by (simp add: net_options_ok_def)
  then obtain half line s' where "RunPub_cyclone d opt s = Some (Inr (0, line), s')" "PrintCsv_net opt half = Inr line"
    "length half = nat (net_count opt)"
    using RunPub_cyclone_loopback [OF assms(3-6)] assms(7) by blast
  then show ?thesis using assms(1,2) by (auto simp: cyclone_net_main_def)
qed

lemma cyclone_net_main_succeeds_witness:
  "\<exists>half line s'. cyclone_net_main demo_dds (net_render_args demo_options) 0 \<lparr>lk_env = (0, []), lk_log = []\<rparr> =
     Some (Inr (Some 0, line), s') \<and> PrintCsv_net demo_options half = Inr line \<and> length half = 3"
proof -
  obtain e s1 where s: "Setup demo_dds demo_options True \<lparr>lk_env = (0, []), lk_log = []\<rparr> = (Inr e, s1)" "snd (lk_env s1) = []"
    using demo_dds_setup by blast
  have o': "net_role demo_options = ''pub''" "net_count demo_options = 3" "net_stack demo_options = ''cyclone''"
    "0 \<le> net_warmup demo_options" "int_range (net_warmup demo_options + net_count demo_options)"
    by (simp_all add: demo_options_def default_options_net_def int_range_def)
  have "net_options_ok demo_options" "net_options_in_range demo_options"
    by (simp_all add: net_options_ok_def net_options_in_range_def demo_options_def default_options_net_def int_range_def)
  from ParseOptions_net_render [OF this] show ?thesis
    using cyclone_net_main_succeeds [OF _ o'(1) s(1) demo_dds_laws(1) s(2) o'(4,5)] o'(2,3) by simp
qed

text \<open>
  The Cyclone subscriber answers every sample it takes with the same sequence number, once,
  before it takes the next one.
\<close>

theorem RunSub_cyclone_echoes:
  assumes "RunSub_cyclone d opt n s = (Inr None, s')"
  shows "\<exists>ps. length ps \<le> n \<and> lk_log s' = lk_log s @ echoed_events ps"
proof -
  let ?p = "replicate (unat (net_size opt)) 0 :: bytes"
  obtain e s1 where st: "Setup d opt False s = (Inr e, s1)"
    using assms by (auto simp: RunSub_cyclone_def split: prod.splits sum.splits)
  obtain b s2 where w: "WaitMatched d (en_writer e) 30000 s1 = (b, s2)" by fastforce
  have "iterate_echo (cy_echo_once d e ?p) n s2 = (None, s')"
    using assms st w by (auto simp: RunSub_cyclone_def Let_def split: prod.splits option.splits)
  then show ?thesis
    using cy_sub.iterate_echo_log Setup_ok_log [OF st] WaitMatched_log [OF w] by fastforce
qed

lemma RunSub_cyclone_echoes_witness:
  "\<exists>s' ps. RunSub_cyclone demo_dds (default_options_net\<lparr>net_role := ''sub''\<rparr>) 2
       \<lparr>lk_env = (0, [\<lparr>bs_seq = 7, bs_send_ns = 1, bs_data = []\<rparr>]), lk_log = []\<rparr> = (Inr None, s') \<and>
     length ps \<le> 2 \<and> lk_log s' = echoed_events ps"
proof -
  let ?o = "default_options_net\<lparr>net_role := ''sub''\<rparr>"
  let ?s = "\<lparr>lk_env = (0, [\<lparr>bs_seq = 7, bs_send_ns = 1, bs_data = []\<rparr>]), lk_log = []\<rparr>"
  have "\<exists>s'. RunSub_cyclone demo_dds ?o 2 ?s = (Inr None, s')"
    by (rule demo_dds_sub) (simp add: setup_peer_host_def default_options_net_def)
  then obtain s' where r: "RunSub_cyclone demo_dds ?o 2 ?s = (Inr None, s')" by blast
  from RunSub_cyclone_echoes [OF this] show ?thesis using r by auto
qed

end
