(* ===== verification/One_Way.thy ===== *)
theory One_Way
  imports Echo_Link
begin

text \<open>
  The timed loop of the shared-memory ping-pongs (\<open>RunPingPong\<close> of \<open>benchmarks/cyclone_bench.cc\<close>,
  \<open>subspace_bench.cc\<close> and \<open>zenoh_bench.cc\<close>): every iteration sends the next number, receives until
  it comes back, and measures the time since the stamp in the sample. The loop is defined once over
  the send and receive functions of a program; locales state what those promise.
\<close>

section \<open>Calls that may block\<close>

text \<open>The result of a call and the link after it, if it returns.\<close>

definition on_env_block :: "('w \<Rightarrow> ('a \<times> 'w) option) \<Rightarrow> 'w link \<Rightarrow> ('a \<times> 'w link) option" where
  "on_env_block f s = map_option (\<lambda>(a, w). (a, s\<lparr>lk_env := w\<rparr>)) (f (lk_env s))"

lemma on_env_block_log [simp]: "on_env_block f s = Some (a, s') \<Longrightarrow> lk_log s' = lk_log s"
  by (auto simp: on_env_block_def)

section \<open>The loop\<close>

text \<open>
  Sending may crash the program (a fault), skip the rest of the benchmark with a message, or
  succeed. Receiving skips the rest with a message or delivers the send time of the sample. A call
  that blocks for ever gives \<open>None\<close>. The result is the message, if any, and the latencies.
\<close>

type_synonym 's shm_send = "u64 \<Rightarrow> 's \<Rightarrow> (string option res \<times> 's) option"
type_synonym 's shm_recv = "u64 \<Rightarrow> 's \<Rightarrow> ((string + u64) \<times> 's) option"

fun one_way_rounds ::
  "'s shm_send \<Rightarrow> 's shm_recv \<Rightarrow> ('s \<Rightarrow> u64 \<times> 's) \<Rightarrow> nat \<Rightarrow> u64 \<Rightarrow> rat list \<Rightarrow> 's
   \<Rightarrow> ((string option \<times> rat list) res \<times> 's) option" where
  "one_way_rounds send recv clock 0 sq lats s = Some (Inr (None, lats), s)"
| "one_way_rounds send recv clock (Suc n) sq lats s =
     (let sq = sq + 1 in
      case send sq s of
        None \<Rightarrow> None
      | Some (Inl f, s) \<Rightarrow> Some (Inl f, s)
      | Some (Inr (Some m), s) \<Rightarrow> Some (Inr (Some m, lats), s)
      | Some (Inr None, s) \<Rightarrow>
          (case recv sq s of
             None \<Rightarrow> None
           | Some (Inl m, s) \<Rightarrow> Some (Inr (Some m, lats), s)
           | Some (Inr send_ns, s) \<Rightarrow>
               (case clock s of (now, s) \<Rightarrow>
                one_way_rounds send recv clock n sq (lats @ [OneWayLatencySec send_ns now]) s)))"

text \<open>
  The numbers that a whole benchmark reports: those of \<open>ReportLatencyCounters\<close> in an empty set of
  counters.
\<close>

definition reported_counters :: "(string option \<times> rat list) \<Rightarrow> string option \<times> counters res" where
  "reported_counters y = (case y of (err, lats) \<Rightarrow> (err, ReportLatencyCounters Map.empty lats))"

text \<open>A sample taken in the multithreaded benchmark: its stamp, whether it was waiting, and the wait for it.\<close>

record fresh =
  fr_send_ns :: u64
  fr_was_queued :: bool
  fr_wait_ns :: u64

section \<open>The sizes\<close>

text \<open>The payload sizes that the ping-pongs and the multithreaded benchmarks are registered with.\<close>

definition PingPongArgs :: "nat list" where
  "PingPongArgs = [64, 1024, 16 * 1024, 64 * 1024, 256 * 1024, 1024 * 1024, 4 * 1024 * 1024]"

definition OneWayLatencyArgs :: "nat list" where
  "OneWayLatencyArgs = [1024, 16 * 1024, 64 * 1024, 256 * 1024, 1024 * 1024, 4 * 1024 * 1024]"

section \<open>What a round leaves in the log\<close>

text \<open>A round: number, send time, and numbers of the stale samples skipped.\<close>

type_synonym ping_round = "u64 \<times> u64 \<times> u64 list"

fun ping_events :: "ping_round \<Rightarrow> link_event list" where
  "ping_events (sq, ns, stale) = Sent sq ns # map Got stale @ [Got sq]"

text \<open>The contract holds for the numbers \<open>ok\<close>: one program gives the number 0 a meaning of its own.\<close>

locale one_way_link =
  fixes send :: "'s shm_send"
    and recv :: "'s shm_recv"
    and clock :: "'s \<Rightarrow> u64 \<times> 's"
    and log :: "'s \<Rightarrow> link_event list"
    and ok :: "u64 \<Rightarrow> bool"
  assumes send_logs: "send sq s = Some (Inr None, s') \<Longrightarrow> \<exists>ns. log s' = log s @ [Sent sq ns]"
    and recv_logs: "recv sq s = Some (Inr send_ns, s') \<Longrightarrow> ok sq \<Longrightarrow> \<exists>stale. log s' = log s @ map Got stale @ [Got sq]"
    and clock_quiet: "clock s = (t, s') \<Longrightarrow> log s' = log s"
begin

lemma rounds_log:
  assumes "one_way_rounds send recv clock n sq lats s = Some (Inr (None, lats'), s')"
    and "\<And>k. k < n \<Longrightarrow> ok (sq + 1 + of_nat k)"
  shows "\<exists>rounds. map fst rounds = map (\<lambda>k. sq + 1 + of_nat k) [0..<n] \<and>
    log s' = log s @ concat (map ping_events rounds) \<and> length lats' = length lats + n"
  using assms
proof (induction n arbitrary: sq lats s)
  case (Suc n)
  obtain s1 where w: "send (sq + 1) s = Some (Inr None, s1)"
    using Suc.prems(1) by (auto simp: Let_def split: option.splits sum.splits)
  obtain ns' s2 where r: "recv (sq + 1) s1 = Some (Inr ns', s2)"
    using Suc.prems(1) w by (auto simp: Let_def split: option.splits sum.splits)
  obtain now s3 where c: "clock s2 = (now, s3)" by fastforce
  have rest: "one_way_rounds send recv clock n (sq + 1) (lats @ [OneWayLatencySec ns' now]) s3 = Some (Inr (None, lats'), s')"
    using Suc.prems(1) w r c by (simp add: Let_def)
  have "ok (sq + 1 + 1 + of_nat k)" if "k < n" for k
    using Suc.prems(2) [of "Suc k"] that by (simp add: add.assoc)
  from Suc.IH [OF rest this] obtain rounds where IH: "map fst rounds = map (\<lambda>k. sq + 1 + 1 + of_nat k) [0..<n]"
    "log s' = log s3 @ concat (map ping_events rounds)" "length lats' = Suc (length lats) + n" by auto
  obtain ns where "log s1 = log s @ [Sent (sq + 1) ns]" using send_logs [OF w] by blast
  moreover obtain stale where "log s2 = log s1 @ map Got stale @ [Got (sq + 1)]" using recv_logs [OF r] Suc.prems(2) [of 0] by auto
  ultimately have "log s' = log s @ concat (map ping_events ((sq + 1, ns, stale) # rounds))"
    using IH(2) clock_quiet [OF c] by simp
  moreover have "map (\<lambda>k. sq + 1 + of_nat k) [0..<Suc n] = (sq + 1) # map (\<lambda>k. sq + 1 + 1 + of_nat k) [0..<n]"
    by (simp add: map_upt_Suc add.assoc del: upt_Suc)
  ultimately show ?case using IH(1,3) by (intro exI [of _ "(sq + 1, ns, stale) # rounds"]) (simp del: upt_Suc)
qed simp

end

text \<open>
  A channel on which every sample sent from an idle state is received back, with the send time
  that it was stamped with.
\<close>

locale one_way_channel = one_way_link +
  fixes idle :: "'a \<Rightarrow> bool"
  assumes delivered: "idle s \<Longrightarrow> \<exists>s' s'' ns. send sq s = Some (Inr None, s') \<and> recv sq s' = Some (Inr ns, s'') \<and>
      log s'' = log s @ [Sent sq ns, Got sq] \<and> idle s''"
    and clock_idle: "idle s \<Longrightarrow> idle (snd (clock s))"
begin

lemma rounds_delivered:
  assumes "idle s"
  shows "\<exists>s' nss nows. one_way_rounds send recv clock n sq lats s = Some (Inr (None, lats @ map2 OneWayLatencySec nss nows), s') \<and>
    idle s' \<and> length nss = n \<and> length nows = n \<and>
    log s' = log s @ concat (map2 (\<lambda>k ns. [Sent (sq + 1 + of_nat k) ns, Got (sq + 1 + of_nat k)]) [0..<n] nss)"
  using assms
proof (induction n arbitrary: sq lats s)
  case (Suc n)
  obtain s1 s2 ns where d: "send (sq + 1) s = Some (Inr None, s1)" "recv (sq + 1) s1 = Some (Inr ns, s2)"
    "log s2 = log s @ [Sent (sq + 1) ns, Got (sq + 1)]" "idle s2"
    using delivered [OF Suc.prems] by blast
  obtain now s3 where c: "clock s2 = (now, s3)" by fastforce
  have i3: "idle s3" using clock_idle [OF d(4)] c by simp
  from Suc.IH [OF i3, of "sq + 1" "lats @ [OneWayLatencySec ns now]"] obtain s' nss nows where
    IH: "one_way_rounds send recv clock n (sq + 1) (lats @ [OneWayLatencySec ns now]) s3 =
        Some (Inr (None, (lats @ [OneWayLatencySec ns now]) @ map2 OneWayLatencySec nss nows), s')"
      "idle s'" "length nss = n" "length nows = n"
      "log s' = log s3 @ concat (map2 (\<lambda>k ns. [Sent (sq + 1 + 1 + of_nat k) ns, Got (sq + 1 + 1 + of_nat k)]) [0..<n] nss)"
    by blast
  have "map2 (\<lambda>k ns. [Sent (sq + 1 + of_nat k) ns, Got (sq + 1 + of_nat k)]) [0..<Suc n] (ns # nss) =
      [Sent (sq + 1) ns, Got (sq + 1)] # map2 (\<lambda>k ns. [Sent (sq + 1 + 1 + of_nat k) ns, Got (sq + 1 + 1 + of_nat k)]) [0..<n] nss"
    by (simp add: upt_conv_Cons zip_map1 map_Suc_upt [symmetric] o_def case_prod_beta add.assoc del: upt_Suc)
  then have "log s' = log s @ concat (map2 (\<lambda>k ns. [Sent (sq + 1 + of_nat k) ns, Got (sq + 1 + of_nat k)]) [0..<Suc n] (ns # nss))"
    using IH(5) d(3) clock_quiet [OF c] by simp
  then show ?case using d c IH by (intro exI [of _ s'] exI [of _ "ns # nss"] exI [of _ "now # nows"]) (simp add: Let_def)
qed simp

end

section \<open>The benchmark thread of the multithreaded benchmarks\<close>

text \<open>
  An iteration updates the take statistics and the latencies, or ends the benchmark with a message.
  Whatever ends the iterations, the publisher thread is stopped and joined, and both sets of
  counters are reported.
\<close>

type_synonym mt_result = "MtTakeStats \<times> rat list"
type_synonym 's mt_body = "mt_result \<Rightarrow> 's \<Rightarrow> ((string option \<times> mt_result) \<times> 's) option"

fun mt_iterations :: "'s mt_body \<Rightarrow> nat \<Rightarrow> 's mt_body" where
  "mt_iterations body 0 y s = Some ((None, y), s)"
| "mt_iterations body (Suc n) y s =
     (case body y s of
        None \<Rightarrow> None
      | Some ((Some m, y), s) \<Rightarrow> Some ((Some m, y), s)
      | Some ((None, y), s) \<Rightarrow> mt_iterations body n y s)"

lemma mt_iterations_return: "(\<And>y s. body y s \<noteq> None) \<Longrightarrow> mt_iterations body n y s \<noteq> None"
proof (induction n arbitrary: y s)
  case (Suc n)
  obtain e y' s' where "body y s = Some ((e, y'), s')" using Suc.prems [of y s] by fastforce
  then show ?case using Suc by (cases e) (simp_all del: not_None_eq)
qed simp

definition mt_benchmark ::
  "'w link mt_body \<Rightarrow> nat \<Rightarrow> 'w link \<Rightarrow> ((string option \<times> counters res) res \<times> 'w link) option" where
  "mt_benchmark body n s =
     map_option (\<lambda>((err, stats, lats), s).
         (Inr (err, rbind (ReportLatencyCounters Map.empty lats) (\<lambda>cs. Inr (Report cs stats))), note_event (Call ''join'' 1) s))
       (mt_iterations body n (mt_init, []) (note_event (Call ''thread'' 1) s))"

text \<open>What a piece of the thread takes: samples, each received and recorded once.\<close>

definition takes_recorded :: "link_event list \<Rightarrow> MtTakeStats \<Rightarrow> link_event list \<Rightarrow> MtTakeStats \<Rightarrow> nat \<Rightarrow> bool" where
  "takes_recorded es stats es' stats' k \<longleftrightarrow>
     (\<exists>gs. es' = es @ map Got gs \<and> length gs = k \<and> mt_n stats' = mt_n stats + of_nat k)"

lemma mt_n_Record [simp]: "mt_n (Record e q w stats) = mt_n stats + 1"
  by (simp add: Record_def Let_def)

lemma takes_recorded_trans:
  assumes "takes_recorded es stats es1 stats1 j" and "takes_recorded es1 stats1 es' stats' k"
  shows "takes_recorded es stats es' stats' (j + k)"
proof -
  obtain gs hs where "es1 = es @ map Got gs" "length gs = j" "mt_n stats1 = mt_n stats + of_nat j"
    "es' = es1 @ map Got hs" "length hs = k" "mt_n stats' = mt_n stats1 + of_nat k"
    using assms by (auto simp: takes_recorded_def)
  then show ?thesis by (auto simp: takes_recorded_def add.assoc intro!: exI [of _ "gs @ hs"])
qed

locale mt_thread =
  fixes body :: "'s mt_body" and log :: "'s \<Rightarrow> link_event list"
  assumes body_takes: "body (stats, lats) s = Some ((None, stats', lats'), s') \<Longrightarrow>
    length lats' = Suc (length lats) \<and> (\<exists>k. 1 \<le> k \<and> k \<le> 33 \<and> takes_recorded (log s) stats (log s') stats' k)"
begin

lemma iterations_take:
  assumes "mt_iterations body n (stats, lats) s = Some ((None, stats', lats'), s')"
  shows "length lats' = length lats + n \<and> (\<exists>k. n \<le> k \<and> k \<le> 33 * n \<and> takes_recorded (log s) stats (log s') stats' k)"
  using assms
proof (induction n arbitrary: stats lats s)
  case 0
  then show ?case by (auto simp: takes_recorded_def)
next
  case (Suc n)
  obtain stats1 lats1 s1 where it: "body (stats, lats) s = Some ((None, stats1, lats1), s1)"
    and rest: "mt_iterations body n (stats1, lats1) s1 = Some ((None, stats', lats'), s')"
    using Suc.prems by (auto split: option.splits prod.splits)
  obtain k where k: "1 \<le> k" "k \<le> 33" "takes_recorded (log s) stats (log s1) stats1 k" "length lats1 = Suc (length lats)"
    using body_takes [OF it] by blast
  obtain j where j: "n \<le> j" "j \<le> 33 * n" "takes_recorded (log s1) stats1 (log s') stats' j" "length lats' = length lats1 + n"
    using Suc.IH [OF rest] by blast
  show ?case using k j takes_recorded_trans [OF k(3) j(3)] by (intro conjI exI [of _ "k + j"]) auto
qed

end

text \<open>The same of a whole benchmark over a link.\<close>

locale mt_link_thread = mt_thread body lk_log for body :: "'w link mt_body"
begin

lemma benchmark_takes:
  assumes "mt_benchmark body n s = Some (Inr (None, r), s')"
  shows "\<exists>gs lats stats. lk_log s' = lk_log s @ [Call ''thread'' 1] @ map Got gs @ [Call ''join'' 1] \<and>
    n \<le> length gs \<and> length gs \<le> 33 * n \<and> length lats = n \<and> mt_n stats = of_nat (length gs) \<and>
    r = rbind (ReportLatencyCounters Map.empty lats) (\<lambda>cs. Inr (Report cs stats))"
proof -
  obtain stats lats s1 where it: "mt_iterations body n (mt_init, []) (note_event (Call ''thread'' 1) s) = Some ((None, stats, lats), s1)"
    and r: "r = rbind (ReportLatencyCounters Map.empty lats) (\<lambda>cs. Inr (Report cs stats))" "s' = note_event (Call ''join'' 1) s1"
    using assms by (auto simp: mt_benchmark_def)
  obtain k gs where "n \<le> k" "k \<le> 33 * n" "lk_log s1 = lk_log (note_event (Call ''thread'' 1) s) @ map Got gs" "length gs = k"
    "mt_n stats = mt_n mt_init + of_nat k" "length lats = n"
    using iterations_take [OF it] by (auto simp: takes_recorded_def)
  then show ?thesis
    using r by (intro exI [of _ gs] exI [of _ lats] exI [of _ stats]) (simp add: note_event_def mt_init_def)
qed

end

section \<open>Returning\<close>

text \<open>A program whose send and receive functions return, from states that satisfy an invariant.\<close>

locale one_way_live =
  fixes send :: "'s shm_send"
    and recv :: "'s shm_recv"
    and clock :: "'s \<Rightarrow> u64 \<times> 's"
    and live :: "'s \<Rightarrow> bool"
  assumes send_returns: "live s \<Longrightarrow> \<exists>r s'. send sq s = Some (r, s') \<and> live s'"
    and recv_returns: "live s \<Longrightarrow> \<exists>r s'. recv sq s = Some (r, s') \<and> live s'"
    and clock_live: "live s \<Longrightarrow> live (snd (clock s))"
begin

lemma rounds_return:
  "live s \<Longrightarrow> \<exists>r s'. one_way_rounds send recv clock n sq lats s = Some (r, s')"
proof (induction n arbitrary: sq lats s)
  case (Suc n)
  obtain r1 s1 where sd: "send (sq + 1) s = Some (r1, s1)" "live s1" using send_returns [OF Suc.prems] by blast
  obtain r2 s2 where rc: "recv (sq + 1) s1 = Some (r2, s2)" "live s2" using recv_returns [OF sd(2)] by blast
  obtain now s3 where c: "clock s2 = (now, s3)" by fastforce
  have "live s3" using clock_live [OF rc(2)] c by simp
  from Suc.IH [OF this] show ?case
    using sd(1) rc(1) c by (cases r1; cases r2) (auto simp: Let_def split: option.split)
qed simp

end

end
