(* ===== verification/Shm_Bench.thy ===== *)
theory Shm_Bench
  imports Cyclone_Net One_Way
begin

text \<open>
  The shared-memory benchmark of Cyclone DDS (\<open>benchmarks/cyclone_bench.cc\<close>) and the child process
  it needs (\<open>benchmarks/process.h\<close>): the fixture that starts iceoryx's \<open>iox-roudi\<close>, the
  single-threaded ping-pong, and the receive function of the multithreaded benchmark, whose
  threads are in \<open>Credit_Flow\<close>.
\<close>

section \<open>The operating system\<close>

record 'w host =
  h_fork :: "'w \<Rightarrow> int \<times> 'w"
  h_sleep :: "int \<Rightarrow> 'w \<Rightarrow> 'w"
  h_kill :: "int \<Rightarrow> 'w \<Rightarrow> 'w"
  h_waitpid :: "int \<Rightarrow> 'w \<Rightarrow> 'w"
  h_temp_dir :: string
  h_getpid :: nat
  h_write_file :: "string \<Rightarrow> string \<Rightarrow> 'w \<Rightarrow> 'w"
  h_getenv :: "string \<Rightarrow> string option"
  h_setenv :: "string \<Rightarrow> string \<Rightarrow> 'w \<Rightarrow> 'w"
  h_self_exe :: "string option"
  h_access_x :: "string \<Rightarrow> 'w \<Rightarrow> bool \<times> 'w"

section \<open>Child processes\<close>

text \<open>
  What \<open>fork\<close> leaves: an exception, the child (which becomes another program with these
  arguments and environment, or exits with 127), or the parent holding the child's number.
\<close>

datatype forked = Fork_failed | In_child string "string list" "string list" | In_parent int

definition ChildProcess :: "'w host \<Rightarrow> string \<Rightarrow> string list \<Rightarrow> string list \<Rightarrow> 'w link \<Rightarrow> forked \<times> 'w link" where
  "ChildProcess h path args env_extra s =
     (case on_env (h_fork h) s of (pid, s) \<Rightarrow>
      if pid < 0 then (Fork_failed, s)
      else if pid = 0 then (In_child path (path # args) env_extra, s)
      else (In_parent pid, env_do (h_sleep h 500000000) (note_event (Call ''fork'' pid) s)))"

definition destroy_child :: "'w host \<Rightarrow> int \<Rightarrow> 'w link \<Rightarrow> 'w link" where
  "destroy_child h pid s =
     (if 0 < pid
      then note_event (Call ''waitpid'' pid) (env_do (h_waitpid h pid)
             (note_event (Call ''kill'' pid) (env_do (h_kill h pid) s)))
      else s)"

definition WriteTempFile :: "'w host \<Rightarrow> string \<Rightarrow> string \<Rightarrow> 'w link \<Rightarrow> string \<times> 'w link" where
  "WriteTempFile h pre contents s =
     (let path = h_temp_dir h @ ''/'' @ pre @ ''.'' @ show_nat (h_getpid h) @ ''.tmp'' in
      (path, env_do (h_write_file h path contents) s))"

section \<open>The fixture\<close>

text \<open>Its static members; no child is \<open>None\<close>.\<close>

record CycloneShmFixture =
  fx_participant :: int
  fx_iox_cfg :: string
  fx_dds_cfg :: string
  fx_roudi :: "int option"

definition new_fixture :: CycloneShmFixture where
  "new_fixture = \<lparr>fx_participant = 0, fx_iox_cfg = '''', fx_dds_cfg = '''', fx_roudi = None\<rparr>"

definition kShmConfig :: string where
  \<open>kShmConfig =
     ''<?xml version="1.0" encoding="UTF-8" ?>\<newline><CycloneDDS>\<newline>  <Domain id="any">\<newline>'' @
     ''    <SharedMemory>\<newline>      <Enable>true</Enable>\<newline>      <LogLevel>info</LogLevel>\<newline>'' @
     ''    </SharedMemory>\<newline>  </Domain>\<newline></CycloneDDS>\<newline>''\<close>

definition iox_mempools :: "(nat \<times> nat) list" where
  "iox_mempools = [(128, 512), (1024, 512), (16384, 128), (65536, 128), (131072, 128), (262144, 64), (524288, 64),
     (1048576, 32), (2097152, 16), (4194304, 64), (8388608, 64)]"

definition kIoxConfig :: string where
  \<open>kIoxConfig = ''\<newline>[general]\<newline>version = 1\<newline>\<newline>[[segment]]\<newline>'' @
     concat (map (\<lambda>(sz, cnt). ''\<newline>[[segment.mempool]]\<newline>size = '' @ show_nat sz @ ''\<newline>count = '' @ show_nat cnt @ ''\<newline>'') iox_mempools)\<close>

text \<open>The first root under which the executable is found.\<close>

fun find_roudi :: "'w host \<Rightarrow> string list \<Rightarrow> 'w link \<Rightarrow> string \<times> 'w link" where
  "find_roudi h [] s = ('''', s)"
| "find_roudi h (dir # dirs) s =
     (let cand = dir @ ''/+third_party+iceoryx/iceoryx/bin/iox-roudi'' in
      case on_env (h_access_x h cand) s of (ok, s) \<Rightarrow> if ok then (cand, s) else find_roudi h dirs s)"

definition roudi_path :: "'w host \<Rightarrow> 'w link \<Rightarrow> string \<times> 'w link" where
  "roudi_path h s =
     (case h_getenv h ''MW_BENCH_ROUDI'' of
        Some roudi \<Rightarrow> (roudi, s)
      | None \<Rightarrow>
          find_roudi h
            ((case h_getenv h ''RUNFILES_DIR'' of Some dir \<Rightarrow> [dir] | None \<Rightarrow> []) @
             (case h_self_exe h of Some self \<Rightarrow> if self \<noteq> '''' then [self @ ''.runfiles''] else [] | None \<Rightarrow> [])) s)"

text \<open>
  \<open>SetUp\<close>: how it ends, and the fixture it leaves. Assigning \<open>roudi_\<close> destroys the child held
  before, after the new one was started. In the child nothing of the benchmark goes on.
\<close>

datatype setup_end = Setup_ok | Setup_throws string | Setup_child string "string list"

definition SetUp ::
  "'w host \<Rightarrow> 'w dds \<Rightarrow> CycloneShmFixture \<Rightarrow> 'w link \<Rightarrow> (setup_end \<times> CycloneShmFixture) \<times> 'w link" where
  "SetUp h d fx s =
     (if 0 < fx_participant fx then ((Setup_ok, fx), s)
      else case WriteTempFile h ''iox'' kIoxConfig s of (iox, s) \<Rightarrow>
        case WriteTempFile h ''cyclone_shm'' kShmConfig s of (cfg, s) \<Rightarrow>
        let fx = fx\<lparr>fx_iox_cfg := iox, fx_dds_cfg := cfg\<rparr>;
            s = env_do (h_setenv h ''CYCLONEDDS_URI'' (''file://'' @ cfg)) s in
        case roudi_path h s of (path, s) \<Rightarrow>
        if path = '''' then ((Setup_throws ''iox-roudi not found; set MW_BENCH_ROUDI or run via `bazel run`'', fx), s)
        else case ChildProcess h path [''-c'', iox] [] s of
            (Fork_failed, s) \<Rightarrow> ((Setup_throws ''fork failed'', fx), s)
          | (In_child prog argv env, s) \<Rightarrow> ((Setup_child prog argv, fx), s)
          | (In_parent pid, s) \<Rightarrow>
              let s = (case fx_roudi fx of Some old \<Rightarrow> destroy_child h old s | None \<Rightarrow> s);
                  fx = fx\<lparr>fx_roudi := Some pid\<rparr> in
              case on_env (dds_create_participant d) s of (pp, s) \<Rightarrow>
              let fx = fx\<lparr>fx_participant := pp\<rparr> in
              if pp < 0 then ((Setup_throws ''shm: dds_create_participant failed'', fx), s)
              else ((Setup_ok, fx), s))"

definition Shutdown :: "'w host \<Rightarrow> CycloneShmFixture \<Rightarrow> 'w link \<Rightarrow> CycloneShmFixture \<times> 'w link" where
  "Shutdown h fx s =
     (let (fx, s) = (if 0 < fx_participant fx
                     then (fx\<lparr>fx_participant := 0\<rparr>, note_event (Call ''dds_delete'' (fx_participant fx)) s)
                     else (fx, s)) in
      (fx\<lparr>fx_roudi := None\<rparr>, (case fx_roudi fx of Some pid \<Rightarrow> destroy_child h pid s | None \<Rightarrow> s)))"

text \<open>The fixture is set up again before every benchmark, in one process.\<close>

fun set_up_all ::
  "'w host \<Rightarrow> 'w dds \<Rightarrow> nat \<Rightarrow> CycloneShmFixture \<Rightarrow> 'w link \<Rightarrow> (setup_end \<times> CycloneShmFixture) \<times> 'w link" where
  "set_up_all h d 0 fx s = ((Setup_ok, fx), s)"
| "set_up_all h d (Suc n) fx s =
     (case SetUp h d fx s of
        ((Setup_ok, fx), s) \<Rightarrow> set_up_all h d n fx s
      | ((e, fx), s) \<Rightarrow> ((e, fx), s))"

section \<open>Receiving\<close>

text \<open>The receive function of the ping-pong: the sample with the wanted number.\<close>

partial_function (option) take_sample_until ::
  "'w dds \<Rightarrow> int \<Rightarrow> int \<Rightarrow> u64 \<Rightarrow> int \<Rightarrow> 'w link \<Rightarrow> (Bench_Sample option \<times> 'w link) option" where
  "take_sample_until d reader waitset want deadline s =
     (case on_env (dds_clock d) s of (now, s) \<Rightarrow>
      if \<not> now < deadline then Some (None, s)
      else case on_env (dds_take d reader) s of ((rc, valid_data, sample), s) \<Rightarrow>
        if rc < 0 then Some (None, s)
        else if rc > 0 \<and> valid_data
        then let s = note_event (Got (bs_seq sample)) s in
          if bs_seq sample = want then Some (Some sample, s)
          else take_sample_until d reader waitset want deadline s
        else take_sample_until d reader waitset want deadline (env_do (dds_waitset_wait d waitset 50000000) s))"

definition TakeSample :: "'w dds \<Rightarrow> int \<Rightarrow> int \<Rightarrow> u64 \<Rightarrow> int \<Rightarrow> 'w link \<Rightarrow> (Bench_Sample option \<times> 'w link) option" where
  "TakeSample d reader waitset want timeout_ms s =
     (case on_env (dds_clock d) s of (now, s) \<Rightarrow>
      take_sample_until d reader waitset want (now + timeout_ms * 1000000) s)"

text \<open>
  The receive function of the multithreaded benchmark: any sample, with whether it was already
  queued and the time spent waiting for it.
\<close>

partial_function (option) take_one_until ::
  "'w dds \<Rightarrow> int \<Rightarrow> int \<Rightarrow> int \<Rightarrow> u64 \<Rightarrow> 'w link \<Rightarrow> (fresh option \<times> 'w link) option" where
  "take_one_until d reader waitset deadline wait_ns s =
     (case on_env (dds_clock d) s of (now, s) \<Rightarrow>
      if \<not> now < deadline then Some (None, s)
      else case NowNs (dds_clock d) s of (w0, s) \<Rightarrow>
        case NowNs (dds_clock d) (env_do (dds_waitset_wait d waitset 50000000) s) of (w1, s) \<Rightarrow>
        case on_env (dds_take d reader) s of ((rc, valid_data, sample), s) \<Rightarrow>
        if rc < 0 then Some (None, s)
        else if rc > 0 \<and> valid_data
        then Some (Some \<lparr>fr_send_ns = bs_send_ns sample, fr_was_queued = False, fr_wait_ns = wait_ns + (w1 - w0)\<rparr>,
                   note_event (Got (bs_seq sample)) s)
        else take_one_until d reader waitset deadline (wait_ns + (w1 - w0)) s)"

definition TakeOne :: "'w dds \<Rightarrow> int \<Rightarrow> int \<Rightarrow> int \<Rightarrow> 'w link \<Rightarrow> (fresh option \<times> 'w link) option" where
  "TakeOne d reader waitset timeout_ms s =
     (case on_env (dds_take d reader) s of ((rc, valid_data, sample), s) \<Rightarrow>
      if rc < 0 then Some (None, s)
      else if rc > 0 \<and> valid_data
      then Some (Some \<lparr>fr_send_ns = bs_send_ns sample, fr_was_queued = True, fr_wait_ns = 0\<rparr>,
                 note_event (Got (bs_seq sample)) s)
      else case on_env (dds_clock d) s of (now, s) \<Rightarrow>
        take_one_until d reader waitset (now + timeout_ms * 1000000) 0 s)"

section \<open>The ping-pong\<close>

text \<open>Quality of service: reliability, and the depth of the history.\<close>

record qos =
  q_reliable :: bool
  q_max_blocking_ns :: int
  q_keep_last :: nat
  q_volatile :: bool

definition SetQos :: "bool \<Rightarrow> qos" where
  "SetQos reliable = \<lparr>q_reliable = reliable, q_max_blocking_ns = 1000000000, q_keep_last = 4, q_volatile = True\<rparr>"

record 'w shm_dds = "'w dds" +
  sd_create_writer :: "int \<Rightarrow> int \<Rightarrow> qos \<Rightarrow> 'w \<Rightarrow> int \<times> 'w"
  sd_create_reader :: "int \<Rightarrow> int \<Rightarrow> qos \<Rightarrow> 'w \<Rightarrow> int \<times> 'w"

text \<open>Writing and receiving in an iteration; an error message ends the loop.\<close>

definition cy_put :: "'w dds \<Rightarrow> int \<Rightarrow> bytes \<Rightarrow> 'w link shm_send" where
  "cy_put d writer payload sq s =
     (case WriteSample d writer sq payload s of (rc, s) \<Rightarrow>
      Some (Inr (if rc < 0 then Some ''dds_write failed'' else None), s))"

definition cy_get :: "'w dds \<Rightarrow> int \<Rightarrow> int \<Rightarrow> 'w link shm_recv" where
  "cy_get d reader waitset sq s =
     (case TakeSample d reader waitset sq 2000 s of
        None \<Rightarrow> None
      | Some (None, s) \<Rightarrow> Some (Inl ''timed out waiting for sample'', s)
      | Some (Some got, s) \<Rightarrow> Some (Inr (bs_send_ns got), s))"

text \<open>
  What both benchmarks do first and last: topic, writer and reader, the match, the sample and the
  waitset; afterwards the waitset is deleted and the sample freed. The topic name ends in the address
  of the benchmark's state. The result is the error message, if any, and the counters reported;
  before the samples are allocated nothing is reported.
\<close>

definition shm_topic :: "string \<Rightarrow> string \<Rightarrow> bool \<Rightarrow> nat \<Rightarrow> nat \<Rightarrow> string" where
  "shm_topic pre kind reliable size_bytes state_addr =
     pre @ kind @ (if reliable then ''1'' else ''0'') @ ''_'' @ show_nat size_bytes @ ''_'' @ show_nat state_addr"

definition with_shm_channel ::
  "'w shm_dds \<Rightarrow> int \<Rightarrow> string \<Rightarrow> bool \<Rightarrow> nat \<Rightarrow> 'w link
   \<Rightarrow> (int \<Rightarrow> int \<Rightarrow> int \<Rightarrow> 'w link \<Rightarrow> ((string option \<times> counters res) res \<times> 'w link) option)
   \<Rightarrow> ((string option \<times> counters res) res \<times> 'w link) option" where
  "with_shm_channel d pp topic_name reliable timeout_ms s k =
     (let q = SetQos reliable in
      case on_env (dds_create_topic d pp topic_name) s of (topic, s) \<Rightarrow>
      case on_env (sd_create_writer d pp topic q) s of (writer, s) \<Rightarrow>
      case on_env (sd_create_reader d pp topic q) s of (reader, s) \<Rightarrow>
      if topic < 0 \<or> writer < 0 \<or> reader < 0
      then Some (Inr (Some ''failed to create topic/writer/reader'', Inr Map.empty), s)
      else case WaitMatched (dds.truncate d) writer timeout_ms s of (matched, s) \<Rightarrow>
      if \<not> matched then Some (Inr (Some ''publication not matched'', Inr Map.empty), s)
      else let s = note_event (Call ''Bench_Sample__alloc'' 0) s in
      case on_env (dds_create_waitset d pp) s of (waitset, s) \<Rightarrow>
      case on_env (dds_create_readcondition d reader) s of (rdcond, s) \<Rightarrow>
      case (if waitset < 0 \<or> rdcond < 0 then (-1, s) else on_env (dds_waitset_attach d waitset rdcond reader) s) of (rc, s) \<Rightarrow>
      if rc < 0
      then Some (Inr (Some ''failed to create waitset'', Inr Map.empty), note_event (Call ''Bench_Sample_free'' 0) s)
      else case k writer reader waitset s of
          None \<Rightarrow> None
        | Some (Inl f, s) \<Rightarrow> Some (Inl f, s)
        | Some (Inr y, s) \<Rightarrow>
            let s = note_event (Call ''dds_delete'' waitset) s; s = note_event (Call ''Bench_Sample_free'' 0) s in
            Some (Inr y, s))"

definition RunPingPong ::
  "'w shm_dds \<Rightarrow> int \<Rightarrow> string \<Rightarrow> bool \<Rightarrow> nat \<Rightarrow> nat \<Rightarrow> nat \<Rightarrow> 'w link \<Rightarrow> ((string option \<times> counters res) res \<times> 'w link) option" where
  "RunPingPong d pp pre reliable size_bytes state_addr n s =
     (let b = dds.truncate d in
      with_shm_channel d pp (shm_topic pre ''_pp_'' reliable size_bytes state_addr) reliable 2000 s (\<lambda>writer reader waitset s.
        map_option (\<lambda>(r, s). (map_sum id reported_counters r, s))
          (one_way_rounds (cy_put b writer (replicate size_bytes 0)) (cy_get b reader waitset) (NowNs (dds_clock b)) n 0 [] s)))"

section \<open>The multithreaded benchmark\<close>

text \<open>
  The drain at the start of an iteration: up to 32 samples are taken and recorded as queued; then
  the timed sample. The credits are released in \<open>Credit_Flow\<close>.
\<close>

fun cy_drain :: "'w dds \<Rightarrow> int \<Rightarrow> nat \<Rightarrow> MtTakeStats \<Rightarrow> 'w link \<Rightarrow> (string option \<times> MtTakeStats) \<times> 'w link" where
  "cy_drain d reader 0 stats s = ((None, stats), s)"
| "cy_drain d reader (Suc n) stats s =
     (case on_env (dds_take d reader) s of ((rc, valid_data, sample), s) \<Rightarrow>
      if rc < 0 then ((Some ''dds_take failed while draining'', stats), s)
      else if rc = 0 \<or> \<not> valid_data then ((None, stats), s)
      else case NowNs (dds_clock d) (note_event (Got (bs_seq sample)) s) of (now, s) \<Rightarrow>
        cy_drain d reader n (Record (OneWayLatencySec (bs_send_ns sample) now) True 0 stats) s)"

definition cy_iteration :: "'w dds \<Rightarrow> int \<Rightarrow> int \<Rightarrow> 'w link mt_body" where
  "cy_iteration d reader waitset y s =
     (case y of (stats, lats) \<Rightarrow>
      case cy_drain d reader 32 stats s of
        ((Some m, stats), s) \<Rightarrow> Some ((Some m, stats, lats), s)
      | ((None, stats), s) \<Rightarrow>
          (case TakeOne d reader waitset 2000 s of
             None \<Rightarrow> None
           | Some (None, s) \<Rightarrow> Some ((Some ''timed out waiting for sample'', stats, lats), s)
           | Some (Some t, s) \<Rightarrow>
               (case NowNs (dds_clock d) s of (now, s) \<Rightarrow>
                let e2e = OneWayLatencySec (fr_send_ns t) now in
                Some ((None, Record e2e (fr_was_queued t) (fl (dbl_of_u64 (fr_wait_ns t) * lit_1em9)) stats, lats @ [e2e]), s))))"

definition RunMtOneWay ::
  "'w shm_dds \<Rightarrow> int \<Rightarrow> string \<Rightarrow> bool \<Rightarrow> nat \<Rightarrow> nat \<Rightarrow> nat \<Rightarrow> 'w link \<Rightarrow> ((string option \<times> counters res) res \<times> 'w link) option" where
  "RunMtOneWay d pp pre reliable size_bytes state_addr n s =
     with_shm_channel d pp (shm_topic pre ''_mt_'' reliable size_bytes state_addr) reliable 5000 s (\<lambda>writer reader waitset s.
       mt_benchmark (cy_iteration (dds.truncate d) reader waitset) n s)"

section \<open>The child is reaped\<close>

definition children :: "link_event list \<Rightarrow> int \<Rightarrow> int" where
  "children es pid = int (count_list es (Call ''fork'' pid)) - int (count_list es (Call ''waitpid'' pid))"

lemma children_append [simp]: "children (es @ fs) pid = children es pid + children fs pid"
  by (simp add: children_def)

text \<open>The children running are those the fixture holds.\<close>

definition holds_children :: "CycloneShmFixture \<Rightarrow> 'w link \<Rightarrow> bool" where
  "holds_children fx s \<longleftrightarrow>
     (\<forall>pid. children (lk_log s) pid = (if fx_roudi fx = Some pid then 1 else 0)) \<and> (\<forall>pid. fx_roudi fx = Some pid \<longrightarrow> 0 < pid)"

lemma destroy_child_log: "0 < pid \<Longrightarrow> lk_log (destroy_child h pid s) = lk_log s @ [Call ''kill'' pid, Call ''waitpid'' pid]"
  by (simp add: destroy_child_def note_event_def)

lemma children_destroy:
  "0 < p \<Longrightarrow> children (lk_log (destroy_child h p s)) q = children (lk_log s) q - (if q = p then 1 else 0)"
  by (simp add: destroy_child_log) (simp add: children_def)

lemma ChildProcess_log:
  "ChildProcess h path args env_extra s = (r, s') \<Longrightarrow>
     (case r of In_parent pid \<Rightarrow> 0 < pid \<and> lk_log s' = lk_log s @ [Call ''fork'' pid] | _ \<Rightarrow> lk_log s' = lk_log s)"
  by (auto simp: ChildProcess_def note_event_def split: prod.splits if_splits)

lemma find_roudi_log: "find_roudi h dirs s = (p, s') \<Longrightarrow> lk_log s' = lk_log s"
  by (induction dirs arbitrary: s) (auto simp: Let_def split: prod.splits if_splits)

lemma roudi_path_log: "roudi_path h s = (p, s') \<Longrightarrow> lk_log s' = lk_log s"
  by (auto simp: roudi_path_def simp del: find_roudi.simps dest: find_roudi_log split: option.splits)

lemma WriteTempFile_log: "WriteTempFile h pre contents s = (p, s') \<Longrightarrow> lk_log s' = lk_log s"
  by (auto simp: WriteTempFile_def Let_def)

lemma SetUp_children:
  assumes "SetUp h d fx s = ((e, fx'), s')" and "holds_children fx s"
  shows "holds_children fx' s'"
proof (cases "0 < fx_participant fx")
  case True
  then show ?thesis using assms by (simp add: SetUp_def)
next
  case False
  obtain iox s1 where w1: "WriteTempFile h ''iox'' kIoxConfig s = (iox, s1)" by fastforce
  obtain cfg s2 where w2: "WriteTempFile h ''cyclone_shm'' kShmConfig s1 = (cfg, s2)" by fastforce
  obtain path s3 where w3: "roudi_path h (env_do (h_setenv h ''CYCLONEDDS_URI'' (''file://'' @ cfg)) s2) = (path, s3)" by fastforce
  obtain r s4 where w4: "ChildProcess h path [''-c'', iox] [] s3 = (r, s4)" by fastforce
  have l3: "lk_log s3 = lk_log s" using w1 w2 w3 by (simp add: roudi_path_log WriteTempFile_log)
  note unf = assms(1) [unfolded SetUp_def Let_def w1 w2 w3 w4 prod.case] False
  show ?thesis
  proof (cases "path \<noteq> [] \<and> (\<exists>pid. r = In_parent pid)")
    case True
    then obtain pid where r: "r = In_parent pid" by blast
    define s5 where "s5 = (case fx_roudi fx of Some old \<Rightarrow> destroy_child h old s4 | None \<Rightarrow> s4)"
    have l4: "0 < pid" "lk_log s4 = lk_log s @ [Call ''fork'' pid]" using ChildProcess_log [OF w4] r l3 by simp_all
    then have l5: "children (lk_log s5) p = (if p = pid then 1 else 0)" for p
    proof -
      have "children (lk_log s4) p = children (lk_log s) p + (if p = pid then 1 else 0)"
        using l4(2) by (simp add: children_def)
      then show ?thesis
        using assms(2) by (cases "fx_roudi fx") (auto simp: s5_def holds_children_def children_destroy)
    qed
    have "fx_roudi fx' = Some pid" "lk_log s' = lk_log s5"
      using unf True r by (auto simp: s5_def split: prod.splits if_splits)
    then show ?thesis using l4 l5 by (simp add: holds_children_def)
  next
    case False
    then have "fx_roudi fx' = fx_roudi fx" "lk_log s' = lk_log s"
      using unf l3 ChildProcess_log [OF w4] by (auto split: if_splits forked.splits)
    then show ?thesis using assms(2) by (simp add: holds_children_def)
  qed
qed

lemma set_up_all_children:
  "set_up_all h d n fx s = ((e, fx'), s') \<Longrightarrow> holds_children fx s \<Longrightarrow> holds_children fx' s'"
proof (induction n arbitrary: fx s)
  case (Suc n)
  obtain e1 fx1 s1 where u: "SetUp h d fx s = ((e1, fx1), s1)" by (metis surj_pair)
  have "holds_children fx1 s1" by (rule SetUp_children [OF u Suc.prems(2)])
  then show ?case using Suc u by (cases e1) auto
qed simp

lemma Shutdown_children:
  assumes "holds_children fx s" and "Shutdown h fx s = (fx', s')"
  shows "children (lk_log s') pid = 0 \<and> fx_roudi fx' = None"
proof -
  define s1 where "s1 = (if 0 < fx_participant fx then note_event (Call ''dds_delete'' (fx_participant fx)) s else s)"
  have c: "children (lk_log s1) p = children (lk_log s) p" for p by (simp add: s1_def note_event_def children_def)
  have s': "s' = (case fx_roudi fx of Some pid \<Rightarrow> destroy_child h pid s1 | None \<Rightarrow> s1)" "fx_roudi fx' = None"
    using assms(2) unfolding Shutdown_def s1_def by (auto split: if_splits)
  show ?thesis
  proof (cases "fx_roudi fx")
    case (Some p)
    then have "0 < p" using assms(1) by (simp add: holds_children_def)
    then have "children (lk_log s') pid = children (lk_log s1) pid - (if pid = p then 1 else 0)"
      using s' Some by (simp add: children_destroy)
    then show ?thesis using s' c assms(1) Some by (simp add: holds_children_def)
  qed (use s' c assms(1) in \<open>simp add: holds_children_def\<close>)
qed

section \<open>What receiving delivers\<close>

text \<open>
  The contract of \<open>TakeSample\<close>: other numbers are skipped, and the sample delivered is the wanted
  one and the last received.
\<close>

definition delivers :: "u64 \<Rightarrow> 'w link \<Rightarrow> Bench_Sample option \<times> 'w link \<Rightarrow> bool" where
  "delivers want s y \<longleftrightarrow> received_until want s (fst y \<noteq> None, snd y) \<and> (\<forall>smp. fst y = Some smp \<longrightarrow> bs_seq smp = want)"

lemma take_sample_until_delivers:
  assumes "take_sample_until d reader waitset want deadline s = Some y"
  shows "delivers want s y"
  using assms
proof (induction rule: take_sample_until.raw_induct [rotated, consumes 1, case_names step])
  case (step rec d reader waitset want deadline s y)
  obtain t s1 where c: "on_env (dds_clock d) s = (t, s1)" by fastforce
  obtain rc v smp s2 where tk: "on_env (dds_take d reader) s1 = ((rc, v, smp), s2)"
    by (metis prod_cases3 surj_pair)
  have l: "lk_log s1 = lk_log s" "lk_log s2 = lk_log s" using c tk by simp_all
  have "delivers want s y" if "rec d reader waitset want deadline (note_event (Got (bs_seq smp)) s2) = Some y" "bs_seq smp \<noteq> want"
    using step(1) [OF that(1)] received_skip [OF _ that(2) l(2)] by (simp add: delivers_def)
  moreover have "delivers want s y" if "rec d reader waitset want deadline (env_do (dds_waitset_wait d waitset 50000000) s2) = Some y"
    using step(1) [OF that] received_same l(2) by (fastforce simp: delivers_def)
  moreover have "delivers want s (None, s1)" "delivers want s (None, s2)"
    "bs_seq smp = want \<Longrightarrow> delivers want s (Some smp, note_event (Got want) s2)"
    using received_stop [OF l(1)] received_stop [OF l(2)] received_hit [OF l(2)] by (simp_all add: delivers_def)
  ultimately show ?case using step(2) c tk by (auto simp: Let_def split: if_splits)
qed

lemma TakeSample_delivers: "TakeSample d reader waitset want ms s = Some y \<Longrightarrow> delivers want s y"
proof -
  assume r: "TakeSample d reader waitset want ms s = Some y"
  obtain t s1 where c: "on_env (dds_clock d) s = (t, s1)" by fastforce
  then have "delivers want s1 y" using r take_sample_until_delivers by (simp add: TakeSample_def)
  then show ?thesis using received_same c by (fastforce simp: delivers_def)
qed

text \<open>
  The contract of \<open>TakeOne\<close>: at most one sample is taken; it was queued exactly when the first
  take found it, and then no time was spent waiting.
\<close>

definition takes_one :: "'w link \<Rightarrow> fresh option \<times> 'w link \<Rightarrow> bool" where
  "takes_one s y \<longleftrightarrow>
     (case fst y of
        None \<Rightarrow> lk_log (snd y) = lk_log s
      | Some t \<Rightarrow> (\<exists>sq. lk_log (snd y) = lk_log s @ [Got sq]) \<and> (fr_was_queued t \<longrightarrow> fr_wait_ns t = 0))"

lemma takes_one_same: "takes_one s1 y \<Longrightarrow> lk_log s1 = lk_log s \<Longrightarrow> takes_one s y"
  by (simp add: takes_one_def split: option.splits)

lemma take_one_until_takes:
  assumes "take_one_until d reader waitset deadline wait_ns s = Some y"
  shows "takes_one s y"
  using assms
proof (induction rule: take_one_until.raw_induct [rotated, consumes 1, case_names step])
  case (step rec d reader waitset deadline wait_ns s y)
  obtain t s1 where c: "on_env (dds_clock d) s = (t, s1)" by fastforce
  obtain w0 s2 where n0: "NowNs (dds_clock d) s1 = (w0, s2)" by fastforce
  obtain w1 s3 where n1: "NowNs (dds_clock d) (env_do (dds_waitset_wait d waitset 50000000) s2) = (w1, s3)" by fastforce
  obtain rc v smp s4 where tk: "on_env (dds_take d reader) s3 = ((rc, v, smp), s4)"
    by (metis prod_cases3 surj_pair)
  have l: "lk_log s1 = lk_log s" "lk_log s4 = lk_log s" using c n0 n1 tk by simp_all
  have "takes_one s y" if "rec d reader waitset deadline (wait_ns + (w1 - w0)) s4 = Some y"
    by (rule takes_one_same [OF step(1) [OF that] l(2)])
  moreover have "takes_one s (None, s1)" "takes_one s (None, s4)"
    "takes_one s (Some \<lparr>fr_send_ns = ns, fr_was_queued = False, fr_wait_ns = w\<rparr>, note_event (Got g) s4)" for ns w g
    using l by (simp_all add: takes_one_def note_event_def)
  ultimately show ?case using step(2) c n0 n1 tk by (auto split: if_splits)
qed

lemma TakeOne_takes:
  assumes "TakeOne d reader waitset ms s = Some y"
  shows "takes_one s y"
proof -
  obtain rc v smp s1 where tk: "on_env (dds_take d reader) s = ((rc, v, smp), s1)" by (metis prod_cases3 surj_pair)
  obtain t s2 where c: "on_env (dds_clock d) s1 = (t, s2)" by fastforce
  have l: "lk_log s1 = lk_log s" "lk_log s2 = lk_log s" using tk c by simp_all
  have "takes_one s y" if "take_one_until d reader waitset (t + ms * 1000000) 0 s2 = Some y"
    by (rule takes_one_same [OF take_one_until_takes [OF that] l(2)])
  then show ?thesis
    using assms tk c l by (auto simp: TakeOne_def takes_one_def note_event_def split: if_splits)
qed

section \<open>What the ping-pong measures\<close>

interpretation cy_shm: one_way_link "cy_put d writer payload" "cy_get d reader waitset" "NowNs (dds_clock d)" lk_log "\<lambda>_. True"
  for d writer payload reader waitset
proof
  show "\<exists>ns. lk_log s' = lk_log s @ [Sent sq ns]" if "cy_put d writer payload sq s = Some (Inr None, s')" for sq and s s' :: "'a link"
    using that WriteSample_log by (fastforce simp: cy_put_def split: prod.splits if_splits)
  show "\<exists>stale. lk_log s' = lk_log s @ map Got stale @ [Got sq]" if g: "cy_get d reader waitset sq s = Some (Inr ns, s')"
    for sq ns and s s' :: "'a link"
  proof -
    obtain got where "TakeSample d reader waitset sq 2000 s = Some (Some got, s')"
      using g by (auto simp: cy_get_def split: option.splits)
    then show ?thesis using TakeSample_delivers received_until_found by (fastforce simp: delivers_def)
  qed
qed simp

text \<open>A benchmark that ends without an error: what is logged before and after its body.\<close>

lemma with_shm_channel_ok:
  assumes "with_shm_channel d pp topic_name reliable timeout_ms s k = Some (Inr (None, r), s')"
  shows "\<exists>writer reader waitset s1 s2. k writer reader waitset s1 = Some (Inr (None, r), s2) \<and>
    lk_log s1 = lk_log s @ [Call ''Bench_Sample__alloc'' 0] \<and>
    lk_log s' = lk_log s2 @ [Call ''dds_delete'' waitset, Call ''Bench_Sample_free'' 0]"
proof -
  let ?b = "dds.truncate d"
  obtain topic s1 where c1: "on_env (dds_create_topic d pp topic_name) s = (topic, s1)" by fastforce
  obtain writer s2 where c2: "on_env (sd_create_writer d pp topic (SetQos reliable)) s1 = (writer, s2)" by fastforce
  obtain reader s3 where c3: "on_env (sd_create_reader d pp topic (SetQos reliable)) s2 = (reader, s3)" by fastforce
  obtain m s4 where c4: "WaitMatched ?b writer timeout_ms s3 = (m, s4)" by fastforce
  obtain waitset s5 where c5: "on_env (dds_create_waitset d pp) (note_event (Call ''Bench_Sample__alloc'' 0) s4) = (waitset, s5)" by fastforce
  obtain rdcond s6 where c6: "on_env (dds_create_readcondition d reader) s5 = (rdcond, s6)" by fastforce
  obtain rc s7 where c7: "(if waitset < 0 \<or> rdcond < 0 then (-1, s6) else on_env (dds_waitset_attach d waitset rdcond reader) s6) = (rc, s7)"
    by fastforce
  note unf = assms [unfolded with_shm_channel_def Let_def c1 c2 c3 c4 c5 c6 c7 prod.case]
  obtain s8 where k: "k writer reader waitset s7 = Some (Inr (None, r), s8)"
    and e: "s' = note_event (Call ''Bench_Sample_free'' 0) (note_event (Call ''dds_delete'' waitset) s8)"
    using unf by (auto split: if_splits option.splits sum.splits)
  have "lk_log s7 = lk_log s @ [Call ''Bench_Sample__alloc'' 0]"
    using c1 c2 c3 WaitMatched_log [OF c4] c5 c6 c7 by (auto simp: note_event_def split: if_splits)
  then show ?thesis using k e by (auto simp: note_event_def)
qed

lemma RunPingPong_ok:
  assumes "RunPingPong d pp pre reliable size_bytes state_addr n s = Some (Inr (None, r), s')"
  shows "\<exists>rounds lats waitset. map fst rounds = map (\<lambda>k. 1 + of_nat k) [0..<n] \<and> length lats = n \<and>
    lk_log s' = lk_log s @ [Call ''Bench_Sample__alloc'' 0] @ concat (map ping_events rounds) @
      [Call ''dds_delete'' waitset, Call ''Bench_Sample_free'' 0] \<and> r = ReportLatencyCounters Map.empty lats"
proof -
  let ?b = "dds.truncate d"
  obtain writer reader waitset s1 s2 where l: "lk_log s1 = lk_log s @ [Call ''Bench_Sample__alloc'' 0]"
      "lk_log s' = lk_log s2 @ [Call ''dds_delete'' waitset, Call ''Bench_Sample_free'' 0]"
    and k: "map_option (\<lambda>(r, s). (map_sum id reported_counters r, s))
      (one_way_rounds (cy_put ?b writer (replicate size_bytes 0)) (cy_get ?b reader waitset) (NowNs (dds_clock ?b)) n 0 [] s1) =
      Some (Inr (None, r), s2)"
    using with_shm_channel_ok [OF assms [unfolded RunPingPong_def Let_def]] by blast
  obtain r1 where r1: "one_way_rounds (cy_put ?b writer (replicate size_bytes 0)) (cy_get ?b reader waitset) (NowNs (dds_clock ?b)) n 0 [] s1 =
      Some (r1, s2)" "map_sum id reported_counters r1 = Inr (None, r)"
    using k by auto
  then obtain lats where p: "one_way_rounds (cy_put ?b writer (replicate size_bytes 0)) (cy_get ?b reader waitset) (NowNs (dds_clock ?b)) n 0 [] s1 =
      Some (Inr (None, lats), s2)" "r = ReportLatencyCounters Map.empty lats"
    by (cases r1) (auto simp: reported_counters_def split: prod.splits)
  from cy_shm.rounds_log [OF p(1)] show ?thesis using p(2) l by auto
qed

section \<open>What an iteration takes\<close>

lemma cy_drain_takes:
  assumes "cy_drain d reader n stats s = ((None, stats'), s')"
  shows "\<exists>k\<le>n. takes_recorded (lk_log s) stats (lk_log s') stats' k"
  using assms
proof (induction n arbitrary: stats s)
  case 0
  then show ?case by (auto simp: takes_recorded_def)
next
  case (Suc n)
  obtain rc v smp s1 where tk: "on_env (dds_take d reader) s = ((rc, v, smp), s1)" by (metis prod_cases3 surj_pair)
  obtain now s2 where c: "NowNs (dds_clock d) (note_event (Got (bs_seq smp)) s1) = (now, s2)" by fastforce
  have l: "lk_log s1 = lk_log s" "lk_log s2 = lk_log s @ [Got (bs_seq smp)]" using tk c by (simp_all add: note_event_def)
  show ?case
  proof (cases "rc = 0 \<or> \<not> v")
    case True
    then show ?thesis using Suc.prems tk l(1) by (intro exI [of _ 0]) (auto simp: takes_recorded_def split: if_splits)
  next
    case False
    then have "cy_drain d reader n (Record (OneWayLatencySec (bs_send_ns smp) now) True 0 stats) s2 = ((None, stats'), s')"
      using Suc.prems tk c by (auto split: if_splits)
    from Suc.IH [OF this] obtain k where k: "k \<le> n"
      "takes_recorded (lk_log s2) (Record (OneWayLatencySec (bs_send_ns smp) now) True 0 stats) (lk_log s') stats' k" by blast
    have "takes_recorded (lk_log s) stats (lk_log s2) (Record (OneWayLatencySec (bs_send_ns smp) now) True 0 stats) 1"
      using l(2) by (auto simp: takes_recorded_def intro!: exI [of _ "[bs_seq smp]"])
    from takes_recorded_trans [OF this k(2)] show ?thesis using k(1) by (intro exI [of _ "Suc k"]) simp
  qed
qed

lemma cy_iteration_takes:
  assumes "cy_iteration d reader waitset (stats, lats) s = Some ((None, stats', lats'), s')"
  shows "length lats' = Suc (length lats) \<and>
    (\<exists>k. 1 \<le> k \<and> k \<le> 33 \<and> takes_recorded (lk_log s) stats (lk_log s') stats' k)"
proof -
  obtain stats1 s1 where d: "cy_drain d reader 32 stats s = ((None, stats1), s1)"
    using assms by (auto simp: cy_iteration_def split: prod.splits option.splits)
  obtain t s2 where t: "TakeOne d reader waitset 2000 s1 = Some (Some t, s2)"
    using assms d by (auto simp: cy_iteration_def split: prod.splits option.splits)
  obtain now s3 where c: "NowNs (dds_clock d) s2 = (now, s3)" by fastforce
  have e: "s' = s3" "mt_n stats' = mt_n stats1 + 1" "length lats' = Suc (length lats)"
    using assms d t c by (auto simp: cy_iteration_def Let_def)
  obtain k where k: "k \<le> 32" "takes_recorded (lk_log s) stats (lk_log s1) stats1 k" using cy_drain_takes [OF d] by auto
  obtain sq where "lk_log s2 = lk_log s1 @ [Got sq]" using TakeOne_takes [OF t] by (auto simp: takes_one_def)
  then have "takes_recorded (lk_log s1) stats1 (lk_log s') stats' 1"
    using e c by (auto simp: takes_recorded_def intro!: exI [of _ "[sq]"])
  from takes_recorded_trans [OF k(2) this] show ?thesis using e(3) k(1) by (intro conjI exI [of _ "Suc k"]) auto
qed

interpretation cy_mt: mt_link_thread "cy_iteration d reader waitset" for d reader waitset
  by unfold_locales (rule cy_iteration_takes)

section \<open>A concrete host\<close>

definition demo_host :: "(int \<times> Bench_Sample list) host" where
  "demo_host = \<lparr>h_fork = (\<lambda>w. (77, w)), h_sleep = (\<lambda>ns w. w), h_kill = (\<lambda>pid w. w), h_waitpid = (\<lambda>pid w. w),
     h_temp_dir = ''/tmp'', h_getpid = 42, h_write_file = (\<lambda>path contents w. w),
     h_getenv = (\<lambda>nm. if nm = ''MW_BENCH_ROUDI'' then Some ''/opt/iox-roudi'' else None),
     h_setenv = (\<lambda>nm v w. w), h_self_exe = None, h_access_x = (\<lambda>path w. (True, w))\<rparr>"

definition demo_shm :: "(int \<times> Bench_Sample list) shm_dds" where
  "demo_shm = dds.extend demo_dds (shm_dds.fields (\<lambda>pp topic q w. (3, w)) (\<lambda>pp topic q w. (4, w)))"

lemma demo_set_up_once: "\<exists>fx s1. SetUp demo_host demo_dds new_fixture s = ((Setup_ok, fx), s1) \<and> fx_roudi fx = Some 77 \<and> fx_participant fx = 1"
proof -
  obtain iox s1 where w1: "WriteTempFile demo_host ''iox'' kIoxConfig s = (iox, s1)" by fastforce
  obtain cfg s2 where w2: "WriteTempFile demo_host ''cyclone_shm'' kShmConfig s1 = (cfg, s2)" by fastforce
  have w3: "roudi_path demo_host s = (''/opt/iox-roudi'', s)" for s by (simp add: roudi_path_def demo_host_def)
  have w4: "\<exists>s'. ChildProcess demo_host path args env_extra s = (In_parent 77, s')" for path args env_extra s
    by (simp add: ChildProcess_def demo_host_def on_env_def)
  obtain s4 where w5: "ChildProcess demo_host ''/opt/iox-roudi'' [''-c'', iox] []
      (env_do (h_setenv demo_host ''CYCLONEDDS_URI'' (''file://'' @ cfg)) s2) = (In_parent 77, s4)" using w4 by blast
  have w6: "on_env (dds_create_participant demo_dds) s4 = (1, s4)" by (simp add: demo_dds_def on_env_def)
  show ?thesis
    unfolding SetUp_def Let_def w1 w2 w3 w5 prod.case by (simp add: new_fixture_def w5 w6)
qed

lemma demo_set_up: "\<exists>fx s1. set_up_all demo_host demo_dds 2 new_fixture \<lparr>lk_env = (0, []), lk_log = []\<rparr> = ((Setup_ok, fx), s1) \<and>
    fx_roudi fx = Some 77"
proof -
  obtain fx s1 where u: "SetUp demo_host demo_dds new_fixture \<lparr>lk_env = (0, []), lk_log = []\<rparr> = ((Setup_ok, fx), s1)"
    "fx_roudi fx = Some 77" "fx_participant fx = 1" using demo_set_up_once by blast
  then have "SetUp demo_host demo_dds fx s1 = ((Setup_ok, fx), s1)" by (simp add: SetUp_def)
  then show ?thesis using u by (simp add: numeral_2_eq_2)
qed

lemma demo_shm_calls:
  "dds_create_topic demo_shm pp nm w = (2, w)" "sd_create_writer demo_shm pp topic q w = (3, w)"
  "sd_create_reader demo_shm pp topic q w = (4, w)" "dds_create_waitset demo_shm pp w = (5, w)"
  "dds_create_readcondition demo_shm reader w = (6, w)" "dds_waitset_attach demo_shm ws c r w = (0, w)"
  by (simp_all add: demo_shm_def dds.defs shm_dds.defs demo_dds_def)

lemma demo_ping_round: "\<exists>lats s'. one_way_rounds (cy_put demo_dds 3 payload) (cy_get demo_dds 4 5) (NowNs (dds_clock demo_dds)) 1 0 []
    \<lparr>lk_env = (t, []), lk_log = es\<rparr> = Some (Inr (None, lats), s')"
proof -
  have "\<exists>smp. WriteSample demo_dds 3 1 payload \<lparr>lk_env = (t, []), lk_log = es\<rparr> =
      (0, \<lparr>lk_env = (t + 1, [smp]), lk_log = es @ [Sent 1 (word_of_int t)]\<rparr>) \<and> bs_seq smp = 1"
    by (simp add: WriteSample_def NowNs_def on_env_def demo_dds_def note_event_def Let_def)
  then obtain smp where w: "WriteSample demo_dds 3 1 payload \<lparr>lk_env = (t, []), lk_log = es\<rparr> =
      (0, \<lparr>lk_env = (t + 1, [smp]), lk_log = es @ [Sent 1 (word_of_int t)]\<rparr>)" "bs_seq smp = 1" by blast
  have "\<exists>s'. TakeSample demo_dds 4 5 1 2000 \<lparr>lk_env = (u, [smp]), lk_log = fs\<rparr> = Some (Some smp, s')" for u fs
    using w(2) by (simp add: TakeSample_def take_sample_until.simps on_env_def demo_dds_def Let_def)
  then obtain s' where "TakeSample demo_dds 4 5 1 2000 \<lparr>lk_env = (t + 1, [smp]), lk_log = es @ [Sent 1 (word_of_int t)]\<rparr> = Some (Some smp, s')"
    by blast
  then show ?thesis using w by (simp add: cy_put_def cy_get_def Let_def split: prod.splits)
qed

lemma demo_ping_pong: "\<exists>r s'. RunPingPong demo_shm 1 ''shm'' True 64 4096 1 \<lparr>lk_env = (0, []), lk_log = []\<rparr> = Some (Inr (None, r), s')"
proof -
  have t: "dds.truncate demo_shm = demo_dds" by (simp add: demo_shm_def dds.defs shm_dds.defs demo_dds_def)
  have w: "WaitMatched demo_dds 3 2000 s = (True, s)" for s :: "(int \<times> Bench_Sample list) link"
  proof -
    have "(2000 :: nat) div 10 = Suc 199" by simp
    then have "WaitMatched demo_dds 3 2000 s = wait_matched_steps demo_dds 3 (Suc 199) s" by (simp only: WaitMatched_def)
    then show ?thesis by (simp only: wait_matched_steps.simps) (simp add: demo_dds_def on_env_def)
  qed
  obtain lats s' where p: "one_way_rounds (cy_put demo_dds 3 (replicate 64 0)) (cy_get demo_dds 4 5) (NowNs (dds_clock demo_dds)) 1 0 []
      \<lparr>lk_env = (0, []), lk_log = [Call ''Bench_Sample__alloc'' 0]\<rparr> = Some (Inr (None, lats), s')"
    using demo_ping_round by blast
  show ?thesis
    unfolding RunPingPong_def with_shm_channel_def Let_def t
    by (simp only: demo_shm_calls on_env_def prod.case w) (simp add: w p note_event_def reported_counters_def del: one_way_rounds.simps One_nat_def)
qed

section \<open>Properties\<close>

text \<open>
  In the multithreaded Cyclone benchmark, \<open>n\<close> iterations that end without an error measure exactly
  \<open>n\<close> latencies, take from \<open>n\<close> to \<open>33 n\<close> samples and record each of them, and nothing else.
\<close>

theorem cyclone_iterations_record_every_take:
  assumes "RunMtOneWay d pp pre reliable size_bytes state_addr n s = Some (Inr (None, r), s')"
  shows "\<exists>gs lats stats waitset. lk_log s' = lk_log s @ [Call ''Bench_Sample__alloc'' 0, Call ''thread'' 1] @ map Got gs @
      [Call ''join'' 1, Call ''dds_delete'' waitset, Call ''Bench_Sample_free'' 0] \<and>
    n \<le> length gs \<and> length gs \<le> 33 * n \<and> length lats = n \<and> mt_n stats = of_nat (length gs) \<and>
    r = rbind (ReportLatencyCounters Map.empty lats) (\<lambda>cs. Inr (Report cs stats))"
proof -
  obtain reader waitset s1 s2 where l: "lk_log s1 = lk_log s @ [Call ''Bench_Sample__alloc'' 0]"
      "lk_log s' = lk_log s2 @ [Call ''dds_delete'' waitset, Call ''Bench_Sample_free'' 0]"
    and b: "mt_benchmark (cy_iteration (dds.truncate d) reader waitset) n s1 = Some (Inr (None, r), s2)"
    using with_shm_channel_ok [OF assms [unfolded RunMtOneWay_def]] by blast
  from cy_mt.benchmark_takes [OF b] show ?thesis using l by auto
qed

text \<open>
  C35. However often the fixture is set up, and however that ends, no child process but the one
  the fixture holds is left running; and after the shutdown every child has been waited for.
\<close>

theorem fixture_reaps_children:
  assumes "set_up_all h d n new_fixture s = ((e, fx), s1)" and "lk_log s = []" and "Shutdown h fx s1 = (fx', s2)"
  shows "children (lk_log s1) pid = (if fx_roudi fx = Some pid then 1 else 0) \<and>
    count_list (lk_log s2) (Call ''fork'' pid) = count_list (lk_log s2) (Call ''waitpid'' pid) \<and> fx_roudi fx' = None"
proof -
  have "holds_children new_fixture s" using assms(2) by (simp add: holds_children_def children_def new_fixture_def)
  then have h: "holds_children fx s1" by (rule set_up_all_children [OF assms(1)])
  show ?thesis using h Shutdown_children [OF h assms(3), of pid] by (simp add: holds_children_def children_def)
qed

lemma fixture_reaps_children_witness:
  "\<exists>fx s1 fx' s2. set_up_all demo_host demo_dds 2 new_fixture \<lparr>lk_env = (0, []), lk_log = []\<rparr> = ((Setup_ok, fx), s1) \<and>
     children (lk_log s1) 77 = 1 \<and> Shutdown demo_host fx s1 = (fx', s2) \<and>
     count_list (lk_log s2) (Call ''fork'' 77) = count_list (lk_log s2) (Call ''waitpid'' 77)"
proof -
  obtain fx s1 where u: "set_up_all demo_host demo_dds 2 new_fixture \<lparr>lk_env = (0, []), lk_log = []\<rparr> = ((Setup_ok, fx), s1)"
    "fx_roudi fx = Some 77" using demo_set_up by blast
  obtain fx' s2 where sh: "Shutdown demo_host fx s1 = (fx', s2)" by fastforce
  from fixture_reaps_children [OF u(1) _ sh, of 77] show ?thesis using u sh by auto
qed

text \<open>
  A ping-pong that ends without an error over \<open>n\<close> iterations has written the numbers from 1
  to \<open>n\<close>, each received back before the next is written, reports the statistics of exactly \<open>n\<close>
  latencies, and has released the sample and the waitset.
\<close>

theorem RunPingPong_measures_every_round:
  assumes "RunPingPong d pp pre reliable size_bytes state_addr n s = Some (Inr (None, r), s')"
  shows "\<exists>rounds lats waitset. map fst rounds = map (\<lambda>k. 1 + of_nat k) [0..<n] \<and> length lats = n \<and>
    lk_log s' = lk_log s @ [Call ''Bench_Sample__alloc'' 0] @ concat (map ping_events rounds) @
      [Call ''dds_delete'' waitset, Call ''Bench_Sample_free'' 0] \<and> r = ReportLatencyCounters Map.empty lats"
  by (rule RunPingPong_ok [OF assms])

lemma RunPingPong_measures_every_round_witness:
  "\<exists>r s' (rounds :: ping_round list) lats. RunPingPong demo_shm 1 ''shm'' True 64 4096 1 \<lparr>lk_env = (0, []), lk_log = []\<rparr> = Some (Inr (None, r), s') \<and>
     map fst rounds = [1] \<and> length lats = 1 \<and> r = ReportLatencyCounters Map.empty lats"
proof -
  obtain r s' where p: "RunPingPong demo_shm 1 ''shm'' True 64 4096 1 \<lparr>lk_env = (0, []), lk_log = []\<rparr> = Some (Inr (None, r), s')"
    using demo_ping_pong by blast
  obtain rounds :: "ping_round list" and lats where "map fst rounds = map (\<lambda>k. 1 + of_nat k) [0..<1]" "length lats = 1" "r = ReportLatencyCounters Map.empty lats"
    using RunPingPong_measures_every_round [OF p] by blast
  then show ?thesis using p by (intro exI [of _ r] exI [of _ s'] exI [of _ rounds] exI [of _ lats]) simp
qed

end
