(* ===== verification/Bench_Sample.thy ===== *)
theory Bench_Sample
  imports Bench_Prelude
begin

text \<open>
  Samples (\<open>benchmarks/common.h\<close> and \<open>benchmarks/bench_sample.h\<close>): the fixed header at the front
  of a raw payload, and the FlatBuffers table that the Zenoh and Subspace programs send. The
  FlatBuffers library and the code generated from \<open>Bench.fbs\<close> are a parameter, a record of the
  functions the program calls; \<open>flatbuffer_laws\<close> states what their documentation promises.
\<close>

section \<open>The message header\<close>

record MessageHeader =
  mh_seq :: u64
  mh_send_ns :: u64

definition sizeof_MessageHeader :: nat where "sizeof_MessageHeader = 16"

text \<open>A \<open>std::vector<char>\<close> of the size, at least the header's, with the header written.\<close>

definition MakePayload :: "nat \<Rightarrow> u64 \<Rightarrow> u64 \<Rightarrow> bytes res" where
  "MakePayload sz sq now =
     (let sz = (if sz < sizeof_MessageHeader then sizeof_MessageHeader else sz); buf = replicate sz 0 in
      rbind (write_at 0 (le_bytes sq) buf) (\<lambda>buf. write_at 8 (le_bytes now) buf))"

definition WriteHeader :: "bytes \<Rightarrow> u64 \<Rightarrow> u64 \<Rightarrow> bytes res" where
  "WriteHeader data sq now = rbind (write_at 0 (le_bytes sq) data) (\<lambda>data. write_at 8 (le_bytes now) data)"

definition StampHeaderNs :: "bytes \<Rightarrow> u64 \<Rightarrow> bytes res" where
  "StampHeaderNs data now = write_at 8 (le_bytes now) data"

definition HeaderOf :: "bytes \<Rightarrow> MessageHeader res" where
  "HeaderOf data =
     rbind (read_at 0 8 data) (\<lambda>sq. rbind (read_at 8 8 data) (\<lambda>ns.
     Inr \<lparr>mh_seq = le_word sq, mh_send_ns = le_word ns\<rparr>))"

section \<open>FlatBuffers samples\<close>

text \<open>
  \<open>fb_create seq send_ns body\<close>: the finished buffer of a table with these fields;
  \<open>fb_uninit n\<close>: the unspecified contents of an uninitialised vector; \<open>fb_root\<close>: the root
  table is there; \<open>fb_mutate_send_ns\<close>: the buffer with the field overwritten, or no result
  when the field is not in the buffer.
\<close>

record flatbuffers =
  fb_uninit :: "nat \<Rightarrow> bytes"
  fb_create :: "u64 \<Rightarrow> u64 \<Rightarrow> bytes \<Rightarrow> bytes"
  fb_root :: "bytes \<Rightarrow> bool"
  fb_seq :: "bytes \<Rightarrow> u64"
  fb_send_ns :: "bytes \<Rightarrow> u64"
  fb_mutate_send_ns :: "bytes \<Rightarrow> u64 \<Rightarrow> bytes option"

definition kFbsOverhead :: nat where "kFbsOverhead = 128"

definition SampleSlotBytes :: "nat \<Rightarrow> nat" where
  "SampleSlotBytes payload_bytes = payload_bytes + kFbsOverhead"

text \<open>The placeholder send time is 1, since a field with the default 0 is left out.\<close>

definition BuildSample :: "flatbuffers \<Rightarrow> u64 \<Rightarrow> nat \<Rightarrow> bytes" where
  "BuildSample fb sq payload_bytes = fb_create fb sq 1 (fb_uninit fb payload_bytes)"

text \<open>\<open>StampSample\<close>: what it throws, or the stamped buffer.\<close>

definition StampSample :: "flatbuffers \<Rightarrow> u64 \<Rightarrow> bytes \<Rightarrow> string + bytes" where
  "StampSample fb now buf =
     (case fb_mutate_send_ns fb buf now of
        None \<Rightarrow> Inl ''StampSample: send_ns field missing (build with non-default)''
      | Some buf \<Rightarrow> Inr buf)"

text \<open>
  The destination is filled from its front; the stamp is applied to the encoded part of it.
\<close>

definition WriteSampleBytes :: "flatbuffers \<Rightarrow> bytes \<Rightarrow> u64 \<Rightarrow> nat \<Rightarrow> u64 \<Rightarrow> (nat \<times> bytes) res" where
  "WriteSampleBytes fb dest sq payload_bytes now =
     (let buf = BuildSample fb sq payload_bytes; nbytes = length buf in
      rbind (write_at 0 buf dest) (\<lambda>dest.
      case StampSample fb now (take nbytes dest) of
        Inl m \<Rightarrow> Inl (Thrown m)
      | Inr stamped \<Rightarrow> Inr (nbytes, stamped @ drop nbytes dest)))"

text \<open>
  \<open>ReadSampleMeta\<close>: sequence number and send time, or false. A null pointer is \<open>None\<close>.
\<close>

definition ReadSampleMeta :: "flatbuffers \<Rightarrow> bytes option \<Rightarrow> nat \<Rightarrow> (u64 \<times> u64) option" where
  "ReadSampleMeta fb data len =
     (case data of None \<Rightarrow> None
      | Some d \<Rightarrow> if len < 8 then None
          else if \<not> fb_root fb d then None
          else Some (fb_seq fb d, fb_send_ns fb d))"

section \<open>What FlatBuffers promises\<close>

definition flatbuffer_laws :: "flatbuffers \<Rightarrow> bool" where
  "flatbuffer_laws fb \<longleftrightarrow>
     (\<forall>n. length (fb_uninit fb n) = n) \<and>
     (\<forall>sq ns body. let b = fb_create fb sq ns body in
        8 \<le> length b \<and> length b \<le> length body + kFbsOverhead \<and>
        fb_root fb b \<and> fb_seq fb b = sq \<and> fb_send_ns fb b = ns \<and>
        (\<forall>t. if ns = 0 then fb_mutate_send_ns fb b t = None
             else \<exists>b'. fb_mutate_send_ns fb b t = Some b' \<and> length b' = length b \<and> fb_root fb b' \<and>
               fb_seq fb b' = sq \<and> fb_send_ns fb b' = t))"

lemma stamped_sample:
  assumes "flatbuffer_laws fb"
  shows "\<exists>b. StampSample fb now (BuildSample fb sq n) = Inr b \<and> length b = length (BuildSample fb sq n) \<and>
    length b \<le> SampleSlotBytes n \<and> ReadSampleMeta fb (Some b) (length b) = Some (sq, now)"
proof -
  define c where "c = fb_create fb sq 1 (fb_uninit fb n)"
  have laws: "length (fb_uninit fb n) = n" "8 \<le> length c" "length c \<le> length (fb_uninit fb n) + kFbsOverhead"
    "\<exists>b'. fb_mutate_send_ns fb c now = Some b' \<and> length b' = length c \<and> fb_root fb b' \<and> fb_seq fb b' = sq \<and> fb_send_ns fb b' = now"
    using assms unfolding flatbuffer_laws_def Let_def c_def by (metis one_neq_zero)+
  then show ?thesis
    by (auto simp: StampSample_def BuildSample_def SampleSlotBytes_def ReadSampleMeta_def simp flip: c_def)
qed

text \<open>A concrete instance: a presence byte, the two fields, and the body.\<close>

definition demo_fb :: flatbuffers where
  "demo_fb = \<lparr>
     fb_uninit = (\<lambda>n. replicate n 0xAA),
     fb_create = (\<lambda>sq ns body. (if ns = 0 then 0 else 1) # le_bytes sq @ le_bytes ns @ body),
     fb_root = (\<lambda>b. b \<noteq> []),
     fb_seq = (\<lambda>b. le_word (take 8 (drop 1 b))),
     fb_send_ns = (\<lambda>b. le_word (take 8 (drop 9 b))),
     fb_mutate_send_ns = (\<lambda>b t. if hd b = 0 then None else Some (take 9 b @ le_bytes t @ drop 17 b))\<rparr>"

lemma demo_fb_laws: "flatbuffer_laws demo_fb"
  by (simp add: flatbuffer_laws_def demo_fb_def kFbsOverhead_def Let_def)

lemma demo_fb_sample: "ReadSampleMeta demo_fb (Some (BuildSample demo_fb x n)) (length (BuildSample demo_fb x n)) = Some (x, 1)"
  by (simp add: ReadSampleMeta_def BuildSample_def demo_fb_def)

section \<open>Properties\<close>

text \<open>
  A payload made for a sequence number holds at least the header, which reads back as that
  number and the time of its making; stamping it later changes the time only.
\<close>

lemma MakePayload_header:
  shows "\<exists>p p'. MakePayload sz sq now = Inr p \<and> length p = max sz sizeof_MessageHeader \<and>
    HeaderOf p = Inr \<lparr>mh_seq = sq, mh_send_ns = now\<rparr> \<and>
    StampHeaderNs p later = Inr p' \<and> HeaderOf p' = Inr \<lparr>mh_seq = sq, mh_send_ns = later\<rparr> \<and> drop 16 p' = drop 16 p"
proof -
  define n where "n = max sz 16"
  have n: "16 \<le> n" "(if sz < sizeof_MessageHeader then sizeof_MessageHeader else sz) = n"
    by (simp_all add: n_def sizeof_MessageHeader_def max_def)
  have w: "write_at 0 (le_bytes sq) (replicate n 0) = Inr (le_bytes sq @ replicate (n - 8) 0)"
    "write_at 8 (le_bytes t) (le_bytes sq @ replicate (n - 8) 0) = Inr (le_bytes sq @ le_bytes t @ replicate (n - 16) 0)"
    "write_at 8 (le_bytes t) (le_bytes sq @ le_bytes u @ replicate (n - 16) 0) = Inr (le_bytes sq @ le_bytes t @ replicate (n - 16) 0)" for t u :: u64
    using n(1) by (simp_all add: write_at_def)
  have h: "HeaderOf (le_bytes sq @ le_bytes t @ xs) = Inr \<lparr>mh_seq = sq, mh_send_ns = t\<rparr>" for t xs
    by (simp add: HeaderOf_def read_at_def)
  show ?thesis
    using w h n by (simp add: MakePayload_def StampHeaderNs_def n(2) Let_def) (simp add: n_def sizeof_MessageHeader_def)
qed

text \<open>
  A built and stamped sample fits the slot reserved for it and reads back as its sequence
  number and send time: the non-zero placeholder keeps \<open>StampSample\<close> from throwing.
\<close>

theorem sample_round_trip:
  assumes "flatbuffer_laws fb" and "SampleSlotBytes n \<le> length dest"
  shows "\<exists>k dest'. WriteSampleBytes fb dest sq n now = Inr (k, dest') \<and> length dest' = length dest \<and> k \<le> SampleSlotBytes n \<and>
    ReadSampleMeta fb (Some (take k dest')) k = Some (sq, now) \<and> drop k dest' = drop k dest"
proof -
  obtain b where b: "StampSample fb now (BuildSample fb sq n) = Inr b" "length b = length (BuildSample fb sq n)"
    "length b \<le> SampleSlotBytes n" "ReadSampleMeta fb (Some b) (length b) = Some (sq, now)"
    using stamped_sample [OF assms(1)] by blast
  then have "write_at 0 (BuildSample fb sq n) dest = Inr (BuildSample fb sq n @ drop (length b) dest)"
    using assms(2) by (simp add: write_at_def)
  then have "WriteSampleBytes fb dest sq n now = Inr (length b, b @ drop (length b) dest)"
    using b(1,2) by (simp add: WriteSampleBytes_def Let_def)
  then show ?thesis using b(3,4) assms(2) by simp
qed

lemma sample_round_trip_witness:
  "\<exists>k dest'. WriteSampleBytes demo_fb (replicate 200 0) 7 64 99 = Inr (k, dest') \<and> length dest' = 200 \<and>
    ReadSampleMeta demo_fb (Some (take k dest')) k = Some (7, 99)"
  using sample_round_trip [OF demo_fb_laws, of 64 "replicate 200 0" 7 99] by (auto simp: SampleSlotBytes_def kFbsOverhead_def)

end
