(* ===== verification/Subspace_Net.thy ===== *)
theory Subspace_Net
  imports Echo_Link Bench_Sample
begin

text \<open>
  The Subspace network tool (\<open>benchmarks/net/subspace_net.cc\<close>): every process embeds a Subspace
  server, whose life this theory follows too. Subspace and the operating system are a parameter,
  a record of functions on the world; a call that may block for ever returns \<open>None\<close> when it does.
\<close>

section \<open>The calls into the middleware\<close>

text \<open>Arguments of the server's two constructors; only the publisher's has a peer.\<close>

record server_args =
  sv_socket :: string
  sv_peer :: "(string \<times> int) option"
  sv_disc_port :: int
  sv_peer_port :: int
  sv_notify_fd :: int

record PublisherSlots =
  ps_slot_size :: int
  ps_num_slots :: int
  ps_reliable :: bool
  ps_local :: bool

datatype slot_outcome = Slot_error | Slot_null | Slot

text \<open>Calls that only have an effect.\<close>

datatype effect =
    Ignore_SIGPIPE
  | Close int
  | Unlink string
  | SetMachineName string
  | SetTcpDiscovery
  | Start_thread
  | Read_pipe int
  | Stop_server
  | Join_thread
  | CleanupAfterSession
  | Remove string

record 'w subspace =
  sb_clock :: "'w \<Rightarrow> int \<times> 'w"
  sb_thread_sleep :: "int \<Rightarrow> 'w \<Rightarrow> 'w"
  sb_effect :: "effect \<Rightarrow> 'w \<Rightarrow> 'w"
  sb_mkstemp :: "string \<Rightarrow> 'w \<Rightarrow> (int \<times> string) \<times> 'w"
  sb_pipe :: "'w \<Rightarrow> (int \<times> int \<times> int) \<times> 'w"
  sb_make_server :: "server_args \<Rightarrow> 'w \<Rightarrow> 'w"
  sb_client_init :: "string \<Rightarrow> 'w \<Rightarrow> bool \<times> 'w"
  sb_create_publisher :: "string \<Rightarrow> PublisherSlots \<Rightarrow> 'w \<Rightarrow> int option \<times> 'w"
  sb_create_subscriber :: "string \<Rightarrow> bool \<Rightarrow> 'w \<Rightarrow> int option \<times> 'w"
  sb_get_buffer :: "int \<Rightarrow> int \<Rightarrow> 'w \<Rightarrow> slot_outcome \<times> 'w"
  sb_pub_wait :: "int \<Rightarrow> 'w \<Rightarrow> bool \<times> 'w"
  sb_publish :: "int \<Rightarrow> int \<Rightarrow> bytes \<Rightarrow> 'w \<Rightarrow> bool \<times> 'w"
  sb_read :: "int \<Rightarrow> 'w \<Rightarrow> bytes option \<times> 'w"
  sb_sub_wait :: "int \<Rightarrow> 'w \<Rightarrow> 'w option"

section \<open>The embedded server\<close>

record EmbeddedServer =
  es_socket :: string
  es_fd0 :: int
  es_fd1 :: int
  es_server :: bool
  es_thread :: bool

definition new_server :: EmbeddedServer where
  "new_server = \<lparr>es_socket = '''', es_fd0 = -1, es_fd1 = -1, es_server = False, es_thread = False\<rparr>"

text \<open>An effect is done and logged: \<open>Call f n\<close> with the file descriptor of a \<open>close\<close> or \<open>read\<close>.\<close>

fun effect_call :: "effect \<Rightarrow> link_event" where
  "effect_call Ignore_SIGPIPE = Call ''signal'' 0"
| "effect_call (Close fd) = Call ''close'' fd"
| "effect_call (Unlink path) = Call ''unlink'' 0"
| "effect_call (SetMachineName nm) = Call ''SetMachineName'' 0"
| "effect_call SetTcpDiscovery = Call ''SetTcpDiscovery'' 0"
| "effect_call Start_thread = Call ''thread'' 0"
| "effect_call (Read_pipe fd) = Call ''read'' fd"
| "effect_call Stop_server = Call ''Stop'' 0"
| "effect_call Join_thread = Call ''join'' 0"
| "effect_call CleanupAfterSession = Call ''CleanupAfterSession'' 0"
| "effect_call (Remove path) = Call ''remove'' 0"

definition act :: "'w subspace \<Rightarrow> effect \<Rightarrow> 'w link \<Rightarrow> 'w link" where
  "act p e s = note_event (effect_call e) (env_do (sb_effect p e) s)"

text \<open>A descriptor that the system handed out.\<close>

definition opened :: "int \<Rightarrow> 'w link \<Rightarrow> 'w link" where
  "opened fd s = note_event (Call ''open'' fd) s"

text \<open>The destructor.\<close>

definition destroy_server :: "'w subspace \<Rightarrow> EmbeddedServer \<Rightarrow> 'w link \<Rightarrow> 'w link" where
  "destroy_server p srv s =
     (let s = (if es_server srv
               then let s = act p Stop_server s;
                        s = (if 0 \<le> es_fd0 srv then act p (Read_pipe (es_fd0 srv)) s else s);
                        s = (if es_thread srv then act p Join_thread s else s);
                        s = act p CleanupAfterSession s in
                    act p (Remove (es_socket srv)) s
               else s);
          s = (if 0 \<le> es_fd0 srv then act p (Close (es_fd0 srv)) s else s) in
      if 0 \<le> es_fd1 srv then act p (Close (es_fd1 srv)) s else s)"

text \<open>The constructor's arguments and the machine name for the role; none for a bad peer.\<close>

definition server_plan :: "Options_net \<Rightarrow> string \<Rightarrow> int \<Rightarrow> (server_args \<times> string) option res" where
  "server_plan opt tmpl fd1 =
     (let disc = net_disc_port opt in
      if net_role opt = ''pub''
      then rbind (ParseHostPort (net_peer opt) '''' 0) (\<lambda>(ok, host, peer_port).
        Inr (if ok then Some (\<lparr>sv_socket = tmpl, sv_peer = Some (host, peer_port), sv_disc_port = disc,
                                sv_peer_port = peer_port, sv_notify_fd = fd1\<rparr>, ''pub'')
             else None))
      else Inr (Some (\<lparr>sv_socket = tmpl, sv_peer = None, sv_disc_port = disc, sv_peer_port = 0, sv_notify_fd = fd1\<rparr>, ''sub'')))"

text \<open>\<open>StartServer\<close>: a null result destroys what was built so far.\<close>

definition StartServer :: "'w subspace \<Rightarrow> Options_net \<Rightarrow> 'w link \<Rightarrow> EmbeddedServer option res \<times> 'w link" where
  "StartServer p opt s =
     (let s = act p Ignore_SIGPIPE s in
      case on_env (sb_mkstemp p ''/tmp/mw_net_subspaceXXXXXX'') s of ((fd, tmpl), s) \<Rightarrow>
      let s = (if 0 \<le> fd then act p (Unlink tmpl) (act p (Close fd) (opened fd s)) else s);
          srv = new_server\<lparr>es_socket := tmpl\<rparr> in
      case on_env (sb_pipe p) s of ((rc, fd0, fd1), s) \<Rightarrow>
      if rc \<noteq> 0 then (Inr None, destroy_server p srv s)
      else let s = opened fd1 (opened fd0 s); srv = srv\<lparr>es_fd0 := fd0, es_fd1 := fd1\<rparr> in
        case server_plan opt tmpl fd1 of
          Inl f \<Rightarrow> (Inl f, s)
        | Inr None \<Rightarrow> (Inr None, destroy_server p srv s)
        | Inr (Some (args, machine)) \<Rightarrow>
            let s = env_do (sb_make_server p args) s; srv = srv\<lparr>es_server := True\<rparr>;
                s = act p SetTcpDiscovery (act p (SetMachineName machine) s);
                s = act p Start_thread s; srv = srv\<lparr>es_thread := True\<rparr>;
                s = act p (Read_pipe fd0) s in
            (Inr (Some srv), s))"

section \<open>Sending and receiving\<close>

definition kNumSlots :: int where "kNumSlots = 32"

text \<open>\<open>static_cast<int>\<close> and \<open>static_cast<int32_t>\<close> of a size.\<close>

definition int32_of_size :: "nat \<Rightarrow> int" where "int32_of_size n = sint (of_nat n :: 32 word)"

text \<open>
  \<open>PublishFbs\<close>: an error of the first \<open>GetMessageBuffer\<close> is retried once after a wait, a null
  buffer is not. FlatBuffers are smaller than 2 GiB, so the copy into the slot is the whole
  sample.
\<close>

definition slot_for :: "'w subspace \<Rightarrow> int \<Rightarrow> int \<Rightarrow> 'w link \<Rightarrow> slot_outcome \<times> 'w link" where
  "slot_for p pub nbytes s =
     (case on_env (sb_get_buffer p pub nbytes) s of (buf_or, s) \<Rightarrow>
      if buf_or = Slot_error
      then (case on_env (sb_pub_wait p pub) s of (ok, s) \<Rightarrow>
            if \<not> ok then (Slot_error, s) else on_env (sb_get_buffer p pub nbytes) s)
      else (buf_or, s))"

definition PublishFbs :: "'w subspace \<Rightarrow> flatbuffers \<Rightarrow> int \<Rightarrow> u64 \<Rightarrow> nat \<Rightarrow> 'w link \<Rightarrow> send_outcome \<times> 'w link" where
  "PublishFbs p fb pub sq sz s =
     (let b = BuildSample fb sq sz; nbytes = int32_of_size (length b) in
      case slot_for p pub nbytes s of (r, s) \<Rightarrow>
      if r \<noteq> Slot then (Send_failed, s)
      else case NowNs (sb_clock p) s of (now, s) \<Rightarrow>
        case StampSample fb now b of
          Inl m \<Rightarrow> (Send_threw m, s)
        | Inr b \<Rightarrow>
            (case on_env (sb_publish p pub nbytes b) s of (ok, s) \<Rightarrow>
             if ok then (Sent_ok, note_event (Sent sq now) s) else (Send_failed, s)))"

text \<open>One poll of the receive loop: without a message it waits for one, with no time limit.\<close>

definition subspace_poll :: "'w subspace \<Rightarrow> flatbuffers \<Rightarrow> int \<Rightarrow> 'w \<Rightarrow> poll_outcome \<times> 'w" where
  "subspace_poll p fb sub w =
     (case sb_read p sub w of
        (None, w) \<Rightarrow> (Poll_failed, w)
      | (Some msg, w) \<Rightarrow>
          if length msg = 0
          then (case sb_sub_wait p sub w of None \<Rightarrow> (Poll_blocked, w) | Some w \<Rightarrow> (Poll_nothing, w))
          else (case ReadSampleMeta fb (Some msg) (length msg) of
                  None \<Rightarrow> (Poll_nothing, w)
                | Some (got, _) \<Rightarrow> (Poll_number got, w)))"

definition ReadMatching :: "'w subspace \<Rightarrow> flatbuffers \<Rightarrow> int \<Rightarrow> u64 \<Rightarrow> int \<Rightarrow> 'w link \<Rightarrow> (bool \<times> 'w link) option" where
  "ReadMatching p fb sub = receive_within (sb_clock p) (subspace_poll p fb sub)"

section \<open>The publisher\<close>

definition reliable_slots :: "Options_net \<Rightarrow> PublisherSlots" where
  "reliable_slots opt = \<lparr>ps_slot_size = int32_of_size (SampleSlotBytes (unat (net_size opt))), ps_num_slots = kNumSlots,
     ps_reliable = True, ps_local = False\<rparr>"

definition sb_attempt ::
  "'w subspace \<Rightarrow> flatbuffers \<Rightarrow> int \<Rightarrow> int \<Rightarrow> nat \<Rightarrow> u64 \<Rightarrow> 'w link \<Rightarrow> ((string + bool) \<times> 'w link) option" where
  "sb_attempt p fb sub pub sz probe s =
     (case PublishFbs p fb pub probe sz s of
        (Send_threw m, s) \<Rightarrow> Some (Inl m, s)
      | (Send_failed, s) \<Rightarrow> Some (Inr False, s)
      | (Sent_ok, s) \<Rightarrow> map_option (\<lambda>(found, s). (Inr found, s)) (ReadMatching p fb sub probe 200 s))"

definition sb_recv :: "'w subspace \<Rightarrow> flatbuffers \<Rightarrow> int \<Rightarrow> u64 \<Rightarrow> 'w link \<Rightarrow> (bool \<times> 'w link) option" where
  "sb_recv p fb sub sq = ReadMatching p fb sub sq 5000"

definition sb_ping_pong ::
  "'w subspace \<Rightarrow> flatbuffers \<Rightarrow> Options_net \<Rightarrow> int \<Rightarrow> int \<Rightarrow> 'w link \<Rightarrow> ((nat \<times> string) res \<times> 'w link) option" where
  "sb_ping_pong p fb opt sub pub =
     (let sz = unat (net_size opt) in
      ping_pong (sb_attempt p fb sub pub sz) (env_do (sb_thread_sleep p 50000000)) 200
        (\<lambda>sq. PublishFbs p fb pub sq sz) (sb_recv p fb sub) (round_clock (sb_clock p)) opt)"

definition RunPub_subspace ::
  "'w subspace \<Rightarrow> flatbuffers \<Rightarrow> Options_net \<Rightarrow> EmbeddedServer \<Rightarrow> 'w link \<Rightarrow> ((nat \<times> string) res \<times> 'w link) option" where
  "RunPub_subspace p fb opt srv s =
     (case on_env (sb_client_init p (es_socket srv)) s of (ok, s) \<Rightarrow>
      if \<not> ok then Some (Inr (1, ''''), s)
      else case on_env (sb_create_publisher p (ReqKey opt) (reliable_slots opt)) s of
          (None, s) \<Rightarrow> Some (Inr (1, ''''), s)
        | (Some pub, s) \<Rightarrow>
            (case on_env (sb_create_subscriber p (RepKey opt) True) s of
               (None, s) \<Rightarrow> Some (Inr (1, ''''), s)
             | (Some sub, s) \<Rightarrow> sb_ping_pong p fb opt sub pub s))"

section \<open>The subscriber\<close>

text \<open>What ends the echo loop: an exit code, an exception, or a wait that does not return.\<close>

datatype echo_end = Exit_with nat | Exit_throw string | Stuck

definition sb_echo_once :: "'w subspace \<Rightarrow> flatbuffers \<Rightarrow> nat \<Rightarrow> int \<Rightarrow> int \<Rightarrow> 'w link \<Rightarrow> echo_end option \<times> 'w link" where
  "sb_echo_once p fb sz sub pub s =
     (case on_env (sb_read p sub) s of
        (None, s) \<Rightarrow> (Some (Exit_with 1), s)
      | (Some msg, s) \<Rightarrow>
          if length msg = 0
          then (case sb_sub_wait p sub (lk_env s) of
                  None \<Rightarrow> (Some Stuck, s)
                | Some w \<Rightarrow> (None, s\<lparr>lk_env := w\<rparr>))
          else (case ReadSampleMeta fb (Some msg) (length msg) of
                  None \<Rightarrow> (None, s)
                | Some (sq, _) \<Rightarrow>
                    (case PublishFbs p fb pub sq sz (note_event (Got sq) s) of
                       (Sent_ok, s) \<Rightarrow> (None, s)
                     | (Send_failed, s) \<Rightarrow> (Some (Exit_with 1), s)
                     | (Send_threw m, s) \<Rightarrow> (Some (Exit_throw m), s))))"

definition RunSub_subspace ::
  "'w subspace \<Rightarrow> flatbuffers \<Rightarrow> Options_net \<Rightarrow> EmbeddedServer \<Rightarrow> nat \<Rightarrow> 'w link \<Rightarrow> nat option res \<times> 'w link" where
  "RunSub_subspace p fb opt srv n s =
     (case on_env (sb_client_init p (es_socket srv)) s of (ok, s) \<Rightarrow>
      if \<not> ok then (Inr (Some 1), s)
      else case on_env (sb_create_subscriber p (ReqKey opt) True) s of
          (None, s) \<Rightarrow> (Inr (Some 1), s)
        | (Some sub, s) \<Rightarrow>
            (case on_env (sb_create_publisher p (RepKey opt) (reliable_slots opt)) s of
               (None, s) \<Rightarrow> (Inr (Some 1), s)
             | (Some pub, s) \<Rightarrow>
                 (case iterate_echo (sb_echo_once p fb (unat (net_size opt)) sub pub) n s of
                    (Some (Exit_with code), s) \<Rightarrow> (Inr (Some code), s)
                  | (Some (Exit_throw m), s) \<Rightarrow> (Inl (Thrown m), s)
                  | (Some Stuck, s) \<Rightarrow> (Inr None, s)
                  | (None, s) \<Rightarrow> (Inr None, s))))"

section \<open>The program\<close>

text \<open>
  Exit code and standard output; a fault is undefined behaviour or an uncaught exception, which
  runs no destructors. Returning from \<open>main\<close> destroys the server. The subscriber is run for \<open>n\<close>
  iterations and may still be running (no exit code).
\<close>

definition leave_main :: "'w subspace \<Rightarrow> EmbeddedServer \<Rightarrow> 'a res \<times> 'w link \<Rightarrow> 'a res \<times> 'w link" where
  "leave_main p srv y = (case y of (Inl f, s) \<Rightarrow> (Inl f, s) | (Inr a, s) \<Rightarrow> (Inr a, destroy_server p srv s))"

definition subspace_net_main ::
  "'w subspace \<Rightarrow> flatbuffers \<Rightarrow> string list \<Rightarrow> nat \<Rightarrow> 'w link \<Rightarrow> ((nat option \<times> string) res \<times> 'w link) option" where
  "subspace_net_main p fb args n s =
     (case ParseOptions_net args (default_options_net\<lparr>net_stack := ''subspace''\<rparr>) of
        Inl _ \<Rightarrow> Some (Inr (Some 2, ''''), s)
      | Inr opt \<Rightarrow>
          (case StartServer p opt s of
             (Inl f, s) \<Rightarrow> Some (Inl f, s)
           | (Inr None, s) \<Rightarrow> Some (Inr (Some 1, ''''), s)
           | (Inr (Some srv), s) \<Rightarrow>
               let s = env_do (sb_thread_sleep p 300000000) s in
               if net_role opt = ''pub''
               then map_option (\<lambda>y. leave_main p srv (case y of (r, s) \<Rightarrow> (rbind r (\<lambda>(code, out). Inr (Some code, out)), s)))
                      (RunPub_subspace p fb opt srv s)
               else (case RunSub_subspace p fb opt srv n s of
                       (Inr None, s) \<Rightarrow> Some (Inr (None, ''''), s)
                     | y \<Rightarrow> Some (leave_main p srv (case y of (r, s) \<Rightarrow> (rbind r (\<lambda>code. Inr (code, '''')), s))))))"

section \<open>What sending and receiving log\<close>

lemma act_log [simp]: "lk_log (act p e s) = lk_log s @ [effect_call e]"
  by (simp add: act_def note_event_def)

lemma slot_for_log [simp]: "slot_for p pub nbytes s = (r, s') \<Longrightarrow> lk_log s' = lk_log s"
  by (auto simp: slot_for_def split: prod.splits if_splits)

lemma PublishFbs_log: "PublishFbs p fb pub sq sz s = (Sent_ok, s') \<Longrightarrow> \<exists>ns. lk_log s' = lk_log s @ [Sent sq ns]"
  by (auto simp: PublishFbs_def note_event_def Let_def split: prod.splits sum.splits if_splits)

lemma PublishFbs_not_sent: "PublishFbs p fb pub sq sz s = (r, s') \<Longrightarrow> r \<noteq> Sent_ok \<Longrightarrow> lk_log s' = lk_log s"
  by (auto simp: PublishFbs_def Let_def split: prod.splits sum.splits if_splits)

lemma ReadMatching_log: "ReadMatching p fb sub want ms s = Some y \<Longrightarrow> received_until want s y"
  unfolding ReadMatching_def by (rule receive_within_log)

interpretation sb: tool_link "\<lambda>sq. PublishFbs p fb pub sq sz" "sb_recv p fb sub" "round_clock (sb_clock p)" lk_log
  "sb_attempt p fb sub pub sz" "env_do (sb_thread_sleep p ns)"
  for p fb pub sz sub ns
proof
  show "\<exists>stale. lk_log s' = lk_log s @ map Got stale @ [Got sq]" if "sb_recv p fb sub sq s = Some (True, s')" for sq and s s' :: "'a link"
    using that received_until_found ReadMatching_log unfolding sb_recv_def by blast
next
  fix probe linked and s s' :: "'a link"
  assume a: "sb_attempt p fb sub pub sz probe s = Some (Inr linked, s')"
  obtain r s1 where put: "PublishFbs p fb pub probe sz s = (r, s1)" by fastforce
  show "\<exists>es. lk_log s' = lk_log s @ es \<and> (linked \<longrightarrow> es \<noteq> [] \<and> last es = Got probe)"
  proof (cases "r = Sent_ok")
    case True
    then have "ReadMatching p fb sub probe 200 s1 = Some (linked, s')" using a put by (auto simp: sb_attempt_def)
    then obtain es where "lk_log s' = lk_log s1 @ es" "linked \<longrightarrow> es \<noteq> [] \<and> last es = Got probe"
      using received_until_log [OF ReadMatching_log] by blast
    then show ?thesis using PublishFbs_log put True by fastforce
  next
    case False
    then have "\<not> linked" "s' = s1" using a put by (auto simp: sb_attempt_def split: send_outcome.splits)
    then show ?thesis using PublishFbs_not_sent [OF put False] by simp
  qed
qed (simp_all add: PublishFbs_log round_clock_log)

interpretation sb_sub: echo_server "sb_echo_once p fb sz sub pub" lk_log for p fb sz sub pub
proof
  fix s s' :: "'a link" and e
  obtain g s1 where rd: "on_env (sb_read p sub) s = (g, s1)" by fastforce
  have l: "lk_log s1 = lk_log s" using rd by simp
  show "\<exists>ps. length ps \<le> 1 \<and> lk_log s' = lk_log s @ echoed_events ps" if run: "sb_echo_once p fb sz sub pub s = (None, s')"
  proof (cases "\<exists>msg sq ns. g = Some msg \<and> msg \<noteq> [] \<and> ReadSampleMeta fb (Some msg) (length msg) = Some (sq, ns)")
    case True
    then obtain msg sq ns where m: "g = Some msg" "msg \<noteq> []" "ReadSampleMeta fb (Some msg) (length msg) = Some (sq, ns)" by blast
    obtain r s2 where put: "PublishFbs p fb pub sq sz (note_event (Got sq) s1) = (r, s2)" by fastforce
    then have "r = Sent_ok" "s' = s2" using run rd m by (auto simp: sb_echo_once_def split: send_outcome.splits)
    then obtain ns where "lk_log s' = lk_log s @ [Got sq, Sent sq ns]"
      using l put PublishFbs_log by (fastforce simp: note_event_def)
    then show ?thesis by (intro exI [of _ "[(sq, ns)]"]) (simp add: echoed_events_def)
  next
    case False
    then have "lk_log s' = lk_log s" using run rd l by (auto simp: sb_echo_once_def split: option.splits if_splits)
    then show ?thesis by (intro exI [of _ "[]"]) (simp add: echoed_events_def)
  qed
  show "\<exists>gs. lk_log s' = lk_log s @ map Got gs" if run: "sb_echo_once p fb sz sub pub s = (Some e, s')"
  proof (cases "\<exists>msg sq ns. g = Some msg \<and> msg \<noteq> [] \<and> ReadSampleMeta fb (Some msg) (length msg) = Some (sq, ns)")
    case True
    then obtain msg sq ns where m: "g = Some msg" "msg \<noteq> []" "ReadSampleMeta fb (Some msg) (length msg) = Some (sq, ns)" by blast
    obtain r s2 where put: "PublishFbs p fb pub sq sz (note_event (Got sq) s1) = (r, s2)" by fastforce
    then have "r \<noteq> Sent_ok" "s' = s2" using run rd m by (auto simp: sb_echo_once_def split: send_outcome.splits)
    then have "lk_log s' = lk_log s @ map Got [sq]" using PublishFbs_not_sent [OF put] l by (simp add: note_event_def)
    then show ?thesis by blast
  next
    case False
    then have "lk_log s' = lk_log s" using run rd l by (auto simp: sb_echo_once_def split: option.splits if_splits)
    then show ?thesis by (intro exI [of _ "[]"]) simp
  qed
qed

section \<open>The life of the server\<close>

definition teardown :: "EmbeddedServer \<Rightarrow> link_event list" where
  "teardown srv =
     (if es_server srv
      then [Call ''Stop'' 0] @ (if 0 \<le> es_fd0 srv then [Call ''read'' (es_fd0 srv)] else []) @
        (if es_thread srv then [Call ''join'' 0] else []) @ [Call ''CleanupAfterSession'' 0, Call ''remove'' 0]
      else []) @
     (if 0 \<le> es_fd0 srv then [Call ''close'' (es_fd0 srv)] else []) @
     (if 0 \<le> es_fd1 srv then [Call ''close'' (es_fd1 srv)] else [])"

lemma destroy_server_log [simp]: "lk_log (destroy_server p srv s) = lk_log s @ teardown srv"
  by (simp add: destroy_server_def teardown_def Let_def)

text \<open>
  What a log owes: descriptors opened and not closed, and a server thread started and not
  joined.
\<close>

definition owes :: "link_event list \<Rightarrow> int \<Rightarrow> int" where
  "owes es fd = int (count_list es (Call ''open'' fd)) - int (count_list es (Call ''close'' fd))"

definition threads :: "link_event list \<Rightarrow> int" where
  "threads es = int (count_list es (Call ''thread'' 0)) - int (count_list es (Call ''join'' 0))"

lemma owes_append [simp]: "owes (es @ fs) fd = owes es fd + owes fs fd"
  by (simp add: owes_def)

lemma threads_append [simp]: "threads (es @ fs) = threads es + threads fs"
  by (simp add: threads_def)

lemma count_calls: "is_call e \<Longrightarrow> count_list (calls s) e = count_list (lk_log s) e"
proof -
  assume "is_call e"
  then have "count_list (filter is_call es) e = count_list es e" for es by (induction es) auto
  then show ?thesis by (simp add: calls_def)
qed

lemma balance_calls: "calls s' = calls s \<Longrightarrow> owes (lk_log s') fd = owes (lk_log s) fd \<and> threads (lk_log s') = threads (lk_log s)"
  using count_calls [of _ s] count_calls [of _ s'] by (simp add: owes_def threads_def)

lemmas balance_simps = owes_def threads_def teardown_def new_server_def

text \<open>A step of a log that keeps or settles its debts, with destructors still to come.\<close>

definition settles :: "link_event list \<Rightarrow> link_event list \<Rightarrow> bool" where
  "settles es fs \<longleftrightarrow> (\<forall>fd\<ge>0. owes (es @ fs) fd = 0) \<and> threads (es @ fs) = 0"

lemma StartServer_settles:
  assumes run: "StartServer p opt s = (Inr srv, s')"
  shows "\<exists>es. lk_log s' = lk_log s @ es \<and> settles es (case srv of None \<Rightarrow> [] | Some v \<Rightarrow> teardown v)"
proof -
  obtain fdt tmpl s1 where mk: "on_env (sb_mkstemp p ''/tmp/mw_net_subspaceXXXXXX'') (act p Ignore_SIGPIPE s) = ((fdt, tmpl), s1)"
    by (metis surj_pair)
  define s2 where "s2 = (if 0 \<le> fdt then act p (Unlink tmpl) (act p (Close fdt) (opened fdt s1)) else s1)"
  define es2 where "es2 = Call ''signal'' 0 # (if 0 \<le> fdt then [Call ''open'' fdt, Call ''close'' fdt, Call ''unlink'' 0] else [])"
  have l2: "lk_log s2 = lk_log s @ es2" using mk by (simp add: s2_def es2_def opened_def note_event_def)
  have b2: "owes es2 fd = 0" "threads es2 = 0" for fd by (simp_all add: es2_def owes_def threads_def)
  obtain rc fd0 fd1 s3 where pp: "on_env (sb_pipe p) s2 = ((rc, fd0, fd1), s3)" by (metis surj_pair)
  have l3: "lk_log s3 = lk_log s @ es2" using pp l2 by simp
  note unf = run [unfolded StartServer_def Let_def mk prod.case s2_def [symmetric] pp]
  show ?thesis
  proof (cases "rc \<noteq> 0")
    case True
    then have "srv = None" "lk_log s' = lk_log s @ es2" using unf l3 by (auto simp: teardown_def new_server_def)
    then show ?thesis using b2 by (simp add: settles_def)
  next
    case False
    let ?open = "[Call ''open'' fd0, Call ''open'' fd1]"
    show ?thesis
    proof (cases srv)
      case None
      then have "lk_log s' = lk_log s @ es2 @ ?open @ teardown (new_server\<lparr>es_socket := tmpl, es_fd0 := fd0, es_fd1 := fd1\<rparr>)"
        using unf False l3 by (auto simp: opened_def note_event_def split: sum.splits option.splits)
      then show ?thesis using b2 None by (auto simp: settles_def balance_simps)
    next
      case (Some v)
      then have "lk_log s' = lk_log s @ es2 @ ?open @
          [Call ''SetMachineName'' 0, Call ''SetTcpDiscovery'' 0, Call ''thread'' 0, Call ''read'' fd0]"
        and "v = new_server\<lparr>es_socket := tmpl, es_fd0 := fd0, es_fd1 := fd1, es_server := True, es_thread := True\<rparr>"
        using unf False l3 by (auto simp: opened_def note_event_def split: sum.splits option.splits)
      then show ?thesis using b2 Some by (auto simp: settles_def balance_simps)
    qed
  qed
qed

lemma calls_env [simp]: "calls (env_do f s) = calls s"
  by (simp add: calls_def)

lemma calls_on_env: "on_env f s = (a, s') \<Longrightarrow> calls s' = calls s"
  by (simp add: calls_def)

lemma PublishFbs_calls: "PublishFbs p fb pub sq sz s = (r, s') \<Longrightarrow> calls s' = calls s"
  using PublishFbs_log [of p fb pub sq sz s s'] PublishFbs_not_sent [of p fb pub sq sz s r s']
  by (cases "r = Sent_ok") (auto intro: calls_append calls_same)

lemma ReadMatching_calls: "ReadMatching p fb sub want ms s = Some (b, s') \<Longrightarrow> calls s' = calls s"
  by (rule calls_received [OF ReadMatching_log])

interpretation sb_quiet: quiet_tool "\<lambda>sq. PublishFbs p fb pub sq sz" "sb_recv p fb sub" "round_clock (sb_clock p)"
  "sb_attempt p fb sub pub sz" "env_do (sb_thread_sleep p ns)" calls
  for p fb pub sz sub ns
proof
  fix probe l and s s' :: "'a link"
  assume a: "sb_attempt p fb sub pub sz probe s = Some (l, s')"
  obtain r s1 where put: "PublishFbs p fb pub probe sz s = (r, s1)" by fastforce
  then show "calls s' = calls s"
    using a PublishFbs_calls [OF put] by (cases r) (auto simp: sb_attempt_def dest: ReadMatching_calls)
next
  show "calls s' = calls s" if "PublishFbs p fb pub sq sz s = (r, s')" for sq r and s s' :: "'a link"
    using that by (rule PublishFbs_calls)
  show "calls s' = calls s" if "sb_recv p fb sub sq s = Some (b, s')" for sq b and s s' :: "'a link"
    using that unfolding sb_recv_def by (rule ReadMatching_calls)
  show "calls s' = calls s" if "round_clock (sb_clock p) s = (t, s')" for t and s s' :: "'a link"
    using that by (rule calls_round_clock)
qed simp

lemma sb_echo_calls: "sb_echo_once p fb sz sub pub s = (r, s') \<Longrightarrow> calls s' = calls s"
proof (cases r)
  case None
  assume "sb_echo_once p fb sz sub pub s = (r, s')"
  then obtain ps where "lk_log s' = lk_log s @ echoed_events ps" using sb_sub.body_log None by blast
  then show ?thesis by (rule calls_append) (auto simp: echoed_events_def)
next
  case (Some e)
  assume "sb_echo_once p fb sz sub pub s = (r, s')"
  then obtain gs where "lk_log s' = lk_log s @ map Got gs" using sb_sub.body_exit Some by blast
  then show ?thesis by (rule calls_append) auto
qed

lemma RunPub_subspace_calls: "RunPub_subspace p fb opt srv s = Some (r, s') \<Longrightarrow> calls s' = calls s"
  by (auto simp: RunPub_subspace_def sb_ping_pong_def Let_def split: prod.splits if_splits option.splits
      dest!: sb_quiet.ping_pong_obs calls_on_env)

lemma RunSub_subspace_calls: "RunSub_subspace p fb opt srv n s = (r, s') \<Longrightarrow> calls s' = calls s"
  by (auto simp: RunSub_subspace_def split: prod.splits if_splits option.splits echo_end.splits
      dest!: iterate_echo_obs [where obs = calls, OF _ sb_echo_calls] calls_on_env)

lemma leave_settles:
  assumes "settles (lk_log s) (teardown srv)" and "calls s' = calls s" and "leave_main p srv (r, s') = (Inr a, s'')"
  shows "settles (lk_log s'') []"
  using assms balance_calls [OF assms(2)] by (auto simp: leave_main_def settles_def split: sum.splits)

lemma subspace_main_settles:
  assumes run: "subspace_net_main p fb args n s = Some (Inr (Some code, out), s')" and "lk_log s = []"
  shows "settles (lk_log s') []"
proof (cases "ParseOptions_net args (default_options_net\<lparr>net_stack := ''subspace''\<rparr>)")
  case (Inl e)
  then show ?thesis using assms by (auto simp: subspace_net_main_def settles_def owes_def threads_def)
next
  case (Inr opt)
  note parsed = this
  obtain srv s1 where st: "StartServer p opt s = (Inr srv, s1)"
    using run parsed by (auto simp: subspace_net_main_def split: prod.splits sum.splits)
  then have b: "settles (lk_log s1) (case srv of None \<Rightarrow> [] | Some v \<Rightarrow> teardown v)"
    using StartServer_settles [OF st] assms(2) by auto
  show ?thesis
  proof (cases srv)
    case None
    then show ?thesis using run parsed st b by (auto simp: subspace_net_main_def)
  next
    case (Some v)
    define s2 where "s2 = env_do (sb_thread_sleep p 300000000) s1"
    have b2: "settles (lk_log s2) (teardown v)" using b Some by (simp add: s2_def)
    have "\<exists>r s3. calls s3 = calls s2 \<and> leave_main p v (r, s3) = (Inr (Some code, out), s')"
    proof (cases "net_role opt = ''pub''")
      case True
      then obtain r s3 where "RunPub_subspace p fb opt v s2 = Some (r, s3)"
        "leave_main p v (rbind r (\<lambda>(code, out). Inr (Some code, out)), s3) = (Inr (Some code, out), s')"
        using run parsed st Some by (auto simp: subspace_net_main_def s2_def Let_def)
      then show ?thesis using RunPub_subspace_calls by blast
    next
      case False
      obtain r s3 where r: "RunSub_subspace p fb opt v n s2 = (r, s3)" by fastforce
      then have "leave_main p v (rbind r (\<lambda>code. Inr (code, '''')), s3) = (Inr (Some code, out), s')"
        using run parsed st Some False
        by (auto simp: subspace_net_main_def s2_def Let_def split: sum.splits option.splits)
      then show ?thesis using RunSub_subspace_calls [OF r] by blast
    qed
    then obtain r s3 where "calls s3 = calls s2" "leave_main p v (r, s3) = (Inr (Some code, out), s')" by blast
    then show ?thesis using leave_settles [OF b2] by metis
  qed
qed

section \<open>Termination, and a wait without a limit\<close>

text \<open>Reading and waiting do not turn the clock back, and a wait returns; reading the clock advances it.\<close>

definition subspace_waits_return :: "'w subspace \<Rightarrow> bool" where
  "subspace_waits_return p \<longleftrightarrow> (\<exists>tm. (\<forall>w. fst (sb_clock p w) = tm w \<and> tm w < tm (snd (sb_clock p w))) \<and>
     (\<forall>sub w. tm w \<le> tm (snd (sb_read p sub w))) \<and> (\<forall>sub w. \<exists>w'. sb_sub_wait p sub w = Some w' \<and> tm w \<le> tm w'))"

lemma ReadMatching_returns:
  assumes "subspace_waits_return p" shows "\<exists>y. ReadMatching p fb sub want ms s = Some y"
proof -
  obtain tm where tm: "\<And>w. fst (sb_clock p w) = tm w" "\<And>w. tm w < tm (snd (sb_clock p w))"
    "\<And>sub w. tm w \<le> tm (snd (sb_read p sub w))" "\<And>sub w. \<exists>w'. sb_sub_wait p sub w = Some w' \<and> tm w \<le> tm w'"
    using assms unfolding subspace_waits_return_def by metis
  have "fst (subspace_poll p fb sub w) \<noteq> Poll_blocked \<and> tm w \<le> tm (snd (subspace_poll p fb sub w))" for w
    using tm(3) [of w sub] tm(4) [of sub "snd (sb_read p sub w)"]
    by (auto simp: subspace_poll_def split: prod.splits option.splits)
  then have "clock_advances (sb_clock p) (subspace_poll p fb sub)" using tm unfolding clock_advances_def by blast
  then show ?thesis unfolding ReadMatching_def by (rule receive_within_returns)
qed

interpretation sb_live: live_tool "\<lambda>sq. PublishFbs p fb pub sq sz" "sb_recv p fb sub" "round_clock (sb_clock p)"
  "\<lambda>_. subspace_waits_return p" "sb_attempt p fb sub pub sz" "env_do (sb_thread_sleep p ns)"
  for p fb pub sz sub ns
proof
  show "\<exists>r s'. sb_recv p fb sub sq s = Some (r, s') \<and> subspace_waits_return p" if "subspace_waits_return p" for sq s
    using ReadMatching_returns [OF that] that by (fastforce simp: sb_recv_def)
  show "\<exists>r s'. sb_attempt p fb sub pub sz probe s = Some (r, s') \<and> subspace_waits_return p" if "subspace_waits_return p" for probe s
    using ReadMatching_returns [OF that, of fb sub probe 200] that
    by (fastforce simp: sb_attempt_def split: prod.splits send_outcome.splits)
qed auto

text \<open>Nothing to read, and a wait that does not return: the deadline is never looked at again.\<close>

lemma ReadMatching_blocks:
  assumes cl: "close_clock (sb_clock p) tm q" and none: "\<And>w. q w = [] \<Longrightarrow> \<exists>w'. sb_read p sub w = (Some [], w') \<and> sb_sub_wait p sub w' = None"
    and "q (lk_env s) = []" and "200 \<le> ms"
  shows "ReadMatching p fb sub want ms s = None"
proof -
  obtain s1 where s1: "on_env (sb_clock p) s = (tm (lk_env s), s1)" "tm (lk_env s1) < tm (lk_env s) + 200000000" "q (lk_env s1) = []"
    using close_clock_env [OF cl, of s] assms(3) by metis
  obtain s2 where s2: "on_env (sb_clock p) s1 = (tm (lk_env s1), s2)" "q (lk_env s2) = []"
    using close_clock_env [OF cl, of s1] s1(3) by metis
  obtain w' where "sb_read p sub (lk_env s2) = (Some [], w')" "sb_sub_wait p sub w' = None" using none [OF s2(2)] by blast
  then have "on_env (subspace_poll p fb sub) s2 = (Poll_blocked, s2\<lparr>lk_env := w'\<rparr>)" by (simp add: subspace_poll_def on_env_def)
  moreover have "tm (lk_env s1) < tm (lk_env s) + ms * 1000000" using s1(2) assms(4) by simp
  ultimately show ?thesis using s1(1) s2(1) by (simp add: ReadMatching_def receive_within_def poll_until.simps Let_def)
qed

section \<open>A network that echoes\<close>

text \<open>
  The peer echoes at once: a slot is free, after a sample is published a sample with its number
  is the next one read, and clock readings are close together.
\<close>

definition subspace_loopback ::
  "'w subspace \<Rightarrow> flatbuffers \<Rightarrow> int \<Rightarrow> int \<Rightarrow> ('w \<Rightarrow> int) \<Rightarrow> ('w \<Rightarrow> u64 list) \<Rightarrow> bool" where
  "subspace_loopback p fb sub pub tm q \<longleftrightarrow>
     close_clock (sb_clock p) tm q \<and>
     (\<forall>n w. \<exists>w'. sb_get_buffer p pub n w = (Slot, w') \<and> q w' = q w) \<and>
     (\<forall>n w b sq ns. q w = [] \<and> ReadSampleMeta fb (Some b) (length b) = Some (sq, ns) \<longrightarrow>
        (\<exists>w'. sb_publish p pub n b w = (True, w') \<and> q w' = [sq])) \<and>
     (\<forall>w sq. q w = [sq] \<longrightarrow> (\<exists>w' b ns. sb_read p sub w = (Some b, w') \<and> q w' = [] \<and>
        ReadSampleMeta fb (Some b) (length b) = Some (sq, ns))) \<and>
     (\<forall>ns w. q (sb_thread_sleep p ns w) = q w)"

lemma sb_loopback_publish:
  assumes lo: "subspace_loopback p fb sub pub tm q" and fb: "flatbuffer_laws fb" and "q (lk_env s) = []"
  shows "\<exists>s'. PublishFbs p fb pub sq sz s = (Sent_ok, s') \<and> q (lk_env s') = [sq]"
proof -
  let ?n = "int32_of_size (length (BuildSample fb sq sz))"
  have cl: "close_clock (sb_clock p) tm q" using lo by (simp add: subspace_loopback_def)
  obtain w0 where w0: "sb_get_buffer p pub ?n (lk_env s) = (Slot, w0)" "q w0 = []"
    using lo assms(3) unfolding subspace_loopback_def by metis
  define s0 where "s0 = s\<lparr>lk_env := w0\<rparr>"
  have slot: "slot_for p pub ?n s = (Slot, s0)" using w0(1) by (simp add: slot_for_def on_env_def s0_def)
  obtain s1 where s1: "on_env (sb_clock p) s0 = (tm w0, s1)" "q (lk_env s1) = []"
    using close_clock_env [OF cl, of s0] w0(2) by (auto simp: s0_def)
  define now where "now = (word_of_int (tm w0) :: u64)"
  obtain b where b: "StampSample fb now (BuildSample fb sq sz) = Inr b" "ReadSampleMeta fb (Some b) (length b) = Some (sq, now)"
    using stamped_sample [OF fb] by blast
  obtain w where "sb_publish p pub ?n b (lk_env s1) = (True, w)" "q w = [sq]"
    using lo s1(2) b(2) unfolding subspace_loopback_def by blast
  then have "PublishFbs p fb pub sq sz s = (Sent_ok, note_event (Sent sq now) (s1\<lparr>lk_env := w\<rparr>))" "q w = [sq]"
    using s1(1) b(1) slot by (simp_all add: PublishFbs_def NowNs_def Let_def now_def) (simp add: on_env_def)
  then show ?thesis by (simp add: note_event_def)
qed

lemma sb_loopback_read:
  assumes lo: "subspace_loopback p fb sub pub tm q" and "q (lk_env s) = [sq]" and "200 \<le> ms"
  shows "\<exists>s'. ReadMatching p fb sub sq ms s = Some (True, s') \<and> q (lk_env s') = []"
proof -
  have "\<exists>w'. subspace_poll p fb sub w = (Poll_number sq, w') \<and> q w' = []" if w: "q w = [sq]" for w
  proof -
    obtain w' b ns where "sb_read p sub w = (Some b, w')" "q w' = []" "ReadSampleMeta fb (Some b) (length b) = Some (sq, ns)"
      using lo w unfolding subspace_loopback_def by meson
    moreover from this(3) have "b \<noteq> []" by (auto simp: ReadSampleMeta_def split: if_splits)
    ultimately show ?thesis by (simp add: subspace_poll_def)
  qed
  then show ?thesis
    using receive_within_hit [of "sb_clock p" tm q "[sq]" _ sq "[]"] lo assms(2,3)
    unfolding ReadMatching_def subspace_loopback_def by blast
qed

interpretation sb_echoing: echoing_tool "\<lambda>sq. PublishFbs p fb pub sq sz" "sb_recv p fb sub" "round_clock (sb_clock p)"
  "\<lambda>s. flatbuffer_laws fb \<and> subspace_loopback p fb sub pub tm q \<and> q (lk_env s) = []"
  "sb_attempt p fb sub pub sz" "env_do (sb_thread_sleep p ns)"
  for p fb pub sz sub tm q ns
proof
  fix s :: "'a link" and sq :: u64
  assume i: "flatbuffer_laws fb \<and> subspace_loopback p fb sub pub tm q \<and> q (lk_env s) = []"
  then show "flatbuffer_laws fb \<and> subspace_loopback p fb sub pub tm q \<and> q (lk_env (snd (round_clock (sb_clock p) s))) = []"
    using close_round_clock [of "sb_clock p" tm q s] by (simp add: subspace_loopback_def)
  obtain s1 where put: "PublishFbs p fb pub sq sz s = (Sent_ok, s1)" "q (lk_env s1) = [sq]"
    using sb_loopback_publish i by blast
  have recv: "\<exists>s2. ReadMatching p fb sub sq ms s1 = Some (True, s2) \<and> q (lk_env s2) = []" if "200 \<le> ms" for ms
    using sb_loopback_read i put(2) that by blast
  show "\<exists>s' s''. PublishFbs p fb pub sq sz s = (Sent_ok, s') \<and> sb_recv p fb sub sq s' = Some (True, s'') \<and>
      flatbuffer_laws fb \<and> subspace_loopback p fb sub pub tm q \<and> q (lk_env s'') = []"
    using recv [of 5000] put(1) i by (auto simp: sb_recv_def)
  show "\<exists>s'. sb_attempt p fb sub pub sz sq s = Some (Inr True, s') \<and>
      flatbuffer_laws fb \<and> subspace_loopback p fb sub pub tm q \<and> q (lk_env s') = []"
    using recv [of 200] put(1) i by (auto simp: sb_attempt_def)
  show "flatbuffer_laws fb \<and> subspace_loopback p fb sub pub tm q \<and> q (lk_env (env_do (sb_thread_sleep p ns) s)) = []"
    using i by (auto simp: env_do_def subspace_loopback_def)
qed

text \<open>
  A concrete Subspace: the clock ticks at every reading; what is published comes back when the
  peer is there, and is lost otherwise. A wait returns if something is to be read.
\<close>

definition demo_subspace :: "bool \<Rightarrow> (int \<times> u64 list) subspace" where
  "demo_subspace peer = \<lparr>
     sb_clock = (\<lambda>(t, q). (t, (t + 1, q))), sb_thread_sleep = (\<lambda>ns w. w), sb_effect = (\<lambda>e w. w),
     sb_mkstemp = (\<lambda>tmpl w. ((3, ''/tmp/mw_net_subspace000001''), w)), sb_pipe = (\<lambda>w. ((0, 4, 5), w)),
     sb_make_server = (\<lambda>args w. w), sb_client_init = (\<lambda>socket w. (True, w)),
     sb_create_publisher = (\<lambda>ch opts w. (Some 1, w)), sb_create_subscriber = (\<lambda>ch rel w. (Some 2, w)),
     sb_get_buffer = (\<lambda>pub n w. (Slot, w)), sb_pub_wait = (\<lambda>pub w. (True, w)),
     sb_publish = (\<lambda>pub n b (t, q). (True, (t, if peer then q @ [fb_seq demo_fb b] else q))),
     sb_read = (\<lambda>sub (t, q). case q of [] \<Rightarrow> (Some [], (t, [])) | x # xs \<Rightarrow> (Some (BuildSample demo_fb x 0), (t, xs))),
     sb_sub_wait = (\<lambda>sub (t, q). if peer \<or> q \<noteq> [] then Some (t, q) else None)\<rparr>"

lemma demo_subspace_laws: "close_clock (sb_clock (demo_subspace peer)) fst snd" "subspace_waits_return (demo_subspace True)"
  by (auto simp: close_clock_def subspace_waits_return_def demo_subspace_def split: list.splits intro!: exI [of _ fst])

lemma demo_publish: "\<exists>s'. PublishFbs (demo_subspace False) demo_fb pub sq sz s = (Sent_ok, s') \<and> snd (lk_env s') = snd (lk_env s)"
proof -
  obtain t q where s: "lk_env s = (t, q)" by fastforce
  obtain b where "StampSample demo_fb (word_of_int t) (BuildSample demo_fb sq sz) = Inr b"
    using stamped_sample [OF demo_fb_laws] by blast
  then show ?thesis
    by (simp add: PublishFbs_def slot_for_def demo_subspace_def on_env_def NowNs_def note_event_def s Let_def)
qed

definition demo_subspace_options :: Options_net where
  "demo_subspace_options = default_options_net\<lparr>net_role := ''pub'', net_peer := ''peer:7420'', net_count := 3, net_warmup := 2, net_stack := ''subspace''\<rparr>"

lemma demo_loopback: "subspace_loopback (demo_subspace True) demo_fb sub pub fst snd"
proof -
  have "fb_seq demo_fb b = sq" if "ReadSampleMeta demo_fb (Some b) (length b) = Some (sq, ns)" for b sq ns
    using that by (auto simp: ReadSampleMeta_def split: if_splits)
  then show ?thesis
    using demo_fb_sample by (auto simp: subspace_loopback_def close_clock_def demo_subspace_def)
qed

lemma demo_subspace_run:
  assumes "snd (lk_env s) = []"
  shows "\<exists>line s'. RunPub_subspace (demo_subspace True) demo_fb demo_subspace_options srv s = Some (Inr (0, line), s')"
proof -
  have "\<exists>half line s'. sb_ping_pong (demo_subspace True) demo_fb demo_subspace_options 2 1 s = Some (Inr (0, line), s') \<and>
      PrintCsv_net demo_subspace_options half = Inr line \<and> length half = nat (net_count demo_subspace_options)"
    unfolding sb_ping_pong_def Let_def
    by (rule sb_echoing.ping_pong_succeeds [where tm = fst and q = snd])
      (simp_all add: demo_fb_laws demo_loopback assms, simp_all add: demo_subspace_options_def default_options_net_def int_range_def)
  moreover have "on_env (sb_client_init (demo_subspace True) sk) s = (True, s)"
    "on_env (sb_create_publisher (demo_subspace True) ch po) s = (Some 1, s)"
    "on_env (sb_create_subscriber (demo_subspace True) ch rel) s = (Some 2, s)" for sk ch po rel
    by (simp_all add: demo_subspace_def on_env_def)
  ultimately show ?thesis by (auto simp: RunPub_subspace_def)
qed

lemma demo_subspace_start:
  "\<exists>srv s1. StartServer (demo_subspace peer) demo_subspace_options \<lparr>lk_env = (0, []), lk_log = []\<rparr> = (Inr (Some srv), s1) \<and>
     snd (lk_env s1) = []"
proof -
  have "ParseHostPort (net_peer demo_subspace_options) '''' 0 = Inr (True, ''peer'', 7420)"
    using ParseHostPort_render [of "''peer''" 7420 "''''" 0] by (simp add: demo_subspace_options_def default_options_net_def text_eval)
  then have "\<exists>args nm. server_plan demo_subspace_options tmpl fd1 = Inr (Some (args, nm))" for tmpl fd1
    by (simp add: server_plan_def Let_def)
  then obtain args nm where "server_plan demo_subspace_options ''/tmp/mw_net_subspace000001'' 5 = Inr (Some (args, nm))" by blast
  then show ?thesis
    by (simp add: StartServer_def demo_subspace_def on_env_def env_do_def act_def opened_def note_event_def Let_def)
qed

lemma demo_subspace_main:
  "\<exists>line s'. subspace_net_main (demo_subspace True) demo_fb (net_render_args demo_subspace_options) 0 \<lparr>lk_env = (0, []), lk_log = []\<rparr> =
     Some (Inr (Some 0, line), s')"
proof -
  obtain srv s1 where st: "StartServer (demo_subspace True) demo_subspace_options \<lparr>lk_env = (0, []), lk_log = []\<rparr> = (Inr (Some srv), s1)"
    "snd (lk_env s1) = []" using demo_subspace_start by blast
  have "snd (lk_env (env_do (sb_thread_sleep (demo_subspace True) 300000000) s1)) = []"
    using st(2) by (simp add: demo_subspace_def env_do_def)
  from demo_subspace_run [OF this, of srv] obtain line s' where
    "RunPub_subspace (demo_subspace True) demo_fb demo_subspace_options srv (env_do (sb_thread_sleep (demo_subspace True) 300000000) s1) = Some (Inr (0, line), s')"
    by blast
  moreover have "ParseOptions_net (net_render_args demo_subspace_options) (default_options_net\<lparr>net_stack := ''subspace''\<rparr>) = Inr demo_subspace_options"
    by (rule ParseOptions_net_render_from)
      (simp_all add: net_options_ok_def net_options_in_range_def demo_subspace_options_def default_options_net_def int_range_def)
  moreover have "net_role demo_subspace_options = ''pub''" by (simp add: demo_subspace_options_def)
  ultimately show ?thesis using st(1) by (simp add: subspace_net_main_def leave_main_def Let_def)
qed

section \<open>Properties\<close>

text \<open>
  C33. However the Subspace tool ends, with whatever exit code: every descriptor it was given has
  been closed again, exactly as often, and a server thread that was started has been joined.
\<close>

theorem subspace_main_tears_down:
  assumes "subspace_net_main p fb args n s = Some (Inr (Some code, out), s')" and "lk_log s = []"
  shows "(\<forall>fd\<ge>0. count_list (lk_log s') (Call ''open'' fd) = count_list (lk_log s') (Call ''close'' fd)) \<and>
    count_list (lk_log s') (Call ''thread'' 0) = count_list (lk_log s') (Call ''join'' 0)"
  using subspace_main_settles [OF assms] by (simp add: settles_def owes_def threads_def)

lemma subspace_main_tears_down_witness:
  "\<exists>line s'. subspace_net_main (demo_subspace True) demo_fb (net_render_args demo_subspace_options) 0 \<lparr>lk_env = (0, []), lk_log = []\<rparr> =
     Some (Inr (Some 0, line), s') \<and>
     count_list (lk_log s') (Call ''open'' 4) = count_list (lk_log s') (Call ''close'' 4) \<and>
     count_list (lk_log s') (Call ''thread'' 0) = count_list (lk_log s') (Call ''join'' 0)"
proof -
  obtain line s' where r: "subspace_net_main (demo_subspace True) demo_fb (net_render_args demo_subspace_options) 0 \<lparr>lk_env = (0, []), lk_log = []\<rparr> =
     Some (Inr (Some 0, line), s')" using demo_subspace_main by blast
  from subspace_main_tears_down [OF this] show ?thesis using r by simp
qed

text \<open>
  A Subspace publisher that exits with 0 has an echoed probe, then completed rounds numbered
  from 1001 in which the number published is the last one received before the second clock
  reading, and prints the statistics of exactly the rounds after the warm-up.
\<close>

theorem RunPub_subspace_exit_0:
  assumes "RunPub_subspace p fb opt srv s = Some (Inr (0, line), s')"
  shows "\<exists>es. lk_log s' = lk_log s @ es \<and> ping_pong_log opt 200 es line"
  using assms
  by (auto simp: RunPub_subspace_def sb_ping_pong_def Let_def split: prod.splits if_splits option.splits
      dest!: sb.ping_pong_ok on_env_log)

lemma RunPub_subspace_exit_0_witness:
  "\<exists>line s' es. RunPub_subspace (demo_subspace True) demo_fb demo_subspace_options new_server \<lparr>lk_env = (0, []), lk_log = []\<rparr> = Some (Inr (0, line), s') \<and>
     lk_log s' = es \<and> ping_pong_log demo_subspace_options 200 es line"
proof -
  obtain line s' where r: "RunPub_subspace (demo_subspace True) demo_fb demo_subspace_options new_server \<lparr>lk_env = (0, []), lk_log = []\<rparr> = Some (Inr (0, line), s')"
    using demo_subspace_run [of "\<lparr>lk_env = (0, []), lk_log = []\<rparr>" new_server] by auto
  from RunPub_subspace_exit_0 [OF this] show ?thesis using r by auto
qed

text \<open>
  C34. The timeouts of the receive loop are not enforced while nothing arrives: if a wait without
  a message does not return, a publisher whose first probe is accepted but not echoed never
  returns, although its receive call was given 200 milliseconds.
\<close>

theorem subspace_publisher_hangs:
  assumes "close_clock (sb_clock p) tm q" and "\<And>w. q w = [] \<Longrightarrow> \<exists>w'. sb_read p sub w = (Some [], w') \<and> sb_sub_wait p sub w' = None"
    and "PublishFbs p fb pub 1 (unat (net_size opt)) s = (Sent_ok, s1)" and "q (lk_env s1) = []"
  shows "sb_ping_pong p fb opt sub pub s = None"
proof -
  have "sb_attempt p fb sub pub (unat (net_size opt)) 1 s = None"
    using assms(3) ReadMatching_blocks [OF assms(1,2,4), of 200] by (simp add: sb_attempt_def)
  moreover have "map (\<lambda>i. of_nat (i + 1)) [0..<200] = (1 :: u64) # map (\<lambda>i. of_nat (i + 1)) [1..<200]"
    by (simp add: upt_conv_Cons)
  ultimately show ?thesis by (simp add: sb_ping_pong_def ping_pong_def Let_def)
qed

lemma subspace_publisher_hangs_witness:
  "sb_ping_pong (demo_subspace False) demo_fb default_options_net 2 1 \<lparr>lk_env = (0, []), lk_log = []\<rparr> = None"
proof -
  obtain s1 where "PublishFbs (demo_subspace False) demo_fb 1 1 (unat (net_size default_options_net)) \<lparr>lk_env = (0, []), lk_log = []\<rparr> = (Sent_ok, s1)"
    "snd (lk_env s1) = []"
    using demo_publish by fastforce
  then show ?thesis
    by (intro subspace_publisher_hangs [OF demo_subspace_laws(1)]) (auto simp: demo_subspace_def)
qed

end
