(* ===== verification/Subspace_Bench.thy ===== *)
theory Subspace_Bench
  imports Subspace_Net One_Way
begin

text \<open>
  The shared-memory benchmark of Subspace (\<open>benchmarks/subspace_bench.cc\<close>): the fixture with its
  server, the ping-pong, and what the benchmark thread of the multithreaded benchmark receives. The
  credits that its two threads exchange are in \<open>Credit_Flow\<close>.
\<close>

section \<open>The calls into the middleware\<close>

record local_server_args =
  ls_socket :: string
  ls_interface :: string
  ls_disc_port :: int
  ls_peer_port :: int
  ls_local :: bool
  ls_notify_fd :: int
  ls_initial_ordinal :: int
  ls_wait_for_clients :: bool

text \<open>
  The calls of the network tool's record that only have an effect are used here too. An error comes
  with the text of its status; a buffer may be null; a wait may block for ever.
\<close>

record 'w subspace_shm = "'w subspace" +
  sx_make_server :: "local_server_args \<Rightarrow> 'w \<Rightarrow> 'w"
  sx_client_init :: "string \<Rightarrow> 'w \<Rightarrow> (string + int) \<times> 'w"
  sx_create_publisher :: "int \<Rightarrow> string \<Rightarrow> int \<Rightarrow> int \<Rightarrow> bool \<Rightarrow> 'w \<Rightarrow> (string + int) \<times> 'w"
  sx_create_subscriber :: "int \<Rightarrow> string \<Rightarrow> bool \<Rightarrow> bool \<Rightarrow> 'w \<Rightarrow> (string + int) \<times> 'w"
  sx_get_buffer :: "int \<Rightarrow> int \<Rightarrow> 'w \<Rightarrow> (string + bool) \<times> 'w"
  sx_pub_wait :: "int \<Rightarrow> 'w \<Rightarrow> (string option \<times> 'w) option"
  sx_publish :: "int \<Rightarrow> int \<Rightarrow> bytes \<Rightarrow> 'w \<Rightarrow> string option \<times> 'w"
  sx_read :: "int \<Rightarrow> 'w \<Rightarrow> (string + bytes) \<times> 'w"
  sx_sub_wait :: "int \<Rightarrow> 'w \<Rightarrow> (string option \<times> 'w) option"
  sx_yield :: "'w \<Rightarrow> 'w"

definition act_shm :: "'w subspace_shm \<Rightarrow> effect \<Rightarrow> 'w link \<Rightarrow> 'w link" where
  "act_shm p = act (subspace.truncate p)"

lemma act_shm_log [simp]: "lk_log (act_shm p e s) = lk_log s @ [effect_call e]"
  by (simp add: act_shm_def)

section \<open>The fixture\<close>

text \<open>Its static members; the descriptors of the pipe are zero before the first set-up.\<close>

record SubspaceFixture =
  sf_started :: bool
  sf_socket :: string
  sf_fd0 :: int
  sf_fd1 :: int
  sf_server :: bool
  sf_thread :: bool

definition new_subspace_fixture :: SubspaceFixture where
  "new_subspace_fixture = \<lparr>sf_started = False, sf_socket = '''', sf_fd0 = 0, sf_fd1 = 0, sf_server = False, sf_thread = False\<rparr>"

text \<open>The result of \<open>pipe\<close> is ignored: when it fails the descriptors stay what they were.\<close>

definition SetUp_subspace :: "'w subspace_shm \<Rightarrow> SubspaceFixture \<Rightarrow> 'w link \<Rightarrow> SubspaceFixture \<times> 'w link" where
  "SetUp_subspace p fx s =
     (if sf_started fx then (fx, s)
      else let s = act_shm p Ignore_SIGPIPE s in
        case on_env (sb_mkstemp p ''/tmp/mw_bench_subspaceXXXXXX'') s of ((fd, tmpl), s) \<Rightarrow>
        let s = (if 0 \<le> fd then act_shm p (Unlink tmpl) (act_shm p (Close fd) (opened fd s)) else s);
            fx = fx\<lparr>sf_socket := tmpl\<rparr> in
        case on_env (sb_pipe p) s of ((rc, fd0, fd1), s) \<Rightarrow>
        let (fx, s) = (if rc = 0 then (fx\<lparr>sf_fd0 := fd0, sf_fd1 := fd1\<rparr>, opened fd1 (opened fd0 s)) else (fx, s));
            s = env_do (sx_make_server p \<lparr>ls_socket = sf_socket fx, ls_interface = '''', ls_disc_port = 0, ls_peer_port = 0,
              ls_local = True, ls_notify_fd = sf_fd1 fx, ls_initial_ordinal = 1, ls_wait_for_clients = True\<rparr>) s;
            s = act_shm p (Read_pipe (sf_fd0 fx)) (act_shm p Start_thread s) in
        (fx\<lparr>sf_server := True, sf_thread := True, sf_started := True\<rparr>, s))"

definition Shutdown_subspace :: "'w subspace_shm \<Rightarrow> SubspaceFixture \<Rightarrow> 'w link \<Rightarrow> SubspaceFixture \<times> 'w link" where
  "Shutdown_subspace p fx s =
     (if \<not> sf_started fx \<or> \<not> sf_server fx then (fx, s)
      else let s = act_shm p (Read_pipe (sf_fd0 fx)) (act_shm p Stop_server s);
               s = (if sf_thread fx then act_shm p Join_thread s else s);
               s = act_shm p (Remove (sf_socket fx)) (act_shm p CleanupAfterSession s) in
        (fx\<lparr>sf_thread := False, sf_server := False, sf_started := False\<rparr>, s))"

text \<open>Every benchmark sets the fixture up; \<open>main\<close> shuts it down.\<close>

datatype fixture_op = Op_set_up | Op_shutdown

fun fixture_run :: "'w subspace_shm \<Rightarrow> fixture_op list \<Rightarrow> SubspaceFixture \<times> 'w link \<Rightarrow> SubspaceFixture \<times> 'w link" where
  "fixture_run p [] y = y"
| "fixture_run p (Op_set_up # ops) (fx, s) = fixture_run p ops (SetUp_subspace p fx s)"
| "fixture_run p (Op_shutdown # ops) (fx, s) = fixture_run p ops (Shutdown_subspace p fx s)"

section \<open>The ping-pong\<close>

text \<open>An error of the first \<open>GetMessageBuffer\<close> is retried once after a wait. A slot may be null.\<close>

definition shm_slot :: "'w subspace_shm \<Rightarrow> int \<Rightarrow> int \<Rightarrow> 'w link \<Rightarrow> ((string + bool) \<times> 'w link) option" where
  "shm_slot p pub nbytes s =
     (case on_env (sx_get_buffer p pub nbytes) s of
        (Inr slot, s) \<Rightarrow> Some (Inr slot, s)
      | (Inl m, s) \<Rightarrow>
          (case on_env_block (sx_pub_wait p pub) s of
             None \<Rightarrow> None
           | Some (Some w, s) \<Rightarrow> Some (Inl w, s)
           | Some (None, s) \<Rightarrow> Some (on_env (sx_get_buffer p pub nbytes) s)))"

text \<open>
  The first half of an iteration. The sample is copied into the slot without a test for null.
\<close>

definition shm_put :: "'w subspace_shm \<Rightarrow> flatbuffers \<Rightarrow> int \<Rightarrow> nat \<Rightarrow> 'w link shm_send" where
  "shm_put p fb pub sz sq s =
     (let b = BuildSample fb sq sz; nbytes = int32_of_size (length b) in
      case shm_slot p pub nbytes s of
        None \<Rightarrow> None
      | Some (Inl m, s) \<Rightarrow> Some (Inr (Some m), s)
      | Some (Inr False, s) \<Rightarrow> Some (Inl Null_deref, s)
      | Some (Inr True, s) \<Rightarrow>
          (case NowNs (sb_clock p) s of (now, s) \<Rightarrow>
           case StampSample fb now b of
             Inl m \<Rightarrow> Some (Inl (Thrown m), s)
           | Inr b \<Rightarrow>
               (case on_env (sx_publish p pub nbytes b) s of
                  (Some m, s) \<Rightarrow> Some (Inr (Some m), s)
                | (None, s) \<Rightarrow> Some (Inr None, note_event (Sent sq now) s))))"

text \<open>The second half: a loop with no deadline.\<close>

partial_function (option) shm_await ::
  "'w subspace_shm \<Rightarrow> flatbuffers \<Rightarrow> int \<Rightarrow> u64 \<Rightarrow> 'w link \<Rightarrow> ((string + u64) \<times> 'w link) option" where
  "shm_await p fb sub sq s =
     (case on_env (sx_read p sub) s of
        (Inl m, s) \<Rightarrow> Some (Inl m, s)
      | (Inr msg, s) \<Rightarrow>
          if length msg = 0
          then (case on_env_block (sx_sub_wait p sub) s of
                  None \<Rightarrow> None
                | Some (Some m, s) \<Rightarrow> Some (Inl m, s)
                | Some (None, s) \<Rightarrow> shm_await p fb sub sq s)
          else (case ReadSampleMeta fb (Some msg) (length msg) of
                  None \<Rightarrow> Some (Inl ''invalid FlatBuffer sample'', s)
                | Some (got_seq, send_ns) \<Rightarrow>
                    let s = note_event (Got got_seq) s in
                    if got_seq = sq then Some (Inr send_ns, s) else shm_await p fb sub sq s))"

text \<open>A call that may fail skips the benchmark with its message, and nothing is reported.\<close>

definition or_skip ::
  "('w \<Rightarrow> (string + 'a) \<times> 'w) \<Rightarrow> 'w link
   \<Rightarrow> ('a \<Rightarrow> 'w link \<Rightarrow> ((string option \<times> counters res) res \<times> 'w link) option)
   \<Rightarrow> ((string option \<times> counters res) res \<times> 'w link) option" where
  "or_skip f s k = (case on_env f s of (Inl m, s) \<Rightarrow> Some (Inr (Some m, Inr Map.empty), s) | (Inr a, s) \<Rightarrow> k a s)"

definition subspace_channel :: "string \<Rightarrow> bool \<Rightarrow> nat \<Rightarrow> nat \<Rightarrow> string" where
  "subspace_channel kind reliable sz state_addr =
     ''bench/subspace/'' @ kind @ ''/'' @ (if reliable then ''1'' else ''0'') @ ''/'' @ show_nat sz @ ''/'' @ show_nat state_addr"

definition RunPingPong_subspace ::
  "'w subspace_shm \<Rightarrow> flatbuffers \<Rightarrow> SubspaceFixture \<Rightarrow> bool \<Rightarrow> nat \<Rightarrow> nat \<Rightarrow> nat \<Rightarrow> 'w link
   \<Rightarrow> ((string option \<times> counters res) res \<times> 'w link) option" where
  "RunPingPong_subspace p fb fx reliable sz state_addr n s =
     (let channel = subspace_channel ''pp'' reliable sz state_addr in
      or_skip (sx_client_init p (sf_socket fx)) s (\<lambda>pub_client s.
      or_skip (sx_client_init p (sf_socket fx)) s (\<lambda>sub_client s.
      or_skip (sx_create_publisher p pub_client channel (int32_of_size (SampleSlotBytes sz)) kNumSlots reliable) s (\<lambda>pub s.
      or_skip (sx_create_subscriber p sub_client channel reliable reliable) s (\<lambda>sub s.
      map_option (\<lambda>(r, s). (map_sum id reported_counters r, s))
        (one_way_rounds (shm_put p fb pub sz) (shm_await p fb sub) (NowNs (sb_clock p)) n 0 [] s))))))"

section \<open>Receiving in the multithreaded benchmark\<close>

text \<open>
  The drain at the start of an iteration: up to 32 samples are taken and recorded as queued. The
  latency of a sample is measured when it is taken.
\<close>

fun shm_drain ::
  "'w subspace_shm \<Rightarrow> flatbuffers \<Rightarrow> int \<Rightarrow> nat \<Rightarrow> MtTakeStats \<Rightarrow> 'w link \<Rightarrow> (string option \<times> MtTakeStats) \<times> 'w link" where
  "shm_drain p fb sub 0 stats s = ((None, stats), s)"
| "shm_drain p fb sub (Suc n) stats s =
     (case on_env (sx_read p sub) s of
        (Inl m, s) \<Rightarrow> ((Some m, stats), s)
      | (Inr msg, s) \<Rightarrow>
          if length msg = 0 then ((None, stats), s)
          else (case ReadSampleMeta fb (Some msg) (length msg) of
                  None \<Rightarrow> ((Some ''invalid FlatBuffer sample'', stats), s)
                | Some (sq, send_ns) \<Rightarrow>
                    (case NowNs (sb_clock p) (note_event (Got sq) s) of (now, s) \<Rightarrow>
                     shm_drain p fb sub n (Record (OneWayLatencySec send_ns now) True 0 stats) s)))"

text \<open>Up to 64 reads in a row for a sample that is about to arrive.\<close>

fun shm_spin :: "'w subspace_shm \<Rightarrow> int \<Rightarrow> nat \<Rightarrow> 'w link \<Rightarrow> (string + bytes) \<times> 'w link" where
  "shm_spin p sub 0 s = (Inr [], s)"
| "shm_spin p sub (Suc n) s =
     (case on_env (sx_read p sub) s of
        (Inl m, s) \<Rightarrow> (Inl m, s)
      | (Inr msg, s) \<Rightarrow> if 0 < length msg then (Inr msg, s) else shm_spin p sub n s)"

text \<open>Waiting for the next sample: the time spent in \<open>yield\<close> or \<open>Wait\<close> is added up.\<close>

definition shm_pause :: "'w subspace_shm \<Rightarrow> int \<Rightarrow> bool \<Rightarrow> 'w link \<Rightarrow> ((string option \<times> u64) \<times> 'w link) option" where
  "shm_pause p sub reliable s =
     (case NowNs (sb_clock p) s of (w0, s) \<Rightarrow>
      if \<not> reliable
      then (case NowNs (sb_clock p) (env_do (sx_yield p) s) of (w1, s) \<Rightarrow> Some ((None, w1 - w0), s))
      else (case on_env_block (sx_sub_wait p sub) s of
              None \<Rightarrow> None
            | Some (w, s) \<Rightarrow> (case NowNs (sb_clock p) s of (w1, s) \<Rightarrow> Some ((w, w1 - w0), s))))"

definition shm_accept :: "flatbuffers \<Rightarrow> bytes \<Rightarrow> u64 \<Rightarrow> 'w link \<Rightarrow> (string + fresh option) \<times> 'w link" where
  "shm_accept fb msg wait_ns s =
     (case ReadSampleMeta fb (Some msg) (length msg) of
        None \<Rightarrow> (Inl ''invalid FlatBuffer sample'', s)
      | Some (sq, send_ns) \<Rightarrow>
          (Inr (Some \<lparr>fr_send_ns = send_ns, fr_was_queued = (wait_ns = 0), fr_wait_ns = wait_ns\<rparr>), note_event (Got sq) s))"

text \<open>The timed part of an iteration: an error message, a sample, or nothing before the deadline.\<close>

partial_function (option) shm_fresh_until ::
  "'w subspace_shm \<Rightarrow> flatbuffers \<Rightarrow> int \<Rightarrow> bool \<Rightarrow> int \<Rightarrow> u64 \<Rightarrow> 'w link \<Rightarrow> ((string + fresh option) \<times> 'w link) option" where
  "shm_fresh_until p fb sub reliable deadline wait_ns s =
     (case on_env (sb_clock p) s of (now, s) \<Rightarrow>
      if \<not> now < deadline then Some (Inr None, s)
      else case on_env (sx_read p sub) s of
          (Inl m, s) \<Rightarrow> Some (Inl m, s)
        | (Inr msg, s) \<Rightarrow>
            if 0 < length msg then Some (shm_accept fb msg wait_ns s)
            else (case shm_spin p sub 64 s of
                (Inl m, s) \<Rightarrow> Some (Inl m, s)
              | (Inr msg, s) \<Rightarrow>
                  if 0 < length msg then Some (shm_accept fb msg wait_ns s)
                  else (case shm_pause p sub reliable s of
                      None \<Rightarrow> None
                    | Some ((Some m, w), s) \<Rightarrow> Some (Inl m, s)
                    | Some ((None, w), s) \<Rightarrow> shm_fresh_until p fb sub reliable deadline (wait_ns + w) s)))"

definition shm_fresh :: "'w subspace_shm \<Rightarrow> flatbuffers \<Rightarrow> int \<Rightarrow> bool \<Rightarrow> 'w link \<Rightarrow> ((string + fresh option) \<times> 'w link) option" where
  "shm_fresh p fb sub reliable s =
     (case on_env (sb_clock p) s of (now, s) \<Rightarrow> shm_fresh_until p fb sub reliable (now + 2000000000) 0 s)"

text \<open>
  One iteration of the benchmark thread, without the release of the credits: the message that ends
  the benchmark, if any, the counters and the latencies.
\<close>

definition shm_iteration ::
  "'w subspace_shm \<Rightarrow> flatbuffers \<Rightarrow> int \<Rightarrow> bool \<Rightarrow> MtTakeStats \<times> rat list \<Rightarrow> 'w link
   \<Rightarrow> ((string option \<times> MtTakeStats \<times> rat list) \<times> 'w link) option" where
  "shm_iteration p fb sub reliable y s =
     (case y of (stats, lats) \<Rightarrow>
      case shm_drain p fb sub 32 stats s of
        ((Some m, stats), s) \<Rightarrow> Some ((Some m, stats, lats), s)
      | ((None, stats), s) \<Rightarrow>
          (case shm_fresh p fb sub reliable s of
             None \<Rightarrow> None
           | Some (Inl m, s) \<Rightarrow> Some ((Some m, stats, lats), s)
           | Some (Inr None, s) \<Rightarrow> Some ((Some ''timed out waiting for fresh sample'', stats, lats), s)
           | Some (Inr (Some f), s) \<Rightarrow>
               (case NowNs (sb_clock p) s of (now, s) \<Rightarrow>
                let e2e = OneWayLatencySec (fr_send_ns f) now in
                Some ((None, Record e2e (fr_was_queued f) (fl (dbl_of_u64 (fr_wait_ns f) * lit_1em9)) stats, lats @ [e2e]), s))))"

text \<open>
  The benchmark thread of \<open>RunMtOneWay\<close>: whatever ends the iterations, the publisher thread is
  stopped and joined, and both sets of counters are reported.
\<close>

definition kMtSlots :: int where "kMtSlots = 8"

definition RunMtOneWay_subspace ::
  "'w subspace_shm \<Rightarrow> flatbuffers \<Rightarrow> SubspaceFixture \<Rightarrow> bool \<Rightarrow> nat \<Rightarrow> nat \<Rightarrow> nat \<Rightarrow> 'w link
   \<Rightarrow> ((string option \<times> counters res) res \<times> 'w link) option" where
  "RunMtOneWay_subspace p fb fx reliable sz state_addr n s =
     (let channel = subspace_channel ''mt'' reliable sz state_addr in
      or_skip (sx_client_init p (sf_socket fx)) s (\<lambda>pub_client s.
      or_skip (sx_client_init p (sf_socket fx)) s (\<lambda>sub_client s.
      or_skip (sx_create_publisher p pub_client channel (int32_of_size (SampleSlotBytes sz)) kMtSlots reliable) s (\<lambda>pub s.
      or_skip (sx_create_subscriber p sub_client channel reliable reliable) s (\<lambda>sub s.
      mt_benchmark (shm_iteration p fb sub reliable) n s)))))"

section \<open>What sending and receiving log\<close>

lemma shm_slot_log [simp]: "shm_slot p pub nbytes s = Some (r, s') \<Longrightarrow> lk_log s' = lk_log s"
  by (auto simp: shm_slot_def dest!: on_env_log on_env_block_log split: prod.splits sum.splits option.splits)

lemma shm_put_log:
  assumes "shm_put p fb pub sz sq s = Some (Inr None, s')"
  shows "\<exists>ns. lk_log s' = lk_log s @ [Sent sq ns]"
proof -
  let ?nb = "int32_of_size (length (BuildSample fb sq sz))"
  obtain slot s1 where w: "shm_slot p pub ?nb s = Some (slot, s1)" using assms by (auto simp: shm_put_def Let_def split: option.splits)
  obtain now s2 where n: "NowNs (sb_clock p) s1 = (now, s2)" by fastforce
  have "lk_log s2 = lk_log s" using shm_slot_log [OF w] n by simp
  then show ?thesis
    using assms w n by (auto simp: shm_put_def Let_def note_event_def dest!: on_env_log split: sum.splits bool.splits prod.splits option.splits)
qed

definition awaits :: "u64 \<Rightarrow> 'w link \<Rightarrow> (string + u64) \<times> 'w link \<Rightarrow> bool" where
  "awaits sq s y \<longleftrightarrow> received_until sq s (isl (fst y) = False, snd y)"

lemma shm_await_awaits:
  assumes "shm_await p fb sub sq s = Some y"
  shows "awaits sq s y"
  using assms
proof (induction rule: shm_await.raw_induct [rotated, consumes 1, case_names step])
  case (step rec p fb sub sq s y)
  obtain r s1 where rd: "on_env (sx_read p sub) s = (r, s1)" by fastforce
  have l1: "lk_log s1 = lk_log s" using rd by simp
  have stop: "awaits sq s (Inl m, s')" if "lk_log s' = lk_log s" for m s'
    using received_stop [OF that] by (simp add: awaits_def)
  have hit: "awaits sq s (Inr ns, note_event (Got sq) s1)" for ns
    using received_hit [OF l1] by (simp add: awaits_def)
  have skip: "awaits sq s y" if "rec p fb sub sq (note_event (Got g) s1) = Some y" "g \<noteq> sq" for g
    using step(1) [OF that(1)] received_skip [OF _ that(2) l1] by (simp add: awaits_def)
  have wait: "awaits sq s y" if "on_env_block (sx_sub_wait p sub) s1 = Some (e, s2)" "rec p fb sub sq s2 = Some y" for e s2
    using step(1) [OF that(2)] received_same l1 on_env_block_log [OF that(1)] by (fastforce simp: awaits_def)
  have err: "awaits sq s (Inl m, s2)" if "on_env_block (sx_sub_wait p sub) s1 = Some (e, s2)" for e m s2
    using stop on_env_block_log [OF that] l1 by simp
  show ?case
    using step(2) rd stop [OF l1] hit skip wait err
    by (auto simp: Let_def split: sum.splits option.splits prod.splits if_splits)
qed

interpretation sx: one_way_link "shm_put p fb pub sz" "shm_await p fb sub" "NowNs (sb_clock p)" lk_log "\<lambda>_. True"
  for p fb pub sub sz
proof
  show "\<exists>stale. lk_log s' = lk_log s @ map Got stale @ [Got sq]" if "shm_await p fb sub sq s = Some (Inr ns, s')"
    for sq ns and s s' :: "'a link"
    using shm_await_awaits [OF that] received_until_found by (fastforce simp: awaits_def)
qed (simp_all add: shm_put_log)

lemma or_skip_cases:
  assumes "or_skip f s k = Some (r, s')"
  obtains m where "r = Inr (Some m, Inr Map.empty)" "lk_log s' = lk_log s"
  | a s1 where "lk_log s1 = lk_log s" "k a s1 = Some (r, s')"
  using assms by (auto simp: or_skip_def dest: on_env_log split: prod.splits sum.splits)

lemma RunPingPong_subspace_cases:
  assumes "RunPingPong_subspace p fb fx reliable sz state_addr n s = Some (r, s')"
  obtains m where "r = Inr (Some m, Inr Map.empty)" "lk_log s' = lk_log s"
  | pub sub s1 r1 where "lk_log s1 = lk_log s"
      "one_way_rounds (shm_put p fb pub sz) (shm_await p fb sub) (NowNs (sb_clock p)) n 0 [] s1 = Some (r1, s')"
      "r = map_sum id reported_counters r1"
  using assms unfolding RunPingPong_subspace_def Let_def by (fastforce elim!: or_skip_cases)

section \<open>Faults\<close>

text \<open>A step of the loop faults only in sending; a sample that is there can always be stamped.\<close>

lemma shm_put_faults:
  assumes "flatbuffer_laws fb" and "shm_put p fb pub sz sq s = Some (Inl f, s')"
  shows "f = Null_deref \<and> (\<exists>nb w. fst (sx_get_buffer p pub nb w) = Inr False)"
proof -
  let ?nb = "int32_of_size (length (BuildSample fb sq sz))"
  obtain slot s1 where w: "shm_slot p pub ?nb s = Some (slot, s1)" using assms(2) by (auto simp: shm_put_def Let_def split: option.splits)
  obtain now s2 where n: "NowNs (sb_clock p) s1 = (now, s2)" by fastforce
  obtain b where b: "StampSample fb now (BuildSample fb sq sz) = Inr b" using stamped_sample [OF assms(1)] by blast
  have "f = Null_deref" "slot = Inr False"
    using assms(2) w n b by (auto simp: shm_put_def Let_def split: sum.splits bool.splits prod.splits option.splits)
  moreover have "\<exists>w'. fst (sx_get_buffer p pub ?nb w') = Inr False"
    using w \<open>slot = Inr False\<close>
    by (auto simp: shm_slot_def on_env_def split: sum.splits option.splits prod.splits) (metis fst_conv)+
  ultimately show ?thesis by blast
qed

lemma one_way_rounds_fault:
  assumes "one_way_rounds send recv clock n sq lats s = Some (Inl f, s')"
  shows "\<exists>sq s1. send sq s1 = Some (Inl f, s')"
  using assms
proof (induction n arbitrary: sq lats s)
  case (Suc n)
  obtain r s1 where sd: "send (sq + 1) s = Some (r, s1)" using Suc.prems by (auto simp: Let_def split: option.splits)
  show ?case
  proof (cases r)
    case (Inl g)
    then show ?thesis using Suc.prems sd by auto
  next
    case (Inr e)
    then have "e = None" using Suc.prems sd by (auto simp: Let_def split: option.splits)
    then obtain ns s2 where rc: "recv (sq + 1) s1 = Some (Inr ns, s2)"
      using Suc.prems sd Inr by (auto simp: Let_def split: option.splits sum.splits)
    obtain now s3 where "clock s2 = (now, s3)" by fastforce
    then have "one_way_rounds send recv clock n (sq + 1) (lats @ [OneWayLatencySec ns now]) s3 = Some (Inl f, s')"
      using Suc.prems sd rc Inr \<open>e = None\<close> by (simp add: Let_def)
    then show ?thesis by (rule Suc.IH)
  qed
qed simp

section \<open>The iterations of the multithreaded benchmark\<close>

lemma shm_drain_takes:
  assumes "shm_drain p fb sub n stats s = ((None, stats'), s')"
  shows "\<exists>k\<le>n. takes_recorded (lk_log s) stats (lk_log s') stats' k"
  using assms
proof (induction n arbitrary: stats s)
  case 0
  then show ?case by (auto simp: takes_recorded_def)
next
  case (Suc n)
  obtain r s1 where rd: "on_env (sx_read p sub) s = (r, s1)" by fastforce
  then obtain msg where r: "r = Inr msg" using Suc.prems by (cases r) auto
  show ?case
  proof (cases "msg = []")
    case True
    then show ?thesis using Suc.prems rd r by (intro exI [of _ 0]) (simp add: takes_recorded_def)
  next
    case False
    then obtain sq ns where m: "ReadSampleMeta fb (Some msg) (length msg) = Some (sq, ns)"
      using Suc.prems rd r by (auto split: option.splits)
    obtain now s2 where c: "NowNs (sb_clock p) (note_event (Got sq) s1) = (now, s2)" by fastforce
    then have l2: "lk_log s2 = lk_log s @ [Got sq]" using rd by (simp add: note_event_def)
    have "shm_drain p fb sub n (Record (OneWayLatencySec ns now) True 0 stats) s2 = ((None, stats'), s')"
      using Suc.prems rd r m c False by simp
    from Suc.IH [OF this] obtain k gs where "k \<le> n" "lk_log s' = lk_log s2 @ map Got gs" "length gs = k"
      "mt_n stats' = mt_n stats + 1 + of_nat k" by (auto simp: takes_recorded_def)
    then show ?thesis using l2
      by (intro exI [of _ "Suc k"]) (auto simp: takes_recorded_def add.assoc intro!: exI [of _ "sq # gs"])
  qed
qed

lemma shm_spin_log: "shm_spin p sub n s = (r, s') \<Longrightarrow> lk_log s' = lk_log s"
  by (induction n arbitrary: s) (auto dest!: on_env_log split: prod.splits sum.splits if_splits)

lemma shm_pause_log: "shm_pause p sub reliable s = Some (y, s') \<Longrightarrow> lk_log s' = lk_log s"
  by (auto simp: shm_pause_def dest!: NowNs_log on_env_block_log split: prod.splits if_splits option.splits)

definition fresh_takes :: "'w link \<Rightarrow> (string + fresh option) \<times> 'w link \<Rightarrow> bool" where
  "fresh_takes s y \<longleftrightarrow>
     (case fst y of
        Inr (Some f) \<Rightarrow> (\<exists>sq. lk_log (snd y) = lk_log s @ [Got sq]) \<and> (fr_was_queued f \<longleftrightarrow> fr_wait_ns f = 0)
      | _ \<Rightarrow> lk_log (snd y) = lk_log s)"

lemma shm_accept_takes: "lk_log s1 = lk_log s \<Longrightarrow> fresh_takes s (shm_accept fb msg w s1)"
  by (simp add: shm_accept_def fresh_takes_def note_event_def split: option.splits)

lemma fresh_takes_same: "fresh_takes s1 y \<Longrightarrow> lk_log s1 = lk_log s \<Longrightarrow> fresh_takes s y"
  by (simp add: fresh_takes_def split: sum.splits option.splits)

lemma shm_fresh_until_takes:
  assumes "shm_fresh_until p fb sub reliable deadline wait_ns s = Some y"
  shows "fresh_takes s y"
  using assms
proof (induction rule: shm_fresh_until.raw_induct [rotated, consumes 1, case_names step])
  case (step rec p fb sub reliable deadline wait_ns s y)
  obtain now s1 where c: "on_env (sb_clock p) s = (now, s1)" by fastforce
  obtain r s2 where rd: "on_env (sx_read p sub) s1 = (r, s2)" by fastforce
  obtain r' s3 where sp: "shm_spin p sub 64 s2 = (r', s3)" by fastforce
  have l: "lk_log s1 = lk_log s" "lk_log s2 = lk_log s" "lk_log s3 = lk_log s" using c rd shm_spin_log [OF sp] by simp_all
  have err: "fresh_takes s (Inl m, s1')" "fresh_takes s (Inr None, s1')" if "lk_log s1' = lk_log s" for m s1'
    using that by (simp_all add: fresh_takes_def)
  have acc: "fresh_takes s (shm_accept fb msg w s2)" "fresh_takes s (shm_accept fb msg w s3)" for msg w
    using shm_accept_takes [OF l(2)] shm_accept_takes [OF l(3)] by blast+
  have more: "fresh_takes s y" if "shm_pause p sub reliable s3 = Some ((e, w), s4)"
    "rec p fb sub reliable deadline (wait_ns + w) s4 = Some y" for e w s4
    using step(1) [OF that(2)] fresh_takes_same shm_pause_log [OF that(1)] l by simp
  have stop: "fresh_takes s (Inl m, s4)" if "shm_pause p sub reliable s3 = Some (e, s4)" for e m s4
    using err shm_pause_log [OF that] l by simp
  show ?case
    using step(2) c rd sp err(1) [OF l(2)] err(1) [OF l(3)] err(2) [OF l(1)] acc more stop
    by (auto split: sum.splits option.splits prod.splits if_splits)
qed

lemma shm_iteration_takes:
  assumes "shm_iteration p fb sub reliable (stats, lats) s = Some ((None, stats', lats'), s')"
  shows "length lats' = Suc (length lats) \<and> (\<exists>k. 1 \<le> k \<and> k \<le> 33 \<and> takes_recorded (lk_log s) stats (lk_log s') stats' k)"
proof -
  obtain stats1 s1 where d: "shm_drain p fb sub 32 stats s = ((None, stats1), s1)"
    using assms by (auto simp: shm_iteration_def split: prod.splits option.splits)
  obtain f s2 where f: "shm_fresh p fb sub reliable s1 = Some (Inr (Some f), s2)"
    using assms d by (auto simp: shm_iteration_def split: prod.splits option.splits sum.splits)
  obtain now s3 where c: "NowNs (sb_clock p) s2 = (now, s3)" by fastforce
  have e: "s' = s3" "mt_n stats' = mt_n stats1 + 1" "length lats' = Suc (length lats)"
    using assms d f c by (auto simp: shm_iteration_def Let_def)
  obtain k where "k \<le> 32" "takes_recorded (lk_log s) stats (lk_log s1) stats1 k" using shm_drain_takes [OF d] by auto
  then obtain gs where k: "k \<le> 32" "lk_log s1 = lk_log s @ map Got gs" "length gs = k" "mt_n stats1 = mt_n stats + of_nat k"
    by (auto simp: takes_recorded_def)
  have "fresh_takes s1 (Inr (Some f), s2)"
    using f shm_fresh_until_takes fresh_takes_same
    by (fastforce simp: shm_fresh_def dest: on_env_log split: prod.splits)
  then obtain sq where "lk_log s2 = lk_log s1 @ [Got sq]" by (auto simp: fresh_takes_def)
  then have "takes_recorded (lk_log s) stats (lk_log s') stats' (Suc k)"
    using k e c by (auto simp: takes_recorded_def add.assoc intro!: exI [of _ "gs @ [sq]"])
  then show ?thesis using e(3) k(1) by (intro conjI exI [of _ "Suc k"]) auto
qed

interpretation sx_mt: mt_link_thread "shm_iteration p fb sub reliable" for p fb sub reliable
  by unfold_locales (rule shm_iteration_takes)

section \<open>The fixture\<close>

definition fixture_inv :: "SubspaceFixture \<Rightarrow> 'w link \<Rightarrow> bool" where
  "fixture_inv fx s \<longleftrightarrow> threads (lk_log s) = (if sf_started fx then 1 else 0) \<and>
     sf_server fx = sf_started fx \<and> sf_thread fx = sf_started fx"

lemma threads_calls [simp]: "threads [] = 0" "threads (Call f n # es) = threads es + (if Call f n = Call ''thread'' 0 then 1 else 0) - (if Call f n = Call ''join'' 0 then 1 else 0)"
  by (auto simp: threads_def)

lemma fixture_step:
  assumes "fixture_inv fx s"
  shows "fixture_inv (fst (SetUp_subspace p fx s)) (snd (SetUp_subspace p fx s))"
    and "fixture_inv (fst (Shutdown_subspace p fx s)) (snd (Shutdown_subspace p fx s))"
proof -
  obtain fd tmpl s1 where m: "on_env (sb_mkstemp p ''/tmp/mw_bench_subspaceXXXXXX'') (act_shm p Ignore_SIGPIPE s) = ((fd, tmpl), s1)"
    by (metis surj_pair)
  define s2 where "s2 = (if 0 \<le> fd then act_shm p (Unlink tmpl) (act_shm p (Close fd) (opened fd s1)) else s1)"
  obtain rc fd0 fd1 s3 where q: "on_env (sb_pipe p) s2 = ((rc, fd0, fd1), s3)" by (metis prod_cases3 surj_pair)
  have "threads (lk_log s3) = threads (lk_log s)"
    using m q by (auto simp: s2_def opened_def note_event_def dest!: on_env_log)
  then show "fixture_inv (fst (SetUp_subspace p fx s)) (snd (SetUp_subspace p fx s))"
    using assms m q
    by (auto simp: SetUp_subspace_def Let_def s2_def [symmetric] fixture_inv_def opened_def note_event_def)
  show "fixture_inv (fst (Shutdown_subspace p fx s)) (snd (Shutdown_subspace p fx s))"
    using assms by (auto simp: Shutdown_subspace_def Let_def fixture_inv_def)
qed

lemma fixture_run_inv: "fixture_inv fx s \<Longrightarrow> fixture_inv (fst (fixture_run p ops (fx, s))) (snd (fixture_run p ops (fx, s)))"
proof (induction ops arbitrary: fx s)
  case (Cons o' ops)
  show ?case
    using Cons.IH fixture_step [OF Cons.prems, of p]
    by (cases o'; cases "SetUp_subspace p fx s"; cases "Shutdown_subspace p fx s") auto
qed simp

section \<open>A channel that delivers\<close>

text \<open>
  What is published to an empty channel is the next thing read from it, whatever the clock does;
  \<open>q\<close> observes the messages waiting to be read in a world.
\<close>

definition shm_loopback :: "'w subspace_shm \<Rightarrow> int \<Rightarrow> int \<Rightarrow> ('w \<Rightarrow> bytes list) \<Rightarrow> bool" where
  "shm_loopback p sub pub q \<longleftrightarrow>
     (\<forall>w. q (snd (sb_clock p w)) = q w) \<and>
     (\<forall>w n. q w = [] \<longrightarrow> (\<exists>w'. sx_get_buffer p pub n w = (Inr True, w') \<and> q w' = [])) \<and>
     (\<forall>w n b. q w = [] \<longrightarrow> (\<exists>w'. sx_publish p pub n b w = (None, w') \<and> q w' = [b])) \<and>
     (\<forall>w b. q w = [b] \<longrightarrow> (\<exists>w'. sx_read p sub w = (Inr b, w') \<and> q w' = []))"

lemma shm_delivered:
  assumes fb: "flatbuffer_laws fb" and lo: "shm_loopback p sub pub q" and "q (lk_env s) = []"
  shows "\<exists>s' s'' ns. shm_put p fb pub sz sq s = Some (Inr None, s') \<and> shm_await p fb sub sq s' = Some (Inr ns, s'') \<and>
    lk_log s'' = lk_log s @ [Sent sq ns, Got sq] \<and> q (lk_env s'') = []"
proof -
  let ?nb = "int32_of_size (length (BuildSample fb sq sz))"
  obtain w1 where w1: "sx_get_buffer p pub ?nb (lk_env s) = (Inr True, w1)" "q w1 = []"
    using lo assms(3) unfolding shm_loopback_def by blast
  obtain t w2 where w2: "sb_clock p w1 = (t, w2)" by fastforce
  then have q2: "q w2 = []" using lo w1(2) unfolding shm_loopback_def by (metis snd_conv)
  define ns where "ns = (word_of_int t :: u64)"
  obtain b where b: "StampSample fb ns (BuildSample fb sq sz) = Inr b" "ReadSampleMeta fb (Some b) (length b) = Some (sq, ns)"
    using stamped_sample [OF fb] by blast
  obtain w3 where w3: "sx_publish p pub ?nb b w2 = (None, w3)" "q w3 = [b]"
    using lo q2 unfolding shm_loopback_def by blast
  obtain w4 where w4: "sx_read p sub w3 = (Inr b, w4)" "q w4 = []"
    using lo w3(2) unfolding shm_loopback_def by blast
  define s' where "s' = note_event (Sent sq ns) (s\<lparr>lk_env := w3\<rparr>)"
  have "shm_put p fb pub sz sq s = Some (Inr None, s')"
    using w1 w2 b(1) w3 by (simp add: shm_put_def shm_slot_def on_env_def NowNs_def ns_def s'_def Let_def)
  moreover have "b \<noteq> []" using b(2) by (auto simp: ReadSampleMeta_def split: if_splits)
  then have "shm_await p fb sub sq s' = Some (Inr ns, note_event (Got sq) (s'\<lparr>lk_env := w4\<rparr>))"
    using w4 b(2) by (subst shm_await.simps) (simp add: on_env_def s'_def note_event_def Let_def)
  ultimately show ?thesis using w4(2) by (simp add: s'_def note_event_def)
qed

interpretation sx_channel: one_way_channel "shm_put p fb pub sz" "shm_await p fb sub" "NowNs (sb_clock p)" lk_log "\<lambda>_. True"
  "\<lambda>s. flatbuffer_laws fb \<and> shm_loopback p sub pub q \<and> q (lk_env s) = []"
  for p fb pub sub sz q
proof
  fix s :: "'a link" and sq :: u64
  assume i: "flatbuffer_laws fb \<and> shm_loopback p sub pub q \<and> q (lk_env s) = []"
  then show "\<exists>s' s'' ns. shm_put p fb pub sz sq s = Some (Inr None, s') \<and> shm_await p fb sub sq s' = Some (Inr ns, s'') \<and>
      lk_log s'' = lk_log s @ [Sent sq ns, Got sq] \<and>
      flatbuffer_laws fb \<and> shm_loopback p sub pub q \<and> q (lk_env s'') = []"
    using shm_delivered [of fb p sub pub q s sz sq] by blast
  have "q (snd (sb_clock p (lk_env s))) = []" using i unfolding shm_loopback_def by metis
  then show "flatbuffer_laws fb \<and> shm_loopback p sub pub q \<and> q (lk_env (snd (NowNs (sb_clock p) s))) = []"
    using i by (simp add: NowNs_def on_env_def case_prod_beta)
qed

section \<open>A concrete Subspace\<close>

text \<open>
  The clock ticks at every reading. With \<open>full\<close> no slot of a channel is ever free. While the
  benchmark thread yields, the publisher thread publishes a sample.
\<close>

definition demo_subspace_shm :: "bool \<Rightarrow> (int \<times> bytes list) subspace_shm" where
  "demo_subspace_shm full = \<lparr>
     sb_clock = (\<lambda>(t, q). (t, (t + 1, q))), sb_thread_sleep = (\<lambda>ns w. w), sb_effect = (\<lambda>e w. w),
     sb_mkstemp = (\<lambda>tmpl w. ((3, ''/tmp/mw_bench_subspace000001''), w)), sb_pipe = (\<lambda>w. ((0, 4, 5), w)),
     sb_make_server = (\<lambda>args w. w), sb_client_init = (\<lambda>socket w. (True, w)),
     sb_create_publisher = (\<lambda>ch opts w. (None, w)), sb_create_subscriber = (\<lambda>ch rel w. (None, w)),
     sb_get_buffer = (\<lambda>pub n w. (Slot_error, w)), sb_pub_wait = (\<lambda>pub w. (False, w)),
     sb_publish = (\<lambda>pub n b w. (False, w)), sb_read = (\<lambda>sub w. (None, w)), sb_sub_wait = (\<lambda>sub w. None),
     sx_make_server = (\<lambda>args w. w), sx_client_init = (\<lambda>socket w. (Inr 1, w)),
     sx_create_publisher = (\<lambda>client ch sz n rel w. (Inr 2, w)),
     sx_create_subscriber = (\<lambda>client ch rel log_dropped w. (Inr 3, w)),
     sx_get_buffer = (\<lambda>pub n w. (Inr (\<not> full), w)), sx_pub_wait = (\<lambda>pub w. Some (None, w)),
     sx_publish = (\<lambda>pub n b (t, q). (None, (t, q @ [b]))),
     sx_read = (\<lambda>sub (t, q). case q of [] \<Rightarrow> (Inr [], (t, [])) | b # bs \<Rightarrow> (Inr b, (t, bs))),
     sx_sub_wait = (\<lambda>sub w. None), sx_yield = (\<lambda>(t, q). (t, q @ [BuildSample demo_fb 7 16]))\<rparr>"

lemma demo_shm_loopback: "shm_loopback (demo_subspace_shm False) 3 2 snd"
  by (auto simp: shm_loopback_def demo_subspace_shm_def)

text \<open>The set-up of a benchmark on a middleware that gives every handle.\<close>

definition shm_handles :: "'w subspace_shm \<Rightarrow> int \<Rightarrow> int \<Rightarrow> bool" where
  "shm_handles p sub pub \<longleftrightarrow>
     (\<forall>w socket. \<exists>c. sx_client_init p socket w = (Inr c, w)) \<and>
     (\<forall>w c ch sz n rel. sx_create_publisher p c ch sz n rel w = (Inr pub, w)) \<and>
     (\<forall>w c ch rel logd. sx_create_subscriber p c ch rel logd w = (Inr sub, w))"

lemma demo_shm_handles: "shm_handles (demo_subspace_shm full) 3 2"
  by (simp add: shm_handles_def demo_subspace_shm_def)

lemma RunPingPong_subspace_set_up:
  assumes "shm_handles p sub pub"
  shows "RunPingPong_subspace p fb fx reliable sz state_addr n s =
    map_option (\<lambda>(r, s). (map_sum id reported_counters r, s))
      (one_way_rounds (shm_put p fb pub sz) (shm_await p fb sub) (NowNs (sb_clock p)) n 0 [] s)"
proof -
  obtain c where "sx_client_init p (sf_socket fx) (lk_env s) = (Inr c, lk_env s)"
    using assms unfolding shm_handles_def by blast
  then have "on_env (sx_client_init p (sf_socket fx)) s = (Inr c, s)" by (simp add: on_env_def)
  moreover have "on_env (sx_create_publisher p c ch m k reliable) s = (Inr pub, s)"
    "on_env (sx_create_subscriber p c ch reliable reliable) s = (Inr sub, s)" for ch m k
    using assms by (simp_all add: shm_handles_def on_env_def)
  ultimately show ?thesis by (simp add: RunPingPong_subspace_def or_skip_def Let_def)
qed

lemma demo_subspace_pingpong:
  "\<exists>r s'. RunPingPong_subspace (demo_subspace_shm False) demo_fb fx reliable sz state_addr n \<lparr>lk_env = (0, []), lk_log = []\<rparr> =
     Some (Inr (None, r), s')"
proof -
  have "flatbuffer_laws demo_fb \<and> shm_loopback (demo_subspace_shm False) 3 2 snd \<and>
      snd (lk_env \<lparr>lk_env = (0, []), lk_log = []\<rparr>) = ([] :: bytes list)"
    by (simp add: demo_fb_laws demo_shm_loopback)
  from sx_channel.rounds_delivered [OF this, of sz n 0 "[]"] show ?thesis
    unfolding RunPingPong_subspace_set_up [OF demo_shm_handles] by (auto simp: reported_counters_def)
qed

text \<open>One iteration of the multithreaded benchmark: a sample is queued, another comes during the wait.\<close>

lemma demo_spin: "shm_spin (demo_subspace_shm full) sub n \<lparr>lk_env = (t, []), lk_log = es\<rparr> = (Inr [], \<lparr>lk_env = (t, []), lk_log = es\<rparr>)"
  by (induction n) (simp_all add: demo_subspace_shm_def on_env_def)

lemma demo_fresh:
  "\<exists>f s'. shm_fresh (demo_subspace_shm False) demo_fb 3 False \<lparr>lk_env = (t, []), lk_log = es\<rparr> = Some (Inr (Some f), s')"
proof -
  let ?p = "demo_subspace_shm False"
  have clock: "on_env (sb_clock ?p) \<lparr>lk_env = (t, q), lk_log = es\<rparr> = (t, \<lparr>lk_env = (t + 1, q), lk_log = es\<rparr>)" for t q es
    by (simp add: demo_subspace_shm_def on_env_def)
  have read: "on_env (sx_read ?p 3) \<lparr>lk_env = (t, []), lk_log = es\<rparr> = (Inr [], \<lparr>lk_env = (t, []), lk_log = es\<rparr>)"
    "on_env (sx_read ?p 3) \<lparr>lk_env = (t, [b]), lk_log = es\<rparr> = (Inr b, \<lparr>lk_env = (t, []), lk_log = es\<rparr>)" for t b es
    by (simp_all add: demo_subspace_shm_def on_env_def)
  have pause: "\<exists>w. shm_pause ?p 3 False \<lparr>lk_env = (t, []), lk_log = es\<rparr> =
      Some ((None, w), \<lparr>lk_env = (t + 2, [BuildSample demo_fb 7 16]), lk_log = es\<rparr>)" for t es
    by (simp add: shm_pause_def NowNs_def clock env_do_def) (simp add: demo_subspace_shm_def on_env_def)
  have meta: "ReadSampleMeta demo_fb (Some (BuildSample demo_fb 7 16)) (length (BuildSample demo_fb 7 16)) = Some (7, 1)"
    by (rule demo_fb_sample)
  then have ne: "0 < length (BuildSample demo_fb 7 16)" by (auto simp: ReadSampleMeta_def split: if_splits)
  obtain w where w: "shm_pause ?p 3 False \<lparr>lk_env = (t + 1 + 1, []), lk_log = es\<rparr> =
      Some ((None, w), \<lparr>lk_env = (t + 1 + 1 + 2, [BuildSample demo_fb 7 16]), lk_log = es\<rparr>)"
    using pause by blast
  have "\<exists>f s'. shm_fresh_until ?p demo_fb 3 False (t + 2000000000) w' \<lparr>lk_env = (t + 1 + 1 + 2, [BuildSample demo_fb 7 16]), lk_log = es\<rparr> =
      Some (Inr (Some f), s')" for w'
    by (subst shm_fresh_until.simps) (simp add: clock read ne shm_accept_def meta del: length_greater_0_conv)
  then show ?thesis
    unfolding shm_fresh_def clock prod.case
    by (subst shm_fresh_until.simps) (simp add: clock read demo_spin w [simplified])
qed

lemma demo_iterations:
  "\<exists>r s'. RunMtOneWay_subspace (demo_subspace_shm False) demo_fb fx False 16 4096 1 \<lparr>lk_env = (0, []), lk_log = []\<rparr> =
     Some (Inr (None, r), s')"
proof -
  let ?p = "demo_subspace_shm False"
  have drain: "shm_drain ?p demo_fb 3 32 mt_init \<lparr>lk_env = (0, []), lk_log = es\<rparr> = ((None, mt_init), \<lparr>lk_env = (0, []), lk_log = es\<rparr>)" for es
    by (subst shm_drain.simps(2) [of _ _ _ 31, simplified]) (simp add: demo_subspace_shm_def on_env_def)
  obtain f s1 where f: "shm_fresh ?p demo_fb 3 False \<lparr>lk_env = (0, []), lk_log = [Call ''thread'' 1]\<rparr> = Some (Inr (Some f), s1)"
    using demo_fresh by blast
  obtain now s2 where "NowNs (sb_clock ?p) s1 = (now, s2)" by fastforce
  then have "\<exists>stats lats. mt_iterations (shm_iteration ?p demo_fb 3 False) 1 (mt_init, []) \<lparr>lk_env = (0, []), lk_log = [Call ''thread'' 1]\<rparr> =
      Some ((None, stats, lats), s2)"
    using f drain by (simp add: shm_iteration_def Let_def)
  then obtain stats lats where it: "mt_iterations (shm_iteration ?p demo_fb 3 False) 1 (mt_init, []) \<lparr>lk_env = (0, []), lk_log = [Call ''thread'' 1]\<rparr> =
      Some ((None, stats, lats), s2)" by blast
  have h: "on_env (sx_client_init ?p sk) s = (Inr 1, s)" "on_env (sx_create_publisher ?p c ch m k rel) s = (Inr 2, s)"
    "on_env (sx_create_subscriber ?p c ch rel ld) s = (Inr 3, s)" for sk c ch m k rel ld s
    by (simp_all add: demo_subspace_shm_def on_env_def)
  show ?thesis
    using it by (simp add: RunMtOneWay_subspace_def mt_benchmark_def or_skip_def h note_event_def Let_def)
qed

lemma set_up_started: "sf_started (fst (SetUp_subspace p fx s))"
  by (auto simp: SetUp_subspace_def Let_def split: prod.splits)

section \<open>Properties\<close>

text \<open>
  A Subspace ping-pong that reports \<open>n\<close> iterations without an error has published the numbers
  from 1 to \<open>n\<close>, each received back before the next is published, and reports the statistics of
  exactly \<open>n\<close> latencies.
\<close>

theorem subspace_pingpong_measures_every_round:
  assumes "RunPingPong_subspace p fb fx reliable sz state_addr n s = Some (Inr (None, r), s')"
  shows "\<exists>rounds lats. map fst rounds = map (\<lambda>k. 1 + of_nat k) [0..<n] \<and> length lats = n \<and>
    lk_log s' = lk_log s @ concat (map ping_events rounds) \<and> r = ReportLatencyCounters Map.empty lats"
  using assms
proof (rule RunPingPong_subspace_cases)
  fix pub sub s1 r1
  assume l: "lk_log s1 = lk_log s" and e: "Inr (None, r) = map_sum id reported_counters r1"
    and o: "one_way_rounds (shm_put p fb pub sz) (shm_await p fb sub) (NowNs (sb_clock p)) n 0 [] s1 = Some (r1, s')"
  obtain lats where r1: "r1 = Inr (None, lats)" "r = ReportLatencyCounters Map.empty lats"
    using e by (cases r1) (auto simp: reported_counters_def split: prod.splits)
  from sx.rounds_log [OF o [unfolded r1(1)]] show ?thesis using l r1(2) by auto
qed simp

lemma subspace_pingpong_measures_every_round_witness:
  "\<exists>r s' (rounds :: ping_round list). RunPingPong_subspace (demo_subspace_shm False) demo_fb new_subspace_fixture True 64 4096 2 \<lparr>lk_env = (0, []), lk_log = []\<rparr> =
     Some (Inr (None, r), s') \<and> map fst rounds = [1, 2]"
proof -
  obtain r s' where r: "RunPingPong_subspace (demo_subspace_shm False) demo_fb new_subspace_fixture True 64 4096 2 \<lparr>lk_env = (0, []), lk_log = []\<rparr> =
     Some (Inr (None, r), s')"
    using demo_subspace_pingpong by blast
  from subspace_pingpong_measures_every_round [OF r] obtain rounds :: "ping_round list" where
    "map fst rounds = map (\<lambda>k. 1 + of_nat k) [0..<2]" by blast
  then have "map fst rounds = [1, 2]" by (simp add: numeral_2_eq_2)
  then show ?thesis using r by (intro exI [of _ r] exI [of _ s'] exI [of _ rounds]) simp
qed

text \<open>
  On a channel that delivers what is published, a Subspace ping-pong neither faults nor
  ends early: it measures all \<open>n\<close> iterations, each from the stamp of its own sample.
\<close>

theorem subspace_pingpong_succeeds:
  assumes "flatbuffer_laws fb" and "shm_handles p sub pub" and "shm_loopback p sub pub q" and "q (lk_env s) = []"
  shows "\<exists>s' nss nows. RunPingPong_subspace p fb fx reliable sz state_addr n s =
      Some (Inr (None, ReportLatencyCounters Map.empty (map2 OneWayLatencySec nss nows)), s') \<and>
    length nss = n \<and> length nows = n \<and>
    lk_log s' = lk_log s @ concat (map2 (\<lambda>k ns. [Sent (1 + of_nat k) ns, Got (1 + of_nat k)]) [0..<n] nss)"
proof -
  have idle: "flatbuffer_laws fb \<and> shm_loopback p sub pub q \<and> q (lk_env s) = []" using assms by simp
  obtain s' nss nows where r: "one_way_rounds (shm_put p fb pub sz) (shm_await p fb sub) (NowNs (sb_clock p)) n 0 [] s =
      Some (Inr (None, map2 OneWayLatencySec nss nows), s')" "length nss = n" "length nows = n"
    "lk_log s' = lk_log s @ concat (map2 (\<lambda>k ns. [Sent (1 + of_nat k) ns, Got (1 + of_nat k)]) [0..<n] nss)"
    using sx_channel.rounds_delivered [OF idle, of sz n 0 "[]"] by auto
  have "RunPingPong_subspace p fb fx reliable sz state_addr n s =
      Some (Inr (None, ReportLatencyCounters Map.empty (map2 OneWayLatencySec nss nows)), s')"
    unfolding RunPingPong_subspace_set_up [OF assms(2)] r(1) by (simp add: reported_counters_def)
  then show ?thesis using r(2-4) by blast
qed

lemma subspace_pingpong_succeeds_witness:
  "\<exists>s' nss nows. RunPingPong_subspace (demo_subspace_shm False) demo_fb new_subspace_fixture True 64 4096 3 \<lparr>lk_env = (0, []), lk_log = []\<rparr> =
      Some (Inr (None, ReportLatencyCounters Map.empty (map2 OneWayLatencySec nss nows)), s') \<and> length nss = 3 \<and> length nows = 3"
  using subspace_pingpong_succeeds [OF demo_fb_laws demo_shm_handles demo_shm_loopback,
      of "\<lparr>lk_env = (0, []), lk_log = []\<rparr>" new_subspace_fixture True 64 4096 3] by auto



text \<open>
  C37. In the multithreaded Subspace benchmark, \<open>n\<close> iterations that end without an error measure
  exactly \<open>n\<close> latencies, take from \<open>n\<close> to \<open>33 n\<close> samples and record each sample taken, and
  nothing else, in the take statistics; the publisher thread has then been joined.
\<close>

theorem subspace_iterations_record_every_take:
  assumes "RunMtOneWay_subspace p fb fx reliable sz state_addr n s = Some (Inr (None, r), s')"
  shows "\<exists>gs lats stats. lk_log s' = lk_log s @ [Call ''thread'' 1] @ map Got gs @ [Call ''join'' 1] \<and>
    n \<le> length gs \<and> length gs \<le> 33 * n \<and> length lats = n \<and> mt_n stats = of_nat (length gs) \<and>
    r = rbind (ReportLatencyCounters Map.empty lats) (\<lambda>cs. Inr (Report cs stats))"
proof -
  obtain sub s1 where l: "lk_log s1 = lk_log s" and b: "mt_benchmark (shm_iteration p fb sub reliable) n s1 = Some (Inr (None, r), s')"
    using assms unfolding RunMtOneWay_subspace_def Let_def by (fastforce elim!: or_skip_cases)
  show ?thesis using sx_mt.benchmark_takes [OF b] l by auto
qed

lemma subspace_iterations_record_every_take_witness:
  "\<exists>r s' gs. RunMtOneWay_subspace (demo_subspace_shm False) demo_fb new_subspace_fixture False 16 4096 1 \<lparr>lk_env = (0, []), lk_log = []\<rparr> =
     Some (Inr (None, r), s') \<and> lk_log s' = [Call ''thread'' 1] @ map Got gs @ [Call ''join'' 1] \<and> 1 \<le> length gs"
proof -
  obtain r s' where r: "RunMtOneWay_subspace (demo_subspace_shm False) demo_fb new_subspace_fixture False 16 4096 1 \<lparr>lk_env = (0, []), lk_log = []\<rparr> =
     Some (Inr (None, r), s')" using demo_iterations by blast
  from subspace_iterations_record_every_take [OF r] show ?thesis using r by auto
qed

text \<open>
  However the Subspace fixture is set up and shut down, at most one server thread is running:
  one while the fixture is started, none otherwise.
\<close>

theorem subspace_fixture_one_server:
  assumes "fixture_run p ops (new_subspace_fixture, s) = (fx, s')" and "lk_log s = []"
  shows "count_list (lk_log s') (Call ''thread'' 0) = count_list (lk_log s') (Call ''join'' 0) + (if sf_started fx then 1 else 0) \<and>
    sf_server fx = sf_started fx"
proof -
  have "fixture_inv new_subspace_fixture s" using assms(2) by (simp add: fixture_inv_def new_subspace_fixture_def)
  from fixture_run_inv [OF this, of p ops] have "fixture_inv fx s'" by (simp add: assms(1))
  then show ?thesis by (auto simp: fixture_inv_def threads_def)
qed

lemma subspace_fixture_one_server_witness:
  "\<exists>fx s'. fixture_run (demo_subspace_shm False) [Op_set_up, Op_set_up, Op_shutdown, Op_set_up]
     (new_subspace_fixture, \<lparr>lk_env = (0, []), lk_log = []\<rparr>) = (fx, s') \<and> sf_started fx \<and>
     count_list (lk_log s') (Call ''thread'' 0) = count_list (lk_log s') (Call ''join'' 0) + 1"
proof -
  obtain fx s' where r: "fixture_run (demo_subspace_shm False) [Op_set_up, Op_set_up, Op_shutdown, Op_set_up]
     (new_subspace_fixture, \<lparr>lk_env = (0, []), lk_log = []\<rparr>) = (fx, s')" by fastforce
  obtain fx1 s1 where "fixture_run (demo_subspace_shm False) [Op_set_up, Op_set_up, Op_shutdown]
     (new_subspace_fixture, \<lparr>lk_env = (0, []), lk_log = []\<rparr>) = (fx1, s1)" by fastforce
  moreover have "fixture_run p (ops @ [Op_set_up]) (fx0, s0) =
      (case fixture_run p ops (fx0, s0) of (fx1, s1) \<Rightarrow> SetUp_subspace p fx1 s1)" for p ops fx0 s0
  proof (induction ops arbitrary: fx0 s0)
    case (Cons o' ops)
    then show ?case by (cases o'; cases "SetUp_subspace p fx0 s0"; cases "Shutdown_subspace p fx0 s0") simp_all
  qed simp
  ultimately have "SetUp_subspace (demo_subspace_shm False) fx1 s1 = (fx, s')"
    using r by (metis append_Cons append_Nil prod.case)
  then have "sf_started fx" using set_up_started by (metis fst_conv)
  then show ?thesis using subspace_fixture_one_server [OF r] r by simp
qed

text \<open>
  For every registered size, the slot size of the channel and the length of a sample survive
  the casts to 32-bit \<open>int\<close>, and the sample, stamped or not, fits the slot.
\<close>

theorem registered_sizes_fit_slots:
  assumes "flatbuffer_laws fb" and "sz \<in> set PingPongArgs \<union> set OneWayLatencyArgs"
  shows "\<exists>b. StampSample fb now (BuildSample fb sq sz) = Inr b \<and> length b = length (BuildSample fb sq sz) \<and>
    int32_of_size (length b) = int (length b) \<and> int32_of_size (SampleSlotBytes sz) = int (SampleSlotBytes sz) \<and>
    int32_of_size (length b) \<le> int32_of_size (SampleSlotBytes sz)"
proof -
  have id: "int32_of_size n = int n" if "n < 2 ^ 31" for n
  proof -
    have "sint (word_of_nat n :: 32 word) = int n"
      using that by (simp add: sint_uint signed_take_bit_int_eq_self unat_of_nat uint_nat)
    then show ?thesis by (simp add: int32_of_size_def)
  qed
  have "SampleSlotBytes sz < 2 ^ 31"
    using assms(2) by (auto simp: PingPongArgs_def OneWayLatencyArgs_def SampleSlotBytes_def kFbsOverhead_def)
  moreover obtain b where "StampSample fb now (BuildSample fb sq sz) = Inr b" "length b = length (BuildSample fb sq sz)"
    "length b \<le> SampleSlotBytes sz"
    using stamped_sample [OF assms(1)] by blast
  ultimately show ?thesis using id by (intro exI [of _ b]) simp
qed

lemma registered_sizes_fit_slots_witness:
  "\<exists>b. StampSample demo_fb 5 (BuildSample demo_fb 1 (4 * 1024 * 1024)) = Inr b \<and> int32_of_size (SampleSlotBytes (4 * 1024 * 1024)) = 4194432 \<and>
     int32_of_size (length b) \<le> 4194432"
  using registered_sizes_fit_slots [OF demo_fb_laws, of "4 * 1024 * 1024" 5 1]
  by (auto simp: PingPongArgs_def SampleSlotBytes_def kFbsOverhead_def)

end
