(* ===== verification/Zenoh_Net.thy ===== *)
theory Zenoh_Net
  imports Echo_Link Bench_Sample
begin

text \<open>
  The Zenoh network tool (\<open>benchmarks/net/zenoh_net.cc\<close>) and the peer configuration of
  \<open>benchmarks/zenoh_common.h\<close>. Zenoh and FlatBuffers are parameters: records of functions on the
  world and on buffers, one for each call the program makes. Zenoh's C++ calls throw; the tool
  catches nothing, so an exception ends it.
\<close>

section \<open>The calls into the middleware\<close>

text \<open>Configuration keys: three named by macros of the Zenoh headers, the others literal.\<close>

datatype zenoh_key = Z_CONFIG_MODE_KEY | Z_CONFIG_SHARED_MEMORY_KEY | Z_CONFIG_LISTEN_KEY | Z_CONFIG_CONNECT_KEY | Literal_key string

type_synonym zenoh_config = "(zenoh_key \<times> string) list"

text \<open>Options of publishers and subscribers, as far as the tool sets them.\<close>

record PublisherOptions =
  po_congestion_block :: bool
  po_is_express :: bool
  po_remote_destination :: bool

record SubscriberOptions =
  so_remote_origin :: bool

text \<open>
  \<open>z_config\<close>: the exception that inserting these pairs into the default configuration raises, if
  any; \<open>z_key\<close>: the same for a key expression. A received sample is the copy of its payload.
\<close>

record 'w zenoh =
  z_clock :: "'w \<Rightarrow> int \<times> 'w"
  z_thread_sleep :: "int \<Rightarrow> 'w \<Rightarrow> 'w"
  z_yield :: "'w \<Rightarrow> 'w"
  z_config :: "zenoh_config \<Rightarrow> string option"
  z_key :: "string \<Rightarrow> string option"
  z_open :: "zenoh_config \<Rightarrow> 'w \<Rightarrow> (string + int) \<times> 'w"
  z_declare_subscriber :: "int \<Rightarrow> string \<Rightarrow> nat \<Rightarrow> SubscriberOptions \<Rightarrow> 'w \<Rightarrow> (string + int) \<times> 'w"
  z_declare_publisher :: "int \<Rightarrow> string \<Rightarrow> PublisherOptions \<Rightarrow> 'w \<Rightarrow> (string + int) \<times> 'w"
  z_put :: "int \<Rightarrow> bytes \<Rightarrow> 'w \<Rightarrow> string option \<times> 'w"
  z_try_recv :: "int \<Rightarrow> 'w \<Rightarrow> bytes option \<times> 'w"

section \<open>Configuration\<close>

definition MakePeerConfig :: "string \<Rightarrow> string \<Rightarrow> bool \<Rightarrow> zenoh_config" where
  \<open>MakePeerConfig listen_or_empty connect_or_empty shm =
     [(Z_CONFIG_MODE_KEY, ''"peer"''), (Z_CONFIG_SHARED_MEMORY_KEY, if shm then ''true'' else ''false'')] @
     (if listen_or_empty \<noteq> '''' \<or> connect_or_empty \<noteq> '''' then [(Literal_key ''scouting/multicast/enabled'', ''false'')] else []) @
     (if listen_or_empty \<noteq> '''' then [(Z_CONFIG_LISTEN_KEY, ''["'' @ listen_or_empty @ ''"]'')] else []) @
     (if connect_or_empty \<noteq> '''' then [(Z_CONFIG_CONNECT_KEY, ''["'' @ connect_or_empty @ ''"]'')] else [])\<close>

definition MakeShmPeerConfig :: "string \<Rightarrow> string \<Rightarrow> zenoh_config" where
  "MakeShmPeerConfig listen_or_empty connect_or_empty = MakePeerConfig listen_or_empty connect_or_empty True"

definition MakeTcpPeerConfig :: "string \<Rightarrow> string \<Rightarrow> zenoh_config" where
  "MakeTcpPeerConfig listen_or_empty connect_or_empty = MakePeerConfig listen_or_empty connect_or_empty False"

definition TcpLoopback :: "int \<Rightarrow> string" where
  "TcpLoopback port = ''tcp/127.0.0.1:'' @ show_int port"

section \<open>Session, publisher and subscriber\<close>

text \<open>A call that may throw, and what follows it when it does not.\<close>

definition on_env_or_throw ::
  "('w \<Rightarrow> (string + 'a) \<times> 'w) \<Rightarrow> 'w link \<Rightarrow> ('a \<Rightarrow> 'w link \<Rightarrow> 'b res \<times> 'w link) \<Rightarrow> 'b res \<times> 'w link" where
  "on_env_or_throw f s k = (case on_env f s of (Inl m, s) \<Rightarrow> (Inl (Thrown m), s) | (Inr a, s) \<Rightarrow> k a s)"

definition MakePub :: "'w zenoh \<Rightarrow> int \<Rightarrow> string \<Rightarrow> 'w \<Rightarrow> (string + int) \<times> 'w" where
  "MakePub z session key =
     z_declare_publisher z session key \<lparr>po_congestion_block = True, po_is_express = True, po_remote_destination = True\<rparr>"

definition MakeSub :: "'w zenoh \<Rightarrow> int \<Rightarrow> string \<Rightarrow> 'w \<Rightarrow> (string + int) \<times> 'w" where
  "MakeSub z session key = z_declare_subscriber z session key 64 \<lparr>so_remote_origin = True\<rparr>"

text \<open>
  What both roles do first: the session is opened, the two key expressions are made, and then
  the subscriber and the publisher are declared.
\<close>

definition open_channel ::
  "'w zenoh \<Rightarrow> zenoh_config \<Rightarrow> Options_net \<Rightarrow> string \<Rightarrow> string \<Rightarrow> 'w link \<Rightarrow> (int \<times> int) res \<times> 'w link" where
  "open_channel z config opt sub_key pub_key s =
     (case z_config z config of Some m \<Rightarrow> (Inl (Thrown m), s) | None \<Rightarrow>
      on_env_or_throw (z_open z config) s (\<lambda>session s.
      case z_key z (ReqKey opt) of Some m \<Rightarrow> (Inl (Thrown m), s) | None \<Rightarrow>
      case z_key z (RepKey opt) of Some m \<Rightarrow> (Inl (Thrown m), s) | None \<Rightarrow>
      on_env_or_throw (MakeSub z session sub_key) s (\<lambda>sub s.
      on_env_or_throw (MakePub z session pub_key) s (\<lambda>pub s. (Inr (sub, pub), s)))))"

section \<open>Sending and receiving\<close>

text \<open>
  \<open>PutBytes\<close> builds a sample, stamps a copy of it and puts the copy. Both the stamp and the put
  may throw.
\<close>

definition PutBytes :: "'w zenoh \<Rightarrow> flatbuffers \<Rightarrow> int \<Rightarrow> u64 \<Rightarrow> nat \<Rightarrow> 'w link \<Rightarrow> send_outcome \<times> 'w link" where
  "PutBytes z fb pub sq sz s =
     (let buf = BuildSample fb sq sz in
      case NowNs (z_clock z) s of (now, s) \<Rightarrow>
      case StampSample fb now buf of
        Inl m \<Rightarrow> (Send_threw m, s)
      | Inr buf \<Rightarrow>
          (case on_env (z_put z pub buf) s of
             (Some m, s) \<Rightarrow> (Send_threw m, s)
           | (None, s) \<Rightarrow> (Sent_ok, note_event (Sent sq now) s)))"

text \<open>One poll of the receive loop: without a sample the thread yields.\<close>

definition zenoh_poll :: "'w zenoh \<Rightarrow> flatbuffers \<Rightarrow> int \<Rightarrow> 'w \<Rightarrow> poll_outcome \<times> 'w" where
  "zenoh_poll z fb sub w =
     (case z_try_recv z sub w of
        (None, w) \<Rightarrow> (Poll_nothing, z_yield z w)
      | (Some payload, w) \<Rightarrow>
          (case ReadSampleMeta fb (Some payload) (length payload) of
             None \<Rightarrow> (Poll_nothing, w)
           | Some (got, _) \<Rightarrow> (Poll_number got, w)))"

definition RecvMatching :: "'w zenoh \<Rightarrow> flatbuffers \<Rightarrow> int \<Rightarrow> u64 \<Rightarrow> int \<Rightarrow> 'w link \<Rightarrow> (bool \<times> 'w link) option" where
  "RecvMatching z fb sub = receive_within (z_clock z) (zenoh_poll z fb sub)"

definition TryRecvSeq :: "'w zenoh \<Rightarrow> flatbuffers \<Rightarrow> int \<Rightarrow> 'w link \<Rightarrow> u64 option \<times> 'w link" where
  "TryRecvSeq z fb sub s =
     (case on_env (z_try_recv z sub) s of
        (None, s) \<Rightarrow> (None, s)
      | (Some payload, s) \<Rightarrow>
          (case ReadSampleMeta fb (Some payload) (length payload) of
             None \<Rightarrow> (None, s)
           | Some (seq_out, _) \<Rightarrow> (Some seq_out, note_event (Got seq_out) s)))"

section \<open>The publisher\<close>

definition zn_attempt ::
  "'w zenoh \<Rightarrow> flatbuffers \<Rightarrow> int \<Rightarrow> int \<Rightarrow> nat \<Rightarrow> u64 \<Rightarrow> 'w link \<Rightarrow> ((string + bool) \<times> 'w link) option" where
  "zn_attempt z fb sub pub sz probe s =
     (case PutBytes z fb pub probe sz s of
        (Send_threw m, s) \<Rightarrow> Some (Inl m, s)
      | (_, s) \<Rightarrow> map_option (\<lambda>(found, s). (Inr found, s)) (RecvMatching z fb sub probe 200 s))"

definition zn_recv :: "'w zenoh \<Rightarrow> flatbuffers \<Rightarrow> int \<Rightarrow> u64 \<Rightarrow> 'w link \<Rightarrow> (bool \<times> 'w link) option" where
  "zn_recv z fb sub sq = RecvMatching z fb sub sq 5000"

definition zn_ping_pong ::
  "'w zenoh \<Rightarrow> flatbuffers \<Rightarrow> Options_net \<Rightarrow> int \<Rightarrow> int \<Rightarrow> 'w link \<Rightarrow> ((nat \<times> string) res \<times> 'w link) option" where
  "zn_ping_pong z fb opt sub pub =
     (let sz = unat (net_size opt) in
      ping_pong (zn_attempt z fb sub pub sz) (env_do (z_thread_sleep z 50000000)) 100
        (\<lambda>sq. PutBytes z fb pub sq sz) (zn_recv z fb sub) (round_clock (z_clock z)) opt)"

definition RunPub_zenoh :: "'w zenoh \<Rightarrow> flatbuffers \<Rightarrow> Options_net \<Rightarrow> 'w link \<Rightarrow> ((nat \<times> string) res \<times> 'w link) option" where
  "RunPub_zenoh z fb opt s =
     (case ParseHostPort (net_peer opt) '''' 0 of
        Inl f \<Rightarrow> Some (Inl f, s)
      | Inr (ok, host, port) \<Rightarrow>
          if \<not> ok then Some (Inr (1, ''''), s)
          else let endpoint = ''tcp/'' @ host @ '':'' @ show_int port in
            (case open_channel z (MakeTcpPeerConfig '''' endpoint) opt (RepKey opt) (ReqKey opt) s of
               (Inl f, s) \<Rightarrow> Some (Inl f, s)
             | (Inr (sub, pub), s) \<Rightarrow> zn_ping_pong z fb opt sub pub s))"

section \<open>The subscriber\<close>

text \<open>One iteration of the endless echo loop: only an exception ends it.\<close>

definition zn_echo_once :: "'w zenoh \<Rightarrow> flatbuffers \<Rightarrow> nat \<Rightarrow> int \<Rightarrow> int \<Rightarrow> 'w link \<Rightarrow> string option \<times> 'w link" where
  "zn_echo_once z fb sz sub pub s =
     (case TryRecvSeq z fb sub s of
        (None, s) \<Rightarrow> (None, env_do (z_yield z) s)
      | (Some sq, s) \<Rightarrow>
          (case PutBytes z fb pub sq sz s of
             (Send_threw m, s) \<Rightarrow> (Some m, s)
           | (_, s) \<Rightarrow> (None, s)))"

definition RunSub_zenoh :: "'w zenoh \<Rightarrow> flatbuffers \<Rightarrow> Options_net \<Rightarrow> nat \<Rightarrow> 'w link \<Rightarrow> unit res \<times> 'w link" where
  "RunSub_zenoh z fb opt n s =
     (let listen = ''tcp/0.0.0.0:'' @ show_int (net_disc_port opt) in
      case open_channel z (MakeTcpPeerConfig listen '''') opt (ReqKey opt) (RepKey opt) s of
        (Inl f, s) \<Rightarrow> (Inl f, s)
      | (Inr (sub, pub), s) \<Rightarrow>
          (case iterate_echo (zn_echo_once z fb (unat (net_size opt)) sub pub) n s of
             (Some m, s) \<Rightarrow> (Inl (Thrown m), s)
           | (None, s) \<Rightarrow> (Inr (), s)))"

section \<open>The program\<close>

text \<open>
  Exit code and standard output; a fault is undefined behaviour or an uncaught exception. The
  subscriber is run for \<open>n\<close> iterations and has no exit code.
\<close>

definition zenoh_net_main ::
  "'w zenoh \<Rightarrow> flatbuffers \<Rightarrow> string list \<Rightarrow> nat \<Rightarrow> 'w link \<Rightarrow> ((nat option \<times> string) res \<times> 'w link) option" where
  "zenoh_net_main z fb args n s =
     (case ParseOptions_net args (default_options_net\<lparr>net_stack := ''zenoh'', net_disc_port := 7447\<rparr>) of
        Inl _ \<Rightarrow> Some (Inr (Some 2, ''''), s)
      | Inr opt \<Rightarrow>
          if net_role opt = ''pub''
          then map_option (\<lambda>(r, s). (rbind r (\<lambda>(code, out). Inr (Some code, out)), s)) (RunPub_zenoh z fb opt s)
          else (case RunSub_zenoh z fb opt n s of
                  (r, s) \<Rightarrow> Some (rbind r (\<lambda>_. Inr (None, '''')), s)))"

section \<open>What sending and receiving log\<close>

lemma PutBytes_log: "PutBytes z fb pub sq sz s = (Sent_ok, s') \<Longrightarrow> \<exists>ns. lk_log s' = lk_log s @ [Sent sq ns]"
  by (auto simp: PutBytes_def note_event_def Let_def split: prod.splits sum.splits option.splits)

lemma PutBytes_not_sent: "PutBytes z fb pub sq sz s = (r, s') \<Longrightarrow> r \<noteq> Sent_ok \<Longrightarrow> (\<exists>m. r = Send_threw m) \<and> lk_log s' = lk_log s"
  by (auto simp: PutBytes_def Let_def split: prod.splits sum.splits option.splits)

lemma RecvMatching_log: "RecvMatching z fb sub want ms s = Some y \<Longrightarrow> received_until want s y"
  unfolding RecvMatching_def by (rule receive_within_log)

interpretation zn: tool_link "\<lambda>sq. PutBytes z fb pub sq sz" "zn_recv z fb sub" "round_clock (z_clock z)" lk_log
  "zn_attempt z fb sub pub sz" "env_do (z_thread_sleep z ns)"
  for z fb pub sz sub ns
proof
  show "\<exists>stale. lk_log s' = lk_log s @ map Got stale @ [Got sq]" if "zn_recv z fb sub sq s = Some (True, s')" for sq and s s' :: "'a link"
    using that received_until_found RecvMatching_log unfolding zn_recv_def by blast
next
  fix p linked and s s' :: "'a link"
  assume a: "zn_attempt z fb sub pub sz p s = Some (Inr linked, s')"
  obtain r s1 where put: "PutBytes z fb pub p sz s = (r, s1)" by fastforce
  then have r: "r = Sent_ok" using a PutBytes_not_sent [OF put] by (cases r) (auto simp: zn_attempt_def)
  then have "RecvMatching z fb sub p 200 s1 = Some (linked, s')" using a put by (auto simp: zn_attempt_def)
  then obtain es where "lk_log s' = lk_log s1 @ es" "linked \<longrightarrow> es \<noteq> [] \<and> last es = Got p"
    using received_until_log [OF RecvMatching_log] by blast
  then show "\<exists>es. lk_log s' = lk_log s @ es \<and> (linked \<longrightarrow> es \<noteq> [] \<and> last es = Got p)"
    using PutBytes_log put r by fastforce
qed (simp_all add: PutBytes_log round_clock_log)

interpretation zn_sub: echo_server "zn_echo_once z fb sz sub pub" lk_log for z fb sz sub pub
proof
  fix s s' :: "'a link" and m
  obtain g s1 where rc: "TryRecvSeq z fb sub s = (g, s1)" by fastforce
  then have l: "lk_log s1 = lk_log s @ (case g of None \<Rightarrow> [] | Some sq \<Rightarrow> [Got sq])"
    by (auto simp: TryRecvSeq_def note_event_def split: prod.splits option.splits)
  show "\<exists>ps. length ps \<le> 1 \<and> lk_log s' = lk_log s @ echoed_events ps" if "zn_echo_once z fb sz sub pub s = (None, s')"
  proof (cases g)
    case None
    then have "lk_log s' = lk_log s" using that rc l by (auto simp: zn_echo_once_def)
    then show ?thesis by (intro exI [of _ "[]"]) (simp add: echoed_events_def)
  next
    case (Some sq)
    obtain r s2 where put: "PutBytes z fb pub sq sz s1 = (r, s2)" by fastforce
    then have "r = Sent_ok" "s' = s2"
      using that rc Some PutBytes_not_sent [OF put] by (auto simp: zn_echo_once_def split: send_outcome.splits)
    then obtain ns where "lk_log s' = lk_log s @ [Got sq, Sent sq ns]" using l Some put PutBytes_log by fastforce
    then show ?thesis by (intro exI [of _ "[(sq, ns)]"]) (simp add: echoed_events_def)
  qed
  show "\<exists>gs. lk_log s' = lk_log s @ map Got gs" if "zn_echo_once z fb sz sub pub s = (Some m, s')"
  proof -
    have "g \<noteq> None" using that rc by (cases g) (auto simp: zn_echo_once_def)
    then obtain sq where g: "g = Some sq" by blast
    obtain r s2 where put: "PutBytes z fb pub sq sz s1 = (r, s2)" by fastforce
    then have "r \<noteq> Sent_ok" "s' = s2" using that rc g by (auto simp: zn_echo_once_def split: send_outcome.splits)
    then show ?thesis using PutBytes_not_sent [OF put] l g by (intro exI [of _ "[sq]"]) simp
  qed
qed

section \<open>Termination\<close>

text \<open>Receiving and yielding do not turn the clock back; reading it advances it.\<close>

definition zenoh_clock_advances :: "'w zenoh \<Rightarrow> bool" where
  "zenoh_clock_advances z \<longleftrightarrow> (\<exists>tm. (\<forall>w. fst (z_clock z w) = tm w \<and> tm w < tm (snd (z_clock z w))) \<and>
     (\<forall>sub w. tm w \<le> tm (snd (z_try_recv z sub w))) \<and> (\<forall>w. tm w \<le> tm (z_yield z w)))"

lemma RecvMatching_returns:
  assumes "zenoh_clock_advances z" shows "\<exists>y. RecvMatching z fb sub want ms s = Some y"
proof -
  obtain tm where tm: "\<And>w. fst (z_clock z w) = tm w" "\<And>w. tm w < tm (snd (z_clock z w))"
    "\<And>sub w. tm w \<le> tm (snd (z_try_recv z sub w))" "\<And>w. tm w \<le> tm (z_yield z w)"
    using assms unfolding zenoh_clock_advances_def by metis
  have "fst (zenoh_poll z fb sub w) \<noteq> Poll_blocked \<and> tm w \<le> tm (snd (zenoh_poll z fb sub w))" for w
    using tm(3) [of w sub] tm(4) [of "snd (z_try_recv z sub w)"]
    by (auto simp: zenoh_poll_def split: prod.splits option.splits)
  then have "clock_advances (z_clock z) (zenoh_poll z fb sub)" using tm unfolding clock_advances_def by blast
  then show ?thesis unfolding RecvMatching_def by (rule receive_within_returns)
qed

interpretation zn_live: live_tool "\<lambda>sq. PutBytes z fb pub sq sz" "zn_recv z fb sub" "round_clock (z_clock z)"
  "\<lambda>_. zenoh_clock_advances z" "zn_attempt z fb sub pub sz" "env_do (z_thread_sleep z ns)"
  for z fb pub sz sub ns
proof
  show "\<exists>r s'. zn_recv z fb sub sq s = Some (r, s') \<and> zenoh_clock_advances z" if "zenoh_clock_advances z" for sq s
    using RecvMatching_returns [OF that] that by (fastforce simp: zn_recv_def)
  show "\<exists>r s'. zn_attempt z fb sub pub sz p s = Some (r, s') \<and> zenoh_clock_advances z" if "zenoh_clock_advances z" for p s
    using RecvMatching_returns [OF that, of fb sub p 200] that
    by (fastforce simp: zn_attempt_def split: prod.splits send_outcome.splits)
qed auto

section \<open>A network that echoes\<close>

text \<open>
  The peer echoes at once: after a put of a sample, a sample with its number is the next one
  received, and clock readings are close together. \<open>tm\<close> and \<open>q\<close> observe the time and the
  numbers waiting to be received.
\<close>

definition zenoh_loopback ::
  "'w zenoh \<Rightarrow> flatbuffers \<Rightarrow> int \<Rightarrow> int \<Rightarrow> ('w \<Rightarrow> int) \<Rightarrow> ('w \<Rightarrow> u64 list) \<Rightarrow> bool" where
  "zenoh_loopback z fb sub pub tm q \<longleftrightarrow>
     close_clock (z_clock z) tm q \<and>
     (\<forall>w b sq ns. q w = [] \<and> ReadSampleMeta fb (Some b) (length b) = Some (sq, ns) \<longrightarrow>
        (\<exists>w'. z_put z pub b w = (None, w') \<and> q w' = [sq])) \<and>
     (\<forall>w sq. q w = [sq] \<longrightarrow> (\<exists>w' b ns. z_try_recv z sub w = (Some b, w') \<and> q w' = [] \<and>
        ReadSampleMeta fb (Some b) (length b) = Some (sq, ns))) \<and>
     (\<forall>ns w. q (z_thread_sleep z ns w) = q w)"

lemma zn_loopback_put:
  assumes lo: "zenoh_loopback z fb sub pub tm q" and fb: "flatbuffer_laws fb" and "q (lk_env s) = []"
  shows "\<exists>s'. PutBytes z fb pub sq sz s = (Sent_ok, s') \<and> q (lk_env s') = [sq]"
proof -
  have cl: "close_clock (z_clock z) tm q" using lo by (simp add: zenoh_loopback_def)
  obtain s1 where s1: "on_env (z_clock z) s = (tm (lk_env s), s1)" "q (lk_env s1) = []"
    using close_clock_env [OF cl, of s] assms(3) by metis
  define now where "now = (word_of_int (tm (lk_env s)) :: u64)"
  obtain b where b: "StampSample fb now (BuildSample fb sq sz) = Inr b" "ReadSampleMeta fb (Some b) (length b) = Some (sq, now)"
    using stamped_sample [OF fb] by blast
  obtain w where "z_put z pub b (lk_env s1) = (None, w)" "q w = [sq]"
    using lo s1(2) b(2) unfolding zenoh_loopback_def by blast
  then have "PutBytes z fb pub sq sz s = (Sent_ok, note_event (Sent sq now) (s1\<lparr>lk_env := w\<rparr>))" "q w = [sq]"
    using s1(1) b(1) by (simp_all add: PutBytes_def NowNs_def Let_def on_env_def now_def split: prod.splits)
  then show ?thesis by (simp add: note_event_def)
qed

lemma zn_loopback_recv:
  assumes lo: "zenoh_loopback z fb sub pub tm q" and "q (lk_env s) = [sq]" and "200 \<le> ms"
  shows "\<exists>s'. RecvMatching z fb sub sq ms s = Some (True, s') \<and> q (lk_env s') = []"
proof -
  have "\<exists>w'. zenoh_poll z fb sub w = (Poll_number sq, w') \<and> q w' = []" if "q w = [sq]" for w
    using lo that unfolding zenoh_loopback_def zenoh_poll_def by fastforce
  then show ?thesis
    using receive_within_hit [of "z_clock z" tm q "[sq]" _ sq "[]"] lo assms(2,3)
    unfolding RecvMatching_def zenoh_loopback_def by blast
qed

interpretation zn_echoing: echoing_tool "\<lambda>sq. PutBytes z fb pub sq sz" "zn_recv z fb sub" "round_clock (z_clock z)"
  "\<lambda>s. flatbuffer_laws fb \<and> zenoh_loopback z fb sub pub tm q \<and> q (lk_env s) = []"
  "zn_attempt z fb sub pub sz" "env_do (z_thread_sleep z ns)"
  for z fb pub sz sub tm q ns
proof
  fix s :: "'a link" and sq :: u64
  assume i: "flatbuffer_laws fb \<and> zenoh_loopback z fb sub pub tm q \<and> q (lk_env s) = []"
  then show "flatbuffer_laws fb \<and> zenoh_loopback z fb sub pub tm q \<and> q (lk_env (snd (round_clock (z_clock z) s))) = []"
    using close_round_clock [of "z_clock z" tm q s] by (simp add: zenoh_loopback_def)
  obtain s1 where put: "PutBytes z fb pub sq sz s = (Sent_ok, s1)" "q (lk_env s1) = [sq]"
    using zn_loopback_put i by blast
  have recv: "\<exists>s2. RecvMatching z fb sub sq ms s1 = Some (True, s2) \<and> q (lk_env s2) = []" if "200 \<le> ms" for ms
    using zn_loopback_recv i put(2) that by blast
  show "\<exists>s' s''. PutBytes z fb pub sq sz s = (Sent_ok, s') \<and> zn_recv z fb sub sq s' = Some (True, s'') \<and>
      flatbuffer_laws fb \<and> zenoh_loopback z fb sub pub tm q \<and> q (lk_env s'') = []"
    using recv [of 5000] put(1) i by (auto simp: zn_recv_def)
  show "\<exists>s'. zn_attempt z fb sub pub sz sq s = Some (Inr True, s') \<and>
      flatbuffer_laws fb \<and> zenoh_loopback z fb sub pub tm q \<and> q (lk_env s') = []"
    using recv [of 200] put(1) i by (auto simp: zn_attempt_def)
  show "flatbuffer_laws fb \<and> zenoh_loopback z fb sub pub tm q \<and> q (lk_env (env_do (z_thread_sleep z ns) s)) = []"
    using i by (auto simp: env_do_def zenoh_loopback_def)
qed

text \<open>A concrete network: the clock ticks at every reading, and the peer rebuilds a sample for every number.\<close>

definition demo_zenoh :: "(int \<times> u64 list) zenoh" where
  "demo_zenoh = \<lparr>
     z_clock = (\<lambda>(t, q). (t, (t + 1, q))), z_thread_sleep = (\<lambda>ns w. w), z_yield = (\<lambda>w. w),
     z_config = (\<lambda>c. None), z_key = (\<lambda>k. None), z_open = (\<lambda>c w. (Inr 1, w)),
     z_declare_subscriber = (\<lambda>session key fifo opts w. (Inr 2, w)),
     z_declare_publisher = (\<lambda>session key opts w. (Inr 3, w)),
     z_put = (\<lambda>pub b (t, q). (None, (t, q @ [fb_seq demo_fb b]))),
     z_try_recv = (\<lambda>sub (t, q). case q of [] \<Rightarrow> (None, (t, [])) | x # xs \<Rightarrow> (Some (BuildSample demo_fb x 0), (t, xs)))\<rparr>"

definition demo_zenoh_options :: Options_net where
  "demo_zenoh_options = default_options_net\<lparr>net_role := ''pub'', net_peer := ''peer:7447'', net_count := 3, net_warmup := 2, net_stack := ''zenoh'', net_disc_port := 7447\<rparr>"

lemma demo_zenoh_laws: "zenoh_loopback demo_zenoh demo_fb sub pub fst snd" "zenoh_clock_advances demo_zenoh"
proof -
  have "fb_seq demo_fb b = sq" if "ReadSampleMeta demo_fb (Some b) (length b) = Some (sq, ns)" for b sq ns
    using that by (auto simp: ReadSampleMeta_def split: if_splits)
  then show "zenoh_loopback demo_zenoh demo_fb sub pub fst snd"
    using demo_fb_sample by (auto simp: zenoh_loopback_def close_clock_def demo_zenoh_def)
  show "zenoh_clock_advances demo_zenoh"
    by (auto simp: zenoh_clock_advances_def demo_zenoh_def split: list.splits intro!: exI [of _ fst])
qed

lemma demo_zenoh_channel: "open_channel demo_zenoh config opt k1 k2 s = (Inr (2, 3), s)"
  by (simp add: open_channel_def on_env_or_throw_def MakeSub_def MakePub_def demo_zenoh_def on_env_def)

section \<open>The tool\<close>

lemma on_env_or_throw_log:
  assumes "on_env_or_throw f s k = (Inr x, s')" and "\<And>a s1. lk_log s1 = lk_log s \<Longrightarrow> k a s1 = (Inr x, s') \<Longrightarrow> lk_log s' = lk_log s1"
  shows "lk_log s' = lk_log s"
  using assms by (auto simp: on_env_or_throw_def dest: on_env_log split: prod.splits sum.splits)

lemma open_channel_log: "open_channel z config opt k1 k2 s = (Inr ends, s') \<Longrightarrow> lk_log s' = lk_log s"
  by (auto simp: open_channel_def split: option.splits dest!: on_env_or_throw_log)

lemma RunPub_zenoh_0:
  assumes "RunPub_zenoh z fb opt s = Some (Inr (0, line), s')"
  shows "\<exists>es. lk_log s' = lk_log s @ es \<and> ping_pong_log opt 100 es line"
proof -
  obtain config sub pub s1 where ch: "open_channel z config opt (RepKey opt) (ReqKey opt) s = (Inr (sub, pub), s1)"
    and pp: "zn_ping_pong z fb opt sub pub s1 = Some (Inr (0, line), s')"
    using assms by (auto simp: RunPub_zenoh_def Let_def split: prod.splits sum.splits if_splits)
  show ?thesis
    using zn.ping_pong_ok [OF pp [unfolded zn_ping_pong_def Let_def]] open_channel_log [OF ch] by simp
qed

section \<open>Properties\<close>

text \<open>
  A Zenoh publisher that exits with 0 has an echoed probe, then completed rounds numbered
  from 1001 in which the number put is the last one received before the second clock reading,
  and prints the statistics of exactly the rounds after the warm-up.
\<close>

theorem RunPub_zenoh_exit_0:
  assumes "RunPub_zenoh z fb opt s = Some (Inr (0, line), s')"
  shows "\<exists>es. lk_log s' = lk_log s @ es \<and> ping_pong_log opt 100 es line"
  by (rule RunPub_zenoh_0 [OF assms])

text \<open>
  C32. On a network that echoes every sample at once, with a FlatBuffers library that keeps its
  promises, the Zenoh publisher never throws, exits with 0, and its CSV line reports exactly
  \<open>--count\<close> measurements.
\<close>

theorem zenoh_net_main_succeeds:
  assumes "ParseOptions_net args (default_options_net\<lparr>net_stack := ''zenoh'', net_disc_port := 7447\<rparr>) = Inr opt"
    and "net_role opt = ''pub''" and "ParseHostPort (net_peer opt) '''' 0 = Inr (True, host, port)"
    and "open_channel z (MakeTcpPeerConfig '''' (''tcp/'' @ host @ '':'' @ show_int port)) opt (RepKey opt) (ReqKey opt) s = (Inr (sub, pub), s1)"
    and "flatbuffer_laws fb" and "zenoh_loopback z fb sub pub tm q" and "q (lk_env s1) = []"
    and "0 \<le> net_warmup opt" and "int_range (net_warmup opt + net_count opt)"
  shows "\<exists>half line s'. zenoh_net_main z fb args n s = Some (Inr (Some 0, line), s') \<and>
    PrintCsv_net opt half = Inr line \<and> length half = nat (net_count opt)"
proof -
  have "0 \<le> net_count opt" using ParseOptions_net_ok [OF assms(1)] by (simp add: net_options_ok_def)
  then have "\<exists>half line s'. zn_ping_pong z fb opt sub pub s1 = Some (Inr (0, line), s') \<and>
      PrintCsv_net opt half = Inr line \<and> length half = nat (net_count opt)"
    unfolding zn_ping_pong_def Let_def by (intro zn_echoing.ping_pong_succeeds) (use assms in auto)
  then show ?thesis using assms(1-4) by (auto simp: zenoh_net_main_def RunPub_zenoh_def Let_def)
qed

lemma zenoh_net_main_succeeds_witness:
  "\<exists>half line s'. zenoh_net_main demo_zenoh demo_fb (net_render_args demo_zenoh_options) 0 \<lparr>lk_env = (0, []), lk_log = []\<rparr> =
     Some (Inr (Some 0, line), s') \<and> PrintCsv_net demo_zenoh_options half = Inr line \<and> length half = 3"
proof -
  have o': "net_role demo_zenoh_options = ''pub''" "net_count demo_zenoh_options = 3" "net_stack demo_zenoh_options = ''zenoh''"
    "0 \<le> net_warmup demo_zenoh_options" "int_range (net_warmup demo_zenoh_options + net_count demo_zenoh_options)"
    by (simp_all add: demo_zenoh_options_def default_options_net_def int_range_def)
  have "net_options_ok demo_zenoh_options" "net_options_in_range demo_zenoh_options"
    by (simp_all add: net_options_ok_def net_options_in_range_def demo_zenoh_options_def default_options_net_def int_range_def)
  then have p: "ParseOptions_net (net_render_args demo_zenoh_options) (default_options_net\<lparr>net_stack := ''zenoh'', net_disc_port := 7447\<rparr>) =
      Inr demo_zenoh_options"
    using ParseOptions_net_render_from by (simp add: o'(3))
  have h: "ParseHostPort (net_peer demo_zenoh_options) '''' 0 = Inr (True, ''peer'', 7447)"
    using ParseHostPort_render [of "''peer''" 7447 "''''" 0] by (simp add: demo_zenoh_options_def default_options_net_def text_eval)
  show ?thesis
    using zenoh_net_main_succeeds [OF p o'(1) h demo_zenoh_channel demo_fb_laws demo_zenoh_laws(1) _ o'(4,5)] o'(2) by simp
qed

lemma demo_zenoh_run:
  "\<exists>line s'. RunPub_zenoh demo_zenoh demo_fb demo_zenoh_options \<lparr>lk_env = (0, []), lk_log = []\<rparr> = Some (Inr (0, line), s')"
proof -
  have "\<exists>half line s'. zn_ping_pong demo_zenoh demo_fb demo_zenoh_options 2 3 \<lparr>lk_env = (0, []), lk_log = []\<rparr> = Some (Inr (0, line), s') \<and>
      PrintCsv_net demo_zenoh_options half = Inr line \<and> length half = nat (net_count demo_zenoh_options)"
    unfolding zn_ping_pong_def Let_def
    by (rule zn_echoing.ping_pong_succeeds [where tm = fst and q = snd])
      (simp_all add: demo_fb_laws demo_zenoh_laws, simp_all add: demo_zenoh_options_def default_options_net_def int_range_def)
  moreover have "ParseHostPort (net_peer demo_zenoh_options) '''' 0 = Inr (True, ''peer'', 7447)"
    using ParseHostPort_render [of "''peer''" 7447 "''''" 0] by (simp add: demo_zenoh_options_def default_options_net_def text_eval)
  ultimately show ?thesis by (auto simp: RunPub_zenoh_def demo_zenoh_channel)
qed

lemma RunPub_zenoh_exit_0_witness:
  "\<exists>line s' es. RunPub_zenoh demo_zenoh demo_fb demo_zenoh_options \<lparr>lk_env = (0, []), lk_log = []\<rparr> = Some (Inr (0, line), s') \<and>
     lk_log s' = es \<and> ping_pong_log demo_zenoh_options 100 es line"
proof -
  obtain line s' where r: "RunPub_zenoh demo_zenoh demo_fb demo_zenoh_options \<lparr>lk_env = (0, []), lk_log = []\<rparr> = Some (Inr (0, line), s')"
    using demo_zenoh_run by blast
  from RunPub_zenoh_exit_0 [OF this] show ?thesis using r by auto
qed

end
