(* ===== verification/Zenoh_Bench.thy ===== *)
theory Zenoh_Bench
  imports Zenoh_Net One_Way
begin

text \<open>
  The shared-memory benchmark of Zenoh (\<open>benchmarks/zenoh_bench.cc\<close>) and the free-port helpers of
  \<open>benchmarks/zenoh_common.h\<close>: the fixture with its two sessions and its warm-up, the ping-pong, and
  what the benchmark thread of the multithreaded benchmark receives. The credits that its two
  threads exchange are in \<open>Credit_Flow\<close>.
\<close>

section \<open>The calls into Zenoh and the operating system\<close>

text \<open>A received sample: its payload as shared memory, if it is that, and as a copied vector.\<close>

record shm_sample =
  ss_shm :: "bytes option"
  ss_vector :: bytes

text \<open>
  A shared-memory allocation gives a buffer or not; the blocking one may never return.
  \<open>getsockname\<close> gives the port on success.
\<close>

record 'w zenoh_shm = "'w zenoh" +
  zs_socket :: "bool \<Rightarrow> 'w \<Rightarrow> int \<times> 'w"
  zs_bind :: "int \<Rightarrow> bool \<Rightarrow> 'w \<Rightarrow> bool \<times> 'w"
  zs_getsockname :: "int \<Rightarrow> 'w \<Rightarrow> int option \<times> 'w"
  zs_close :: "int \<Rightarrow> 'w \<Rightarrow> 'w"
  zs_provider :: "nat \<Rightarrow> nat \<Rightarrow> 'w \<Rightarrow> string option \<times> 'w"
  zs_alloc :: "nat \<Rightarrow> 'w \<Rightarrow> bool \<times> 'w"
  zs_alloc_blocking :: "nat \<Rightarrow> 'w \<Rightarrow> (bool \<times> 'w) option"
  zs_put_shm :: "int \<Rightarrow> bytes \<Rightarrow> 'w \<Rightarrow> string option \<times> 'w"
  zs_recv :: "int \<Rightarrow> 'w \<Rightarrow> shm_sample option \<times> 'w"

section \<open>Free ports\<close>

text \<open>
  The two helpers differ in the socket, the address (the loopback or any) and their messages. The
  result is what they throw, or the port.
\<close>

definition close_fd :: "'w zenoh_shm \<Rightarrow> int \<Rightarrow> 'w link \<Rightarrow> 'w link" where
  "close_fd z fd s = note_event (Call ''close'' fd) (env_do (zs_close z fd) s)"

definition pick_port :: "'w zenoh_shm \<Rightarrow> bool \<Rightarrow> bool \<Rightarrow> string \<Rightarrow> 'w link \<Rightarrow> (string + int) \<times> 'w link" where
  "pick_port z dgram any pre s =
     (case on_env (zs_socket z dgram) s of (fd, s) \<Rightarrow>
      if fd < 0 then (Inl (pre @ ''socket failed''), s)
      else let s = note_event (Call ''open'' fd) s in
      case on_env (zs_bind z fd any) s of (ok, s) \<Rightarrow>
      if \<not> ok then (Inl (pre @ ''bind failed''), close_fd z fd s)
      else case on_env (zs_getsockname z fd) s of (port, s) \<Rightarrow>
      let s = close_fd z fd s in
      case port of None \<Rightarrow> (Inl (pre @ ''getsockname failed''), s) | Some port \<Rightarrow> (Inr port, s))"

definition PickFreePort :: "'w zenoh_shm \<Rightarrow> 'w link \<Rightarrow> (string + int) \<times> 'w link" where
  "PickFreePort z = pick_port z False False ''''"

definition PickFreeUdpPort :: "'w zenoh_shm \<Rightarrow> 'w link \<Rightarrow> (string + int) \<times> 'w link" where
  "PickFreeUdpPort z = pick_port z True True ''udp ''"

section \<open>Publishers, subscribers and samples\<close>

definition MakePublisher :: "'w zenoh_shm \<Rightarrow> int \<Rightarrow> string \<Rightarrow> bool \<Rightarrow> 'w \<Rightarrow> (string + int) \<times> 'w" where
  "MakePublisher z pub_session key reliable =
     z_declare_publisher z pub_session key \<lparr>po_congestion_block = reliable, po_is_express = True, po_remote_destination = True\<rparr>"

definition MakeSubscriber :: "'w zenoh_shm \<Rightarrow> int \<Rightarrow> string \<Rightarrow> nat \<Rightarrow> 'w \<Rightarrow> (string + int) \<times> 'w" where
  "MakeSubscriber z sub_session key fifo = z_declare_subscriber z sub_session key fifo \<lparr>so_remote_origin = True\<rparr>"

text \<open>Number and send time of a sample, and whether it came as shared memory.\<close>

definition PayloadMeta :: "flatbuffers \<Rightarrow> shm_sample \<Rightarrow> (u64 \<times> u64) option \<times> bool" where
  "PayloadMeta fb sample =
     (case ss_shm sample of
        Some data \<Rightarrow> (ReadSampleMeta fb (Some data) (length data), True)
      | None \<Rightarrow> (ReadSampleMeta fb (Some (ss_vector sample)) (length (ss_vector sample)), False))"

text \<open>
  \<open>PutShm\<close>: the sample is built, a buffer allocated, the sample copied into it and stamped. An
  exception ends the program.
\<close>

definition PutShm :: "'w zenoh_shm \<Rightarrow> flatbuffers \<Rightarrow> int \<Rightarrow> nat \<Rightarrow> 'w link shm_send" where
  "PutShm z fb pub payload_bytes sq s =
     (let b = BuildSample fb sq payload_bytes in
      case on_env_block (zs_alloc_blocking z (length b)) s of
        None \<Rightarrow> None
      | Some (False, s) \<Rightarrow> Some (Inl (Thrown ''SHM alloc failed''), s)
      | Some (True, s) \<Rightarrow>
          (case NowNs (z_clock z) s of (now, s) \<Rightarrow>
           case StampSample fb now b of
             Inl m \<Rightarrow> Some (Inl (Thrown m), s)
           | Inr b \<Rightarrow>
               (case on_env (zs_put_shm z pub b) s of
                  (Some m, s) \<Rightarrow> Some (Inl (Thrown m), s)
                | (None, s) \<Rightarrow> Some (Inr None, note_event (Sent sq now) s))))"

section \<open>Receiving\<close>

text \<open>
  \<open>RecvMatching\<close>: the send time of the wanted sample, if it arrives in time. Samples that cannot be
  read, or are not shared memory when they have to be, are skipped; a wanted number 0 means any.
\<close>

partial_function (option) matching_until ::
  "'w zenoh_shm \<Rightarrow> flatbuffers \<Rightarrow> int \<Rightarrow> u64 \<Rightarrow> bool \<Rightarrow> int \<Rightarrow> 'w link \<Rightarrow> (u64 option \<times> 'w link) option" where
  "matching_until z fb sub want require_shm deadline s =
     (case on_env (z_clock z) s of (now, s) \<Rightarrow>
      if \<not> now < deadline then Some (None, s)
      else case on_env (zs_recv z sub) s of
          (None, s) \<Rightarrow> matching_until z fb sub want require_shm deadline (env_do (z_yield z) s)
        | (Some sample, s) \<Rightarrow>
            (case PayloadMeta fb sample of
               (None, was_shm) \<Rightarrow> matching_until z fb sub want require_shm deadline s
             | (Some (got_seq, send_ns), was_shm) \<Rightarrow>
                 if require_shm \<and> \<not> was_shm then matching_until z fb sub want require_shm deadline s
                 else let s = note_event (Got got_seq) s in
                   if want = 0 \<or> got_seq = want then Some (Some send_ns, s)
                   else matching_until z fb sub want require_shm deadline s))"

definition RecvMatching_shm ::
  "'w zenoh_shm \<Rightarrow> flatbuffers \<Rightarrow> int \<Rightarrow> u64 \<Rightarrow> int \<Rightarrow> bool \<Rightarrow> 'w link \<Rightarrow> (u64 option \<times> 'w link) option" where
  "RecvMatching_shm z fb sub want timeout_ms require_shm s =
     (case on_env (z_clock z) s of (now, s) \<Rightarrow>
      matching_until z fb sub want require_shm (now + timeout_ms * 1000000) s)"

text \<open>\<open>RecvOne\<close>: any sample, with whether it was waiting and the time spent yielding.\<close>

partial_function (option) recv_one_until ::
  "'w zenoh_shm \<Rightarrow> flatbuffers \<Rightarrow> int \<Rightarrow> int \<Rightarrow> u64 \<Rightarrow> 'w link \<Rightarrow> (fresh option \<times> 'w link) option" where
  "recv_one_until z fb sub deadline wait_ns s =
     (case on_env (z_clock z) s of (now, s) \<Rightarrow>
      if \<not> now < deadline then Some (None, s)
      else case NowNs (z_clock z) s of (w0, s) \<Rightarrow>
        case NowNs (z_clock z) (env_do (z_yield z) s) of (w1, s) \<Rightarrow>
        let wait_ns = wait_ns + (w1 - w0) in
        case on_env (zs_recv z sub) s of
          (None, s) \<Rightarrow> recv_one_until z fb sub deadline wait_ns s
        | (Some sample, s) \<Rightarrow>
            (case fst (PayloadMeta fb sample) of
               None \<Rightarrow> recv_one_until z fb sub deadline wait_ns s
             | Some (sq, send_ns) \<Rightarrow>
                 Some (Some \<lparr>fr_send_ns = send_ns, fr_was_queued = False, fr_wait_ns = wait_ns\<rparr>, note_event (Got sq) s)))"

definition RecvOne :: "'w zenoh_shm \<Rightarrow> flatbuffers \<Rightarrow> int \<Rightarrow> int \<Rightarrow> 'w link \<Rightarrow> (fresh option \<times> 'w link) option" where
  "RecvOne z fb sub timeout_ms s =
     (case on_env (zs_recv z sub) s of (r, s) \<Rightarrow>
      case Option.bind r (\<lambda>sample. fst (PayloadMeta fb sample)) of
        Some (sq, send_ns) \<Rightarrow>
          Some (Some \<lparr>fr_send_ns = send_ns, fr_was_queued = True, fr_wait_ns = 0\<rparr>, note_event (Got sq) s)
      | None \<Rightarrow>
          (case on_env (z_clock z) s of (now, s) \<Rightarrow> recv_one_until z fb sub (now + timeout_ms * 1000000) 0 s))"

section \<open>The fixture\<close>

record ZenohShmFixture =
  zf_started :: bool
  zf_pub_session :: "int option"
  zf_sub_session :: "int option"
  zf_provider :: bool

definition new_zenoh_fixture :: ZenohShmFixture where
  "new_zenoh_fixture = \<lparr>zf_started = False, zf_pub_session = None, zf_sub_session = None, zf_provider = False\<rparr>"

definition kKey :: string where "kKey = ''bench/zenoh/shm/oneway''"

text \<open>Dropping what is pending; it does not end while samples keep coming.\<close>

partial_function (option) drain_pending :: "'w zenoh_shm \<Rightarrow> int \<Rightarrow> 'w link \<Rightarrow> 'w link option" where
  "drain_pending z sub s =
     (case on_env (zs_recv z sub) s of
        (None, s) \<Rightarrow> Some s
      | (Some sample, s) \<Rightarrow> drain_pending z sub s)"

text \<open>The wait for one warm-up sample: what it throws, or whether the sample came.\<close>

partial_function (option) warm_wait ::
  "'w zenoh_shm \<Rightarrow> flatbuffers \<Rightarrow> int \<Rightarrow> u64 \<Rightarrow> int \<Rightarrow> 'w link \<Rightarrow> ((string + bool) \<times> 'w link) option" where
  "warm_wait z fb sub warm_seq drain_until s =
     (case on_env (z_clock z) s of (now, s) \<Rightarrow>
      if \<not> now < drain_until then Some (Inr False, s)
      else case on_env (zs_recv z sub) s of
          (None, s) \<Rightarrow> warm_wait z fb sub warm_seq drain_until (env_do (z_thread_sleep z 1000000) s)
        | (Some sample, s) \<Rightarrow>
            if ss_shm sample = None
            then Some (Inl (''warmup payload was not SHM '' @ [CHR 0xE2, CHR 0x80, CHR 0x94] @ '' expected transport SHM path''), s)
            else (case ReadSampleMeta fb (Some (ss_vector sample)) (length (ss_vector sample)) of
                    None \<Rightarrow> warm_wait z fb sub warm_seq drain_until s
                  | Some (got_seq, send_ns) \<Rightarrow>
                      let s = note_event (Got got_seq) s in
                      if got_seq = warm_seq then Some (Inr True, s) else warm_wait z fb sub warm_seq drain_until s))"

text \<open>
  A round of the warm-up: without a buffer, what is pending is dropped; otherwise a sample is put
  and waited for.
\<close>

definition warm_round ::
  "'w zenoh_shm \<Rightarrow> flatbuffers \<Rightarrow> int \<Rightarrow> int \<Rightarrow> u64 \<Rightarrow> 'w link \<Rightarrow> ((string + bool) \<times> 'w link) option" where
  "warm_round z fb pub sub warm_seq s =
     (let b = BuildSample fb warm_seq 16 in
      case on_env (zs_alloc z (length b)) s of (ok, s) \<Rightarrow>
      if \<not> ok then map_option (\<lambda>s. (Inr False, env_do (z_thread_sleep z 5000000) s)) (drain_pending z sub s)
      else case NowNs (z_clock z) s of (stamp, s) \<Rightarrow>
        case StampSample fb stamp b of
          Inl m \<Rightarrow> Some (Inl m, s)
        | Inr b \<Rightarrow>
            (case on_env (zs_put_shm z pub b) s of
               (Some m, s) \<Rightarrow> Some (Inl m, s)
             | (None, s) \<Rightarrow>
                 (case on_env (z_clock z) (note_event (Sent warm_seq stamp) s) of (now, s) \<Rightarrow>
                  warm_wait z fb sub warm_seq (now + 100000000) s)))"

text \<open>At most 64 rounds within the deadline, until a sample comes back.\<close>

fun warm_rounds ::
  "'w zenoh_shm \<Rightarrow> flatbuffers \<Rightarrow> int \<Rightarrow> int \<Rightarrow> int \<Rightarrow> nat \<Rightarrow> u64 \<Rightarrow> 'w link \<Rightarrow> ((string + bool) \<times> 'w link) option" where
  "warm_rounds z fb pub sub deadline 0 warm_seq s = Some (Inr False, snd (on_env (z_clock z) s))"
| "warm_rounds z fb pub sub deadline (Suc n) warm_seq s =
     (case on_env (z_clock z) s of (now, s) \<Rightarrow>
      if \<not> now < deadline then Some (Inr False, s)
      else let warm_seq = warm_seq + 1 in
        case warm_round z fb pub sub warm_seq s of
          None \<Rightarrow> None
        | Some (r, s) \<Rightarrow> if r = Inr False then warm_rounds z fb pub sub deadline n warm_seq s else Some (r, s))"

text \<open>A call that may throw, and what follows it when it does not.\<close>

definition or_throw ::
  "('w \<Rightarrow> (string + 'a) \<times> 'w) \<Rightarrow> 'w link \<Rightarrow> ('a \<Rightarrow> 'w link \<Rightarrow> ('b res \<times> 'w link) option) \<Rightarrow> ('b res \<times> 'w link) option" where
  "or_throw f s k = (case on_env f s of (Inl m, s) \<Rightarrow> Some (Inl (Thrown m), s) | (Inr a, s) \<Rightarrow> k a s)"

definition Warmup :: "'w zenoh_shm \<Rightarrow> flatbuffers \<Rightarrow> int \<Rightarrow> int \<Rightarrow> 'w link \<Rightarrow> (unit res \<times> 'w link) option" where
  "Warmup z fb pub_session sub_session s =
     (case z_key z kKey of Some m \<Rightarrow> Some (Inl (Thrown m), s) | None \<Rightarrow>
      or_throw (MakePublisher z pub_session kKey True) s (\<lambda>pub s.
      or_throw (MakeSubscriber z sub_session kKey 16) s (\<lambda>sub s.
      case on_env (z_clock z) s of (now, s) \<Rightarrow>
      case warm_rounds z fb pub sub (now + 5000000000) 64 0 s of
        None \<Rightarrow> None
      | Some (Inl m, s) \<Rightarrow> Some (Inl (Thrown m), s)
      | Some (Inr False, s) \<Rightarrow> Some (Inl (Thrown ''warmup put/sub timed out''), s)
      | Some (Inr True, s) \<Rightarrow> Some (Inr (), s))))"

text \<open>Two sessions, one listening at a free port of the loopback and one connecting to it.\<close>

definition open_session :: "'w zenoh_shm \<Rightarrow> zenoh_config \<Rightarrow> 'w \<Rightarrow> (string + int) \<times> 'w" where
  "open_session z config w = (case z_config z config of Some m \<Rightarrow> (Inl m, w) | None \<Rightarrow> z_open z config w)"

text \<open>
  \<open>SetUp\<close>: the fixture is returned also when an exception leaves it half set up.
\<close>

definition SetUp_zenoh ::
  "'w zenoh_shm \<Rightarrow> flatbuffers \<Rightarrow> ZenohShmFixture \<Rightarrow> 'w link \<Rightarrow> ((unit res \<times> ZenohShmFixture) \<times> 'w link) option" where
  "SetUp_zenoh z fb fx s =
     (if zf_started fx then Some ((Inr (), fx), s)
      else case PickFreePort z s of
          (Inl m, s) \<Rightarrow> Some ((Inl (Thrown m), fx), s)
        | (Inr port, s) \<Rightarrow>
            let endpoint = TcpLoopback port in
            (case on_env (open_session z (MakeShmPeerConfig endpoint '''')) s of
               (Inl m, s) \<Rightarrow> Some ((Inl (Thrown m), fx), s)
             | (Inr pub_session, s) \<Rightarrow>
                 let fx = fx\<lparr>zf_pub_session := Some pub_session\<rparr>; s = env_do (z_thread_sleep z 50000000) s in
                 (case on_env (open_session z (MakeShmPeerConfig '''' endpoint)) s of
                    (Inl m, s) \<Rightarrow> Some ((Inl (Thrown m), fx), s)
                  | (Inr sub_session, s) \<Rightarrow>
                      let fx = fx\<lparr>zf_sub_session := Some sub_session\<rparr> in
                      (case on_env (zs_provider z (64 * 1024 * 1024) 2) s of
                         (Some m, s) \<Rightarrow> Some ((Inl (Thrown m), fx\<lparr>zf_provider := False\<rparr>), s)
                       | (None, s) \<Rightarrow>
                           let fx = fx\<lparr>zf_provider := True\<rparr> in
                           map_option (\<lambda>(r, s). ((r, if r = Inr () then fx\<lparr>zf_started := True\<rparr> else fx), s))
                             (Warmup z fb pub_session sub_session s)))))"

definition Shutdown_zenoh :: "ZenohShmFixture \<Rightarrow> ZenohShmFixture" where
  "Shutdown_zenoh fx = fx\<lparr>zf_provider := False, zf_sub_session := None, zf_pub_session := None, zf_started := False\<rparr>"

section \<open>The ping-pong\<close>

text \<open>The probes: the number that was echoed, or 0.\<close>

fun link_up ::
  "'w zenoh_shm \<Rightarrow> flatbuffers \<Rightarrow> int \<Rightarrow> int \<Rightarrow> nat \<Rightarrow> bool \<Rightarrow> u64 list \<Rightarrow> 'w link \<Rightarrow> (u64 res \<times> 'w link) option" where
  "link_up z fb pub sub sz require_shm [] s = Some (Inr 0, s)"
| "link_up z fb pub sub sz require_shm (i # is) s =
     (case PutShm z fb pub sz i s of
        None \<Rightarrow> None
      | Some (Inl f, s) \<Rightarrow> Some (Inl f, s)
      | Some (Inr e, s) \<Rightarrow>
          (case RecvMatching_shm z fb sub i 500 require_shm s of
             None \<Rightarrow> None
           | Some (None, s) \<Rightarrow> link_up z fb pub sub sz require_shm is s
           | Some (Some send_ns, s) \<Rightarrow> Some (Inr i, s)))"

definition WaitUntilLinked ::
  "'w zenoh_shm \<Rightarrow> flatbuffers \<Rightarrow> int \<Rightarrow> int \<Rightarrow> nat \<Rightarrow> 'w link \<Rightarrow> (u64 res \<times> 'w link) option" where
  "WaitUntilLinked z fb pub sub sz s =
     (let probes = (if 256 * 1024 < sz then 4 else 32) in
      link_up z fb pub sub sz (4096 \<le> sz) (map (\<lambda>i. of_nat (i + 1)) [0..<probes]) s)"

definition zb_get :: "'w zenoh_shm \<Rightarrow> flatbuffers \<Rightarrow> int \<Rightarrow> 'w link shm_recv" where
  "zb_get z fb sub sq s =
     map_option (\<lambda>(r, s). (case r of None \<Rightarrow> Inl ''timed out waiting for sample'' | Some send_ns \<Rightarrow> Inr send_ns, s))
       (RecvMatching_shm z fb sub sq 2000 False s)"

text \<open>
  What \<open>RunPingPong\<close> and \<open>RunMtOneWay\<close> do first: subscriber, publisher and link. The sessions of a
  fixture that has not been set up are null.
\<close>

definition zenoh_channel :: "string \<Rightarrow> bool \<Rightarrow> nat \<Rightarrow> nat \<Rightarrow> string" where
  "zenoh_channel kind reliable sz state_addr =
     ''bench/zenoh/'' @ kind @ ''/'' @ (if reliable then ''r/'' else ''u/'') @ show_nat sz @ ''/'' @ show_nat state_addr"

definition when_linked ::
  "'w zenoh_shm \<Rightarrow> flatbuffers \<Rightarrow> int \<Rightarrow> int \<Rightarrow> nat
   \<Rightarrow> (int \<Rightarrow> int \<Rightarrow> u64 \<Rightarrow> 'w link \<Rightarrow> ((string option \<times> counters res) res \<times> 'w link) option)
   \<Rightarrow> 'w link \<Rightarrow> ((string option \<times> counters res) res \<times> 'w link) option" where
  "when_linked z fb pub sub sz k s =
     (case WaitUntilLinked z fb pub sub sz s of
        None \<Rightarrow> None
      | Some (Inl f, s) \<Rightarrow> Some (Inl f, s)
      | Some (Inr linked, s) \<Rightarrow>
          if linked = 0 then Some (Inr (Some ''zenoh pub/sub failed to link'', Inr Map.empty), s)
          else k pub sub linked s)"

definition linked_channel ::
  "'w zenoh_shm \<Rightarrow> flatbuffers \<Rightarrow> ZenohShmFixture \<Rightarrow> string \<Rightarrow> nat \<Rightarrow> bool \<Rightarrow> nat \<Rightarrow> 'w link
   \<Rightarrow> (int \<Rightarrow> int \<Rightarrow> u64 \<Rightarrow> 'w link \<Rightarrow> ((string option \<times> counters res) res \<times> 'w link) option)
   \<Rightarrow> ((string option \<times> counters res) res \<times> 'w link) option" where
  "linked_channel z fb fx key fifo reliable sz s k =
     (case z_key z key of Some m \<Rightarrow> Some (Inl (Thrown m), s) | None \<Rightarrow>
      case zf_sub_session fx of None \<Rightarrow> Some (Inl Null_deref, s) | Some sub_session \<Rightarrow>
      or_throw (MakeSubscriber z sub_session key fifo) s (\<lambda>sub s.
      case zf_pub_session fx of None \<Rightarrow> Some (Inl Null_deref, s) | Some pub_session \<Rightarrow>
      or_throw (MakePublisher z pub_session key reliable) s (\<lambda>pub s.
      when_linked z fb pub sub sz k s)))"

definition RunPingPong_zenoh ::
  "'w zenoh_shm \<Rightarrow> flatbuffers \<Rightarrow> ZenohShmFixture \<Rightarrow> bool \<Rightarrow> nat \<Rightarrow> nat \<Rightarrow> nat \<Rightarrow> 'w link
   \<Rightarrow> ((string option \<times> counters res) res \<times> 'w link) option" where
  "RunPingPong_zenoh z fb fx reliable sz state_addr n s =
     linked_channel z fb fx (zenoh_channel ''pp'' reliable sz state_addr) 16 reliable sz s (\<lambda>pub sub seq s.
       map_option (\<lambda>(r, s). (map_sum id reported_counters r, s))
         (one_way_rounds (PutShm z fb pub sz) (zb_get z fb sub) (NowNs (z_clock z)) n seq [] s))"

section \<open>The multithreaded benchmark\<close>

text \<open>
  The drain at the start of an iteration: up to 32 samples; one that cannot be read is dropped, and
  its credit is not released.
\<close>

fun zb_drain ::
  "'w zenoh_shm \<Rightarrow> flatbuffers \<Rightarrow> int \<Rightarrow> nat \<Rightarrow> MtTakeStats \<Rightarrow> 'w link \<Rightarrow> MtTakeStats \<times> 'w link" where
  "zb_drain z fb sub 0 stats s = (stats, s)"
| "zb_drain z fb sub (Suc n) stats s =
     (case on_env (zs_recv z sub) s of
        (None, s) \<Rightarrow> (stats, s)
      | (Some sample, s) \<Rightarrow>
          (case fst (PayloadMeta fb sample) of
             None \<Rightarrow> zb_drain z fb sub n stats s
           | Some (sq, send_ns) \<Rightarrow>
               (case NowNs (z_clock z) (note_event (Got sq) s) of (now, s) \<Rightarrow>
                zb_drain z fb sub n (Record (OneWayLatencySec send_ns now) True 0 stats) s)))"

text \<open>One iteration of the benchmark thread, without the release of the credits.\<close>

definition zb_iteration ::
  "'w zenoh_shm \<Rightarrow> flatbuffers \<Rightarrow> int \<Rightarrow> MtTakeStats \<times> rat list \<Rightarrow> 'w link
   \<Rightarrow> ((string option \<times> MtTakeStats \<times> rat list) \<times> 'w link) option" where
  "zb_iteration z fb sub y s =
     (case y of (stats, lats) \<Rightarrow>
      case zb_drain z fb sub 32 stats s of (stats, s) \<Rightarrow>
      case RecvOne z fb sub 2000 s of
        None \<Rightarrow> None
      | Some (None, s) \<Rightarrow> Some ((Some ''timed out waiting for sample'', stats, lats), s)
      | Some (Some f, s) \<Rightarrow>
          (case NowNs (z_clock z) s of (now, s) \<Rightarrow>
           let e2e = OneWayLatencySec (fr_send_ns f) now in
           Some ((None, Record e2e (fr_was_queued f) (fl (dbl_of_u64 (fr_wait_ns f) * lit_1em9)) stats, lats @ [e2e]), s)))"

definition RunMtOneWay_zenoh ::
  "'w zenoh_shm \<Rightarrow> flatbuffers \<Rightarrow> ZenohShmFixture \<Rightarrow> bool \<Rightarrow> nat \<Rightarrow> nat \<Rightarrow> nat \<Rightarrow> 'w link
   \<Rightarrow> ((string option \<times> counters res) res \<times> 'w link) option" where
  "RunMtOneWay_zenoh z fb fx reliable sz state_addr n s =
     linked_channel z fb fx (zenoh_channel ''mt'' reliable sz state_addr) 8 reliable sz s (\<lambda>pub sub seq s.
       mt_benchmark (zb_iteration z fb sub) n s)"

section \<open>What sending and receiving log\<close>

lemma close_fd_log [simp]: "lk_log (close_fd z fd s) = lk_log s @ [Call ''close'' fd]"
  by (simp add: close_fd_def note_event_def)

lemma PutShm_log:
  assumes "PutShm z fb pub sz sq s = Some (r, s')"
  shows "if r = Inr None then \<exists>ns. lk_log s' = lk_log s @ [Sent sq ns] else lk_log s' = lk_log s \<and> isl r"
proof -
  let ?b = "BuildSample fb sq sz"
  obtain ok s1 where a: "on_env_block (zs_alloc_blocking z (length ?b)) s = Some (ok, s1)"
    using assms by (auto simp: PutShm_def Let_def split: option.splits)
  obtain now s2 where n: "NowNs (z_clock z) s1 = (now, s2)" by fastforce
  have "lk_log s1 = lk_log s" "lk_log s2 = lk_log s" using on_env_block_log [OF a] n by simp_all
  then show ?thesis
    using assms a n by (auto simp: PutShm_def Let_def note_event_def dest!: on_env_log split: sum.splits bool.splits prod.splits option.splits)
qed

text \<open>The contract of \<open>RecvMatching\<close> for a number other than 0.\<close>

definition matches :: "u64 \<Rightarrow> 'w link \<Rightarrow> u64 option \<times> 'w link \<Rightarrow> bool" where
  "matches want s y \<longleftrightarrow> received_until want s (fst y \<noteq> None, snd y)"

lemma matching_until_matches:
  assumes "matching_until z fb sub want require_shm deadline s = Some y" and "want \<noteq> 0"
  shows "matches want s y"
  using assms
proof (induction rule: matching_until.raw_induct [rotated, consumes 1, case_names step])
  case (step rec z fb sub want require_shm deadline s y)
  obtain t s1 where c: "on_env (z_clock z) s = (t, s1)" by fastforce
  obtain r s2 where rc: "on_env (zs_recv z sub) s1 = (r, s2)" by fastforce
  have l: "lk_log s1 = lk_log s" "lk_log s2 = lk_log s" using c rc by simp_all
  have again: "matches want s y" if "rec z fb sub want require_shm deadline s' = Some y" "lk_log s' = lk_log s" for s'
    using step(1) [OF that(1) step(3)] received_same that(2) by (fastforce simp: matches_def)
  have skip: "matches want s y" if "rec z fb sub want require_shm deadline (note_event (Got g) s2) = Some y" "g \<noteq> want" for g
    using step(1) [OF that(1) step(3)] received_skip [OF _ that(2) l(2)] by (simp add: matches_def)
  have "matches want s (None, s1)" "matches want s (Some ns, note_event (Got want) s2)" for ns
    using received_stop [OF l(1)] received_hit [OF l(2)] by (simp_all add: matches_def)
  then show ?case
    using step(2,3) c rc again [OF _ l(2)] again [of "env_do (z_yield z) s2"] l(2) skip
    by (auto simp: Let_def split: option.splits prod.splits if_splits)
qed

lemma RecvMatching_shm_matches:
  assumes "RecvMatching_shm z fb sub want ms require_shm s = Some y" and "want \<noteq> 0"
  shows "matches want s y"
proof -
  obtain t s1 where c: "on_env (z_clock z) s = (t, s1)" by fastforce
  then have "matches want s1 y" using assms matching_until_matches by (simp add: RecvMatching_shm_def)
  then show ?thesis using received_same c by (fastforce simp: matches_def)
qed

text \<open>Number 0 is never sent in fewer than \<open>2 ^ 64\<close> rounds; then the loop would take any sample.\<close>

lemma zb_get_log:
  assumes "zb_get z fb sub sq s = Some (Inr ns, s')" and "sq \<noteq> 0"
  shows "\<exists>stale. lk_log s' = lk_log s @ map Got stale @ [Got sq]"
proof -
  obtain r where r: "RecvMatching_shm z fb sub sq 2000 False s = Some (r, s')" "r \<noteq> None"
    using assms(1) by (auto simp: zb_get_def split: option.splits)
  then show ?thesis using RecvMatching_shm_matches [OF r(1) assms(2)] received_until_found by (simp add: matches_def)
qed

interpretation zb: one_way_link "PutShm z fb pub sz" "zb_get z fb sub" "NowNs (z_clock z)" lk_log "\<lambda>sq. sq \<noteq> 0"
  for z fb pub sub sz
proof
  show "\<exists>ns. lk_log s' = lk_log s @ [Sent sq ns]" if "PutShm z fb pub sz sq s = Some (Inr None, s')" for sq and s s' :: "'a link"
    using PutShm_log [OF that] by simp
qed (simp_all add: zb_get_log)

text \<open>The probes: all that is logged is probes and samples, and the number linked is that of a probe.\<close>

lemma link_up_log:
  assumes "link_up z fb pub sub sz require_shm is s = Some (Inr i, s')" and "0 \<notin> set is"
  shows "\<exists>es. lk_log s' = lk_log s @ es \<and> (i \<noteq> 0 \<longrightarrow> i \<in> set is \<and> es \<noteq> [] \<and> last es = Got i)"
  using assms
proof (induction "is" arbitrary: s)
  case (Cons p ps)
  obtain r s1 where put: "PutShm z fb pub sz p s = Some (r, s1)" using Cons.prems(1) by (auto split: option.splits)
  then have r: "r = Inr None" using Cons.prems(1) PutShm_log [OF put] by (cases r) (auto split: if_splits)
  obtain m s2 where m: "RecvMatching_shm z fb sub p 500 require_shm s1 = Some (m, s2)"
    using Cons.prems(1) put r by (auto split: option.splits)
  obtain ns where l1: "lk_log s1 = lk_log s @ [Sent p ns]" using PutShm_log [OF put] r by auto
  have "matches p s1 (m, s2)" using RecvMatching_shm_matches [OF m] Cons.prems(2) by simp
  then obtain fs where l2: "lk_log s2 = lk_log s1 @ fs" "m \<noteq> None \<longrightarrow> fs \<noteq> [] \<and> last fs = Got p"
    using received_until_log by (fastforce simp: matches_def)
  show ?case
  proof (cases m)
    case None
    then have "link_up z fb pub sub sz require_shm ps s2 = Some (Inr i, s')" using Cons.prems(1) put r m by simp
    then obtain es where "lk_log s' = lk_log s2 @ es" "i \<noteq> 0 \<longrightarrow> i \<in> set ps \<and> es \<noteq> [] \<and> last es = Got i"
      using Cons.IH Cons.prems(2) by auto
    then show ?thesis using l1 l2 by (intro exI [of _ "[Sent p ns] @ fs @ es"]) auto
  next
    case (Some x)
    then have "i = p" "s' = s2" using Cons.prems(1) put r m by auto
    then show ?thesis using l1 l2 Some by (intro exI [of _ "[Sent p ns] @ fs"]) auto
  qed
qed simp

lemma WaitUntilLinked_log:
  assumes "WaitUntilLinked z fb pub sub sz s = Some (Inr i, s')" and "i \<noteq> 0"
  shows "\<exists>es. lk_log s' = lk_log s @ es \<and> es \<noteq> [] \<and> last es = Got i \<and> unat i \<le> 32"
proof -
  define ps :: "u64 list" where "ps = map (\<lambda>i. of_nat (i + 1)) [0..<if 256 * 1024 < sz then 4 else 32]"
  have p: "p \<noteq> 0 \<and> unat p \<le> 32" if "p \<in> set ps" for p
  proof -
    obtain k :: nat where "p = of_nat (k + 1)" "k < 32" using \<open>p \<in> set ps\<close> by (auto simp: ps_def split: if_splits)
    moreover from this have "unat p = k + 1" by (simp only: unat_of_nat) simp
    ultimately show ?thesis by auto
  qed
  have "link_up z fb pub sub sz (4096 \<le> sz) ps s = Some (Inr i, s')"
    using assms(1) by (simp add: WaitUntilLinked_def ps_def Let_def)
  then show ?thesis using link_up_log [of z fb pub sub sz "4096 \<le> sz" ps s i s'] p assms(2) by metis
qed

lemma or_throw_cases:
  assumes "or_throw f s k = Some (r, s')"
  obtains m where "r = Inl (Thrown m)" "lk_log s' = lk_log s"
  | a s1 where "lk_log s1 = lk_log s" "k a s1 = Some (r, s')"
  using assms by (auto simp: or_throw_def dest: on_env_log split: prod.splits sum.splits)

lemma linked_channel_ok:
  assumes "linked_channel z fb fx key fifo reliable sz s k = Some (Inr (None, r), s')"
  shows "\<exists>pub sub linked s1 es. k pub sub linked s1 = Some (Inr (None, r), s') \<and> lk_log s1 = lk_log s @ es \<and>
    es \<noteq> [] \<and> last es = Got linked \<and> linked \<noteq> 0 \<and> unat linked \<le> 32"
proof -
  obtain sub pub s1 linked s2 where l: "lk_log s1 = lk_log s" and w: "WaitUntilLinked z fb pub sub sz s1 = Some (Inr linked, s2)"
    and k: "linked \<noteq> 0" "k pub sub linked s2 = Some (Inr (None, r), s')"
    using assms unfolding linked_channel_def when_linked_def
    by (auto elim!: or_throw_cases split: option.splits sum.splits if_splits)
  show ?thesis using WaitUntilLinked_log [OF w k(1)] k l by metis
qed

section \<open>The multithreaded benchmark\<close>

lemma zb_drain_takes:
  assumes "zb_drain z fb sub n stats s = (stats', s')"
  shows "\<exists>k\<le>n. takes_recorded (lk_log s) stats (lk_log s') stats' k"
  using assms
proof (induction n arbitrary: stats s)
  case 0
  then show ?case by (auto simp: takes_recorded_def)
next
  case (Suc n)
  obtain r s1 where rc: "on_env (zs_recv z sub) s = (r, s1)" by fastforce
  then have l: "lk_log s1 = lk_log s" by simp
  show ?case
  proof (cases r)
    case None
    then show ?thesis using Suc.prems rc l by (intro exI [of _ 0]) (auto simp: takes_recorded_def)
  next
    case (Some sample)
    show ?thesis
    proof (cases "fst (PayloadMeta fb sample)")
      case None
      then have "zb_drain z fb sub n stats s1 = (stats', s')" using Suc.prems rc Some by simp
      from Suc.IH [OF this] show ?thesis using l by (auto intro: le_SucI)
    next
      case meta: (Some m)
      obtain sq ns where m: "m = (sq, ns)" by fastforce
      obtain now s2 where c: "NowNs (z_clock z) (note_event (Got sq) s1) = (now, s2)" by fastforce
      let ?st = "Record (OneWayLatencySec ns now) True 0 stats"
      have "zb_drain z fb sub n ?st s2 = (stats', s')" using Suc.prems rc Some meta m c by simp
      from Suc.IH [OF this] obtain k where k: "k \<le> n" "takes_recorded (lk_log s2) ?st (lk_log s') stats' k" by blast
      have "lk_log s2 = lk_log s @ [Got sq]" using c l by (simp add: note_event_def)
      then have "takes_recorded (lk_log s) stats (lk_log s2) ?st 1"
        by (auto simp: takes_recorded_def intro!: exI [of _ "[sq]"])
      from takes_recorded_trans [OF this k(2)] show ?thesis using k(1) by (intro exI [of _ "Suc k"]) simp
    qed
  qed
qed

definition receives_one :: "'w link \<Rightarrow> fresh option \<times> 'w link \<Rightarrow> bool" where
  "receives_one s y \<longleftrightarrow>
     (case fst y of None \<Rightarrow> lk_log (snd y) = lk_log s
      | Some f \<Rightarrow> (\<exists>sq. lk_log (snd y) = lk_log s @ [Got sq]) \<and> (fr_was_queued f \<longrightarrow> fr_wait_ns f = 0))"

lemma receives_one_same: "receives_one s1 y \<Longrightarrow> lk_log s1 = lk_log s \<Longrightarrow> receives_one s y"
  by (simp add: receives_one_def split: option.splits)

lemma recv_one_until_receives:
  assumes "recv_one_until z fb sub deadline wait_ns s = Some y"
  shows "receives_one s y"
  using assms
proof (induction rule: recv_one_until.raw_induct [rotated, consumes 1, case_names step])
  case (step rec z fb sub deadline wait_ns s y)
  obtain t s1 where c: "on_env (z_clock z) s = (t, s1)" by fastforce
  obtain w0 s2 where n0: "NowNs (z_clock z) s1 = (w0, s2)" by fastforce
  obtain w1 s3 where n1: "NowNs (z_clock z) (env_do (z_yield z) s2) = (w1, s3)" by fastforce
  obtain r s4 where rc: "on_env (zs_recv z sub) s3 = (r, s4)" by fastforce
  have l: "lk_log s1 = lk_log s" "lk_log s4 = lk_log s" using c n0 n1 rc by simp_all
  have "receives_one s y" if "rec z fb sub deadline (wait_ns + (w1 - w0)) s4 = Some y"
    by (rule receives_one_same [OF step(1) [OF that] l(2)])
  moreover have "receives_one s (None, s1)"
    "receives_one s (Some \<lparr>fr_send_ns = ns, fr_was_queued = False, fr_wait_ns = w\<rparr>, note_event (Got g) s4)" for ns w g
    using l by (simp_all add: receives_one_def note_event_def)
  ultimately show ?case using step(2) c n0 n1 rc by (auto simp: Let_def split: option.splits if_splits)
qed

lemma RecvOne_receives:
  assumes "RecvOne z fb sub ms s = Some y"
  shows "receives_one s y"
proof -
  obtain r s1 where rc: "on_env (zs_recv z sub) s = (r, s1)" by fastforce
  obtain t s2 where c: "on_env (z_clock z) s1 = (t, s2)" by fastforce
  have l: "lk_log s1 = lk_log s" "lk_log s2 = lk_log s" using rc c by simp_all
  have "receives_one s y" if "recv_one_until z fb sub (t + ms * 1000000) 0 s2 = Some y"
    by (rule receives_one_same [OF recv_one_until_receives [OF that] l(2)])
  moreover have "receives_one s (Some \<lparr>fr_send_ns = ns, fr_was_queued = True, fr_wait_ns = 0\<rparr>, note_event (Got g) s1)" for ns g
    using l by (simp add: receives_one_def note_event_def)
  ultimately show ?thesis using assms rc c by (auto simp: RecvOne_def split: option.splits)
qed

lemma zb_iteration_takes:
  assumes "zb_iteration z fb sub (stats, lats) s = Some ((None, stats', lats'), s')"
  shows "length lats' = Suc (length lats) \<and>
    (\<exists>k. 1 \<le> k \<and> k \<le> 33 \<and> takes_recorded (lk_log s) stats (lk_log s') stats' k)"
proof -
  obtain stats1 s1 where d: "zb_drain z fb sub 32 stats s = (stats1, s1)" by fastforce
  obtain f s2 where f: "RecvOne z fb sub 2000 s1 = Some (Some f, s2)"
    using assms d by (auto simp: zb_iteration_def split: prod.splits option.splits)
  obtain now s3 where c: "NowNs (z_clock z) s2 = (now, s3)" by fastforce
  have e: "s' = s3" "mt_n stats' = mt_n stats1 + 1" "length lats' = Suc (length lats)"
    using assms d f c by (auto simp: zb_iteration_def Let_def)
  obtain k where k: "k \<le> 32" "takes_recorded (lk_log s) stats (lk_log s1) stats1 k" using zb_drain_takes [OF d] by auto
  obtain sq where "lk_log s2 = lk_log s1 @ [Got sq]" using RecvOne_receives [OF f] by (auto simp: receives_one_def)
  then have "takes_recorded (lk_log s1) stats1 (lk_log s') stats' 1"
    using e c by (auto simp: takes_recorded_def intro!: exI [of _ "[sq]"])
  from takes_recorded_trans [OF k(2) this] show ?thesis using e(3) k(1) by (intro conjI exI [of _ "Suc k"]) auto
qed

interpretation zb_mt: mt_link_thread "zb_iteration z fb sub" for z fb sub
  by unfold_locales (rule zb_iteration_takes)

section \<open>Termination\<close>

text \<open>
  Reading the clock advances it, nothing turns it back, and an allocation of shared memory returns.
\<close>

definition zenoh_shm_advances :: "'w zenoh_shm \<Rightarrow> bool" where
  "zenoh_shm_advances z \<longleftrightarrow>
     (\<exists>tm. (\<forall>w. fst (z_clock z w) = tm w \<and> tm w < tm (snd (z_clock z w))) \<and>
        (\<forall>sub w. tm w \<le> tm (snd (zs_recv z sub w))) \<and> (\<forall>w. tm w \<le> tm (z_yield z w))) \<and>
     (\<forall>n w. zs_alloc_blocking z n w \<noteq> None)"

lemma matching_until_returns:
  assumes "zenoh_shm_advances z" shows "\<exists>y. matching_until z fb sub want require_shm deadline s = Some y"
proof -
  obtain tm where tm: "\<And>w. fst (z_clock z w) = tm w" "\<And>w. tm w < tm (snd (z_clock z w))"
    "\<And>w. tm w \<le> tm (snd (zs_recv z sub w))" "\<And>w. tm w \<le> tm (z_yield z w)"
    using assms unfolding zenoh_shm_advances_def by metis
  show ?thesis
  proof (induction "nat (deadline - tm (lk_env s))" arbitrary: s rule: less_induct)
    case less
    obtain t s1 where c: "on_env (z_clock z) s = (t, s1)" by fastforce
    obtain r s2 where rc: "on_env (zs_recv z sub) s1 = (r, s2)" by fastforce
    have t: "t = tm (lk_env s)" "tm (lk_env s) < tm (lk_env s1)" "tm (lk_env s1) \<le> tm (lk_env s2)"
      using c rc tm(1,2) [of "lk_env s"] tm(3) [of "lk_env s1"] by (auto simp: on_env_def split: prod.splits)
    have IH: "\<exists>y. matching_until z fb sub want require_shm deadline s' = Some y"
      if "t < deadline" "tm (lk_env s2) \<le> tm (lk_env s')" for s'
      using that less [of s'] t by simp
    have "\<exists>y. matching_until z fb sub want require_shm deadline (env_do (z_yield z) s2) = Some y" if "t < deadline"
      by (rule IH [OF that]) (simp add: env_do_def tm(4))
    moreover have "\<exists>y. matching_until z fb sub want require_shm deadline (note_event g s2) = Some y" if "t < deadline" for g
      by (rule IH [OF that]) (simp add: note_event_def)
    ultimately show ?case
      using IH [of s2] by (subst matching_until.simps) (auto simp: c rc Let_def split: option.splits prod.splits)
  qed
qed

lemma RecvMatching_shm_returns:
  "zenoh_shm_advances z \<Longrightarrow> \<exists>y. RecvMatching_shm z fb sub want ms require_shm s = Some y"
  using matching_until_returns by (fastforce simp: RecvMatching_shm_def split: prod.splits)

lemma PutShm_returns:
  assumes "zenoh_shm_advances z" shows "\<exists>y. PutShm z fb pub sz sq s = Some y"
proof -
  obtain ok w where "zs_alloc_blocking z (length (BuildSample fb sq sz)) (lk_env s) = Some (ok, w)"
    using assms unfolding zenoh_shm_advances_def by (metis not_Some_eq surj_pair)
  then show ?thesis by (simp add: PutShm_def on_env_block_def Let_def split: bool.split prod.split sum.split option.split)
qed

interpretation zb_live: one_way_live "PutShm z fb pub sz" "zb_get z fb sub" "NowNs (z_clock z)" "\<lambda>_. zenoh_shm_advances z"
  for z fb pub sub sz
proof
  show "\<exists>r s'. PutShm z fb pub sz sq s = Some (r, s') \<and> zenoh_shm_advances z" if "zenoh_shm_advances z" for sq s
    using PutShm_returns [OF that] that by fastforce
  show "\<exists>r s'. zb_get z fb sub sq s = Some (r, s') \<and> zenoh_shm_advances z" if "zenoh_shm_advances z" for sq s
    using RecvMatching_shm_returns [OF that, of fb sub sq 2000 False s] that by (auto simp: zb_get_def)
qed

lemma link_up_returns:
  assumes "zenoh_shm_advances z" shows "\<exists>y. link_up z fb pub sub sz require_shm is s = Some y"
proof (induction "is" arbitrary: s)
  case (Cons i "is")
  obtain r s1 where put: "PutShm z fb pub sz i s = Some (r, s1)" using PutShm_returns [OF assms] by fastforce
  obtain m s2 where "RecvMatching_shm z fb sub i 500 require_shm s1 = Some (m, s2)"
    using RecvMatching_shm_returns [OF assms] by fastforce
  then show ?case using put Cons.IH by (cases r; cases m) simp_all
qed simp

text \<open>Whatever the middleware does, both benchmarks return then: every receive loop has a deadline.\<close>

lemma recv_one_until_returns:
  assumes "zenoh_shm_advances z" shows "\<exists>y. recv_one_until z fb sub deadline wait_ns s = Some y"
proof -
  obtain tm where tm: "\<And>w. fst (z_clock z w) = tm w" "\<And>w. tm w < tm (snd (z_clock z w))"
    "\<And>w. tm w \<le> tm (snd (zs_recv z sub w))" "\<And>w. tm w \<le> tm (z_yield z w)"
    using assms unfolding zenoh_shm_advances_def by metis
  show ?thesis
  proof (induction "nat (deadline - tm (lk_env s))" arbitrary: s wait_ns rule: less_induct)
    case less
    obtain t s1 where c: "on_env (z_clock z) s = (t, s1)" by fastforce
    obtain w0 s2 where n0: "NowNs (z_clock z) s1 = (w0, s2)" by fastforce
    obtain w1 s3 where n1: "NowNs (z_clock z) (env_do (z_yield z) s2) = (w1, s3)" by fastforce
    obtain r s4 where rc: "on_env (zs_recv z sub) s3 = (r, s4)" by fastforce
    have t: "t = tm (lk_env s)" "tm (lk_env s) < tm (lk_env s1)" "tm (lk_env s1) < tm (lk_env s2)"
        "tm (lk_env s2) < tm (lk_env s3)" "tm (lk_env s3) \<le> tm (lk_env s4)"
      using c n0 n1 rc tm(1,2) [of "lk_env s"] tm(2) [of "lk_env s1"] tm(4) [of "lk_env s2"]
        tm(2) [of "z_yield z (lk_env s2)"] tm(3) [of "lk_env s3"]
      by (auto simp: on_env_def NowNs_def env_do_def split: prod.splits)
    have "\<exists>y. recv_one_until z fb sub deadline w s4 = Some y" if "t < deadline" for w
      using that t by (intro less) simp
    then show ?case
      by (subst recv_one_until.simps) (auto simp: c n0 n1 rc Let_def split: option.splits)
  qed
qed

lemma RecvOne_returns: "zenoh_shm_advances z \<Longrightarrow> \<exists>y. RecvOne z fb sub ms s = Some y"
  using recv_one_until_returns by (fastforce simp: RecvOne_def split: prod.splits option.splits)

lemma zb_iteration_returns:
  assumes "zenoh_shm_advances z" shows "zb_iteration z fb sub y s \<noteq> None"
proof -
  obtain stats lats stats1 s1 where "y = (stats, lats)" "zb_drain z fb sub 32 stats s = (stats1, s1)" by (metis surj_pair)
  moreover obtain f s2 where "RecvOne z fb sub 2000 s1 = Some (f, s2)" using RecvOne_returns [OF assms, of fb sub 2000 s1] by auto
  ultimately show ?thesis by (cases f) (simp_all add: zb_iteration_def Let_def split: prod.split)
qed

lemma or_throw_returns: "(\<And>a s. k a s \<noteq> None) \<Longrightarrow> or_throw f s k \<noteq> None"
  unfolding or_throw_def by (auto split: prod.split sum.split)

lemma linked_channel_returns:
  assumes "zenoh_shm_advances z" and k: "\<And>pub sub linked s. k pub sub linked s \<noteq> None"
  shows "linked_channel z fb fx key fifo reliable sz s k \<noteq> None"
proof -
  have linked: "when_linked z fb pub sub sz k s \<noteq> None" for pub sub s
  proof -
    obtain r s' where "WaitUntilLinked z fb pub sub sz s = Some (r, s')"
      using link_up_returns [OF assms(1)] by (fastforce simp: WaitUntilLinked_def)
    then show ?thesis using k by (cases r) (simp_all add: when_linked_def del: not_None_eq)
  qed
  have "or_throw f s (\<lambda>pub. when_linked z fb pub sub sz k) \<noteq> None" for f s sub
    by (rule or_throw_returns) (rule linked)
  then show ?thesis unfolding linked_channel_def
    by (cases "zf_pub_session fx") (simp_all add: or_throw_returns del: not_None_eq split: option.split)
qed

end
