(* ===== verification/Zenoh_Delivery.thy ===== *)
theory Zenoh_Delivery
  imports Zenoh_Bench
begin

text \<open>
  What the Zenoh benchmark of \<open>Zenoh_Bench\<close> does from its set-up on: what a set-up leaves behind,
  which faults are left after it, and that a ping-pong over a channel that delivers succeeds.
\<close>

section \<open>The set-up\<close>

definition only_got :: "link_event list \<Rightarrow> bool" where "only_got es \<longleftrightarrow> (\<forall>f n. Call f n \<notin> set es)"

lemma only_got_append [simp]: "only_got (es @ fs) \<longleftrightarrow> only_got es \<and> only_got fs"
  by (auto simp: only_got_def)

lemma only_got_simps [simp]: "only_got []" "only_got (map Got gs)" "only_got (Sent sq ns # es) \<longleftrightarrow> only_got es"
  by (auto simp: only_got_def)

lemma drain_pending_log: "drain_pending z sub s = Some s' \<Longrightarrow> lk_log s' = lk_log s"
proof (induction rule: drain_pending.raw_induct [rotated, consumes 1, case_names step])
  case (step rec z sub s s')
  then show ?case by (auto dest: on_env_log split: prod.splits option.splits)
qed

text \<open>The wait for a warm-up sample receives samples, the last of them the wanted one if it is found.\<close>

definition warms :: "u64 \<Rightarrow> 'w link \<Rightarrow> (string + bool) \<times> 'w link \<Rightarrow> bool" where
  "warms k s y \<longleftrightarrow> (\<exists>gs. lk_log (snd y) = lk_log s @ map Got gs \<and> (fst y = Inr True \<longrightarrow> gs \<noteq> [] \<and> last gs = k))"

lemma warms_after:
  assumes "warms k s1 y" and "lk_log s1 = lk_log s @ map Got gs"
  shows "warms k s y"
proof -
  obtain hs where "lk_log (snd y) = lk_log s1 @ map Got hs" "fst y = Inr True \<longrightarrow> hs \<noteq> [] \<and> last hs = k"
    using assms(1) by (auto simp: warms_def)
  then show ?thesis using assms(2) unfolding warms_def by (intro exI [of _ "gs @ hs"]) simp
qed

lemma warms_same: "warms k s1 y \<Longrightarrow> lk_log s1 = lk_log s \<Longrightarrow> warms k s y"
  using warms_after [of k s1 y s "[]"] by simp

lemma warm_wait_warms:
  assumes "warm_wait z fb sub k until s = Some y" shows "warms k s y"
  using assms
proof (induction rule: warm_wait.raw_induct [rotated, consumes 1, case_names step])
  case (step rec z fb sub k "until" s y)
  obtain t s1 where c: "on_env (z_clock z) s = (t, s1)" by fastforce
  obtain r s2 where rc: "on_env (zs_recv z sub) s1 = (r, s2)" by fastforce
  have l: "lk_log s1 = lk_log s" "lk_log s2 = lk_log s" using c rc by simp_all
  have stop: "warms k s (x, s')" if "x \<noteq> Inr True" "lk_log s' = lk_log s" for x s'
    using that by (simp add: warms_def)
  have hit: "warms k s (Inr True, note_event (Got k) s2)"
    using l by (auto simp: warms_def note_event_def intro!: exI [of _ "[k]"])
  have more: "warms k s y" if "rec z fb sub k until s' = Some y" "lk_log s' = lk_log s" for s'
    using step(1) [OF that(1)] that(2) by (rule warms_same)
  have skip: "warms k s y" if "rec z fb sub k until (note_event (Got g) s2) = Some y" for g
    by (rule warms_after [OF step(1) [OF that], where gs = "[g]"]) (simp add: note_event_def l(2))
  show ?case
    using step(2) c rc stop [OF _ l(1)] stop [OF _ l(2)] hit more [OF _ l(2)] more [of "env_do (z_thread_sleep z 1000000) s2"] l(2) skip
    by (auto simp: Let_def split: option.splits prod.splits if_splits)
qed

text \<open>A round logs no call; if it succeeds, it has received the sample it sent.\<close>

lemma warm_round_log:
  assumes "warm_round z fb pub sub k s = Some (r, s')"
  shows "\<exists>es. lk_log s' = lk_log s @ es \<and> only_got es \<and> (r = Inr True \<longrightarrow> (\<exists>ns. Sent k ns \<in> set es) \<and> last es = Got k)"
proof -
  let ?b = "BuildSample fb k 16"
  obtain ok s1 where al: "on_env (zs_alloc z (length ?b)) s = (ok, s1)" by fastforce
  obtain stamp s2 where st: "NowNs (z_clock z) s1 = (stamp, s2)" by fastforce
  have l: "lk_log s1 = lk_log s" "lk_log s2 = lk_log s" using al st by simp_all
  have same: ?thesis if "lk_log s' = lk_log s" "r \<noteq> Inr True" using that by simp
  have wait: ?thesis if pt: "on_env (zs_put_shm z pub b) s2 = (None, s3)"
    and n: "on_env (z_clock z) (note_event (Sent k stamp) s3) = (now, s4)"
    and w: "warm_wait z fb sub k until s4 = Some (r, s')" for b now "until" s3 s4
  proof -
    have "lk_log s4 = lk_log s @ [Sent k stamp]" using pt n l(2) by (simp add: note_event_def)
    moreover obtain gs where "lk_log s' = lk_log s4 @ map Got gs" "r = Inr True \<longrightarrow> gs \<noteq> [] \<and> last gs = k"
      using warm_wait_warms [OF w] by (auto simp: warms_def)
    ultimately show ?thesis by (intro exI [of _ "Sent k stamp # map Got gs"]) (auto simp: last_map)
  qed
  show ?thesis
    using assms al st l same wait
    by (auto simp: warm_round_def Let_def dest: on_env_log drain_pending_log split: if_splits sum.splits prod.splits option.splits)
qed

text \<open>A warm-up that succeeds ends with the sample it sent last.\<close>

definition warm_log :: "u64 \<Rightarrow> nat \<Rightarrow> bool \<Rightarrow> link_event list \<Rightarrow> bool" where
  "warm_log k n ok es \<longleftrightarrow> only_got es \<and>
     (ok \<longrightarrow> (\<exists>j ns. 1 \<le> j \<and> j \<le> n \<and> Sent (k + of_nat j) ns \<in> set es \<and> last es = Got (k + of_nat j)))"

lemma warm_log_next:
  assumes "warm_log (k + 1) n ok es" and "only_got ds"
  shows "warm_log k (Suc n) ok (ds @ es)"
proof (unfold warm_log_def, intro conjI impI)
  show "only_got (ds @ es)" using assms by (simp add: warm_log_def)
  assume ok
  then obtain j ns where j: "1 \<le> j" "j \<le> n" "Sent (k + of_nat (Suc j)) ns \<in> set es" "last es = Got (k + of_nat (Suc j))"
    using assms(1) by (auto simp: warm_log_def add.assoc)
  then have "last (ds @ es) = Got (k + of_nat (Suc j))" by (cases es) simp_all
  then show "\<exists>j ns. 1 \<le> j \<and> j \<le> Suc n \<and> Sent (k + of_nat j) ns \<in> set (ds @ es) \<and> last (ds @ es) = Got (k + of_nat j)"
    using j by (intro exI [of _ "Suc j"] exI [of _ ns]) (simp del: of_nat_Suc)
qed

lemma warm_rounds_log:
  assumes "warm_rounds z fb pub sub deadline n k s = Some (r, s')"
  shows "\<exists>es. lk_log s' = lk_log s @ es \<and> warm_log k n (r = Inr True) es"
  using assms
proof (induction n arbitrary: k s)
  case 0
  then show ?case by (cases "on_env (z_clock z) s") (auto simp: warm_log_def)
next
  case (Suc n)
  obtain t s1 where c: "on_env (z_clock z) s = (t, s1)" by fastforce
  then have l: "lk_log s1 = lk_log s" by simp
  show ?case
  proof (cases "t < deadline")
    case False
    then show ?thesis using Suc.prems c l by (auto simp: warm_log_def)
  next
    case True
    obtain r1 s2 where w: "warm_round z fb pub sub (k + 1) s1 = Some (r1, s2)"
      using Suc.prems c True by (auto simp: Let_def split: option.splits)
    obtain ds where ds: "lk_log s2 = lk_log s @ ds" "only_got ds"
      "r1 = Inr True \<longrightarrow> (\<exists>ns. Sent (k + 1) ns \<in> set ds) \<and> last ds = Got (k + 1)"
      using warm_round_log [OF w] l by auto
    show ?thesis
    proof (cases "r1 = Inr False")
      case True
      then have "warm_rounds z fb pub sub deadline n (k + 1) s2 = Some (r, s')"
        using Suc.prems c \<open>t < deadline\<close> w by (simp add: Let_def)
      from Suc.IH [OF this] obtain es where "lk_log s' = lk_log s2 @ es" "warm_log (k + 1) n (r = Inr True) es" by blast
      then show ?thesis using ds warm_log_next [of k n _ es ds] by auto
    next
      case False
      then have "r = r1" "s' = s2" using Suc.prems c \<open>t < deadline\<close> w by (simp_all add: Let_def)
      then show ?thesis using ds unfolding warm_log_def by (intro exI [of _ ds]) (auto intro!: exI [of _ "1 :: nat"])
    qed
  qed
qed

lemma pick_port_log:
  assumes "pick_port z dgram any pre s = (r, s')"
  shows "\<exists>fds. lk_log s' = lk_log s @ concat (map (\<lambda>fd. [Call ''open'' fd, Call ''close'' fd]) fds) \<and> length fds \<le> 1"
proof -
  obtain fd s1 where so: "on_env (zs_socket z dgram) s = (fd, s1)" by fastforce
  obtain ok s2 where b: "on_env (zs_bind z fd any) (note_event (Call ''open'' fd) s1) = (ok, s2)" by fastforce
  obtain p s3 where g: "on_env (zs_getsockname z fd) s2 = (p, s3)" by fastforce
  have l: "lk_log s1 = lk_log s" "lk_log s2 = lk_log s @ [Call ''open'' fd]" "lk_log s3 = lk_log s @ [Call ''open'' fd]"
    using so b g by (simp_all add: note_event_def)
  have "lk_log s' = lk_log s \<or> lk_log s' = lk_log s @ [Call ''open'' fd, Call ''close'' fd]"
    using assms so b g l by (auto simp: pick_port_def Let_def split: if_splits option.splits)
  then show ?thesis by (elim disjE) (auto intro: exI [of _ "[]"] exI [of _ "[fd]"])
qed

lemma Warmup_log:
  assumes "Warmup z fb pub_session sub_session s = Some (r, s')"
  shows "\<exists>es. lk_log s' = lk_log s @ es \<and> warm_log 0 64 (r = Inr ()) es"
proof -
  have stop: ?thesis if "lk_log s' = lk_log s" "r = Inl f" for f using that by (simp add: warm_log_def)
  have rounds: ?thesis if l: "lk_log s2 = lk_log s" and c: "on_env (z_clock z) s2 = (t, s3)"
    and w: "warm_rounds z fb pub sub d 64 0 s3 = Some (r1, s')" and "r = Inr () \<longleftrightarrow> r1 = Inr True" for s2 t s3 pub sub d r1
    using warm_rounds_log [OF w] on_env_log [OF c] l that(4) by simp
  show ?thesis
  proof (cases "z_key z kKey")
    case None
    then have "or_throw (MakePublisher z pub_session kKey True) s (\<lambda>pub s. or_throw (MakeSubscriber z sub_session kKey 16) s (\<lambda>sub s.
        case on_env (z_clock z) s of (now, s) \<Rightarrow>
        case warm_rounds z fb pub sub (now + 5000000000) 64 0 s of
          None \<Rightarrow> None
        | Some (Inl m, s) \<Rightarrow> Some (Inl (Thrown m), s)
        | Some (Inr False, s) \<Rightarrow> Some (Inl (Thrown ''warmup put/sub timed out''), s)
        | Some (Inr True, s) \<Rightarrow> Some (Inr (), s))) = Some (r, s')"
      using assms by (simp add: Warmup_def)
    then show ?thesis
    proof (rule or_throw_cases, goal_cases)
      case (1 m)
      then show ?thesis using stop by blast
    next
      case (2 pub s1)
      from 2(2) show ?thesis
      proof (rule or_throw_cases, goal_cases)
        case (1 m)
        then show ?thesis using stop 2(1) by simp
      next
        case (2 sub s2)
        obtain t s3 where c: "on_env (z_clock z) s2 = (t, s3)" by fastforce
        obtain r1 s4 where w: "warm_rounds z fb pub sub (t + 5000000000) 64 0 s3 = Some (r1, s4)"
          using 2(2) c by (auto split: option.splits)
        then have "s4 = s'" "r = Inr () \<longleftrightarrow> r1 = Inr True" using 2(2) c by (auto split: sum.splits bool.splits)
        then show ?thesis using rounds [OF _ c] w 2(1) \<open>lk_log s1 = lk_log s\<close> by metis
      qed
    qed
  qed (use assms in \<open>auto simp: Warmup_def warm_log_def\<close>)
qed

text \<open>Once started, a fixture has its sessions and its provider.\<close>

definition zenoh_fixture_ok :: "ZenohShmFixture \<Rightarrow> bool" where
  "zenoh_fixture_ok fx \<longleftrightarrow>
     (zf_started fx \<longrightarrow> zf_pub_session fx \<noteq> None \<and> zf_sub_session fx \<noteq> None \<and> zf_provider fx)"

definition fd_pairs :: "int list \<Rightarrow> link_event list" where
  "fd_pairs fds = concat (map (\<lambda>fd. [Call ''open'' fd, Call ''close'' fd]) fds)"

lemma SetUp_zenoh_log:
  assumes "SetUp_zenoh z fb fx s = Some ((r, fx'), s')" and "\<not> zf_started fx"
  shows "(\<exists>fds es. lk_log s' = lk_log s @ fd_pairs fds @ es \<and> warm_log 0 64 (r = Inr ()) es) \<and>
    (zf_started fx' \<longleftrightarrow> r = Inr ()) \<and> zenoh_fixture_ok fx'"
proof -
  obtain pt s1 where pp: "PickFreePort z s = (pt, s1)" by fastforce
  obtain fds where l1: "lk_log s1 = lk_log s @ fd_pairs fds"
    using pick_port_log [OF pp [unfolded PickFreePort_def]] by (auto simp: fd_pairs_def)
  have stop: ?thesis if "lk_log s' = lk_log s1" "isl r" "\<not> zf_started fx'"
    using that l1 by (intro conjI exI [of _ fds] exI [of _ "[]"]) (auto simp: warm_log_def zenoh_fixture_ok_def)
  have warm: ?thesis if w: "Warmup z fb p q s2 = Some (r, s')" and l: "lk_log s2 = lk_log s1"
    and f: "fx' = (let f = fx\<lparr>zf_pub_session := Some p, zf_sub_session := Some q, zf_provider := True\<rparr> in
      if r = Inr () then f\<lparr>zf_started := True\<rparr> else f)" for p q s2
  proof -
    obtain es where "lk_log s' = lk_log s2 @ es" "warm_log 0 64 (r = Inr ()) es" using Warmup_log [OF w] by blast
    then show ?thesis using l l1 f assms(2)
      by (intro conjI exI [of _ fds] exI [of _ es]) (auto simp: zenoh_fixture_ok_def Let_def)
  qed
  show ?thesis
    using assms pp stop warm
    by (auto simp: SetUp_zenoh_def Let_def dest!: on_env_log split: sum.splits prod.splits option.splits)
qed

text \<open>With the sessions of a fixture that was set up, only an exception ends a benchmark.\<close>

lemma PutShm_throws: "PutShm z fb pub sz sq s = Some (Inl f, s') \<Longrightarrow> \<exists>m. f = Thrown m"
  by (auto simp: PutShm_def Let_def split: option.splits prod.splits bool.splits sum.splits)

lemma link_up_throws: "link_up z fb pub sub sz rs is s = Some (Inl f, s') \<Longrightarrow> \<exists>m. f = Thrown m"
  by (induction "is" arbitrary: s) (auto dest: PutShm_throws split: option.splits sum.splits)

lemma zenoh_rounds_throw:
  assumes "one_way_rounds (PutShm z fb pub sz) recv clock n sq lats s = Some (Inl f, s')"
  shows "\<exists>m. f = Thrown m"
  using assms
proof (induction n arbitrary: sq lats s)
  case (Suc n)
  then show ?case by (auto simp: Let_def dest: PutShm_throws split: option.splits sum.splits prod.splits)
qed simp

lemma linked_channel_throws:
  assumes "linked_channel z fb fx key fifo reliable sz s k = Some (Inl f, s')"
    and "zf_pub_session fx \<noteq> None" and "zf_sub_session fx \<noteq> None"
    and "\<And>pub sub linked s1. k pub sub linked s1 = Some (Inl f, s') \<Longrightarrow> \<exists>m. f = Thrown m"
  shows "\<exists>m. f = Thrown m"
proof -
  have w: "\<exists>m. f = Thrown m" if "when_linked z fb pub sub sz k s1 = Some (Inl f, s')" for pub sub s1
    using that assms(4) by (auto simp: when_linked_def WaitUntilLinked_def Let_def dest: link_up_throws
      split: option.splits sum.splits if_splits)
  show ?thesis
    using assms(1-3) unfolding linked_channel_def
    by (auto elim!: or_throw_cases dest: w split: option.splits)
qed

section \<open>A channel that delivers\<close>

text \<open>
  What is put on an empty channel is the next sample received from it, as shared memory; \<open>tm\<close> is
  the time of a world and \<open>q\<close> what waits to be received in it.
\<close>

definition zenoh_shm_loopback :: "'w zenoh_shm \<Rightarrow> int \<Rightarrow> int \<Rightarrow> ('w \<Rightarrow> int) \<Rightarrow> ('w \<Rightarrow> bytes list) \<Rightarrow> bool" where
  "zenoh_shm_loopback z sub pub tm q \<longleftrightarrow>
     close_clock (z_clock z) tm q \<and>
     (\<forall>w n. q w = [] \<longrightarrow> (\<exists>w'. zs_alloc_blocking z n w = Some (True, w') \<and> q w' = [])) \<and>
     (\<forall>w b. q w = [] \<longrightarrow> (\<exists>w'. zs_put_shm z pub b w = (None, w') \<and> q w' = [b])) \<and>
     (\<forall>w b. q w = [b] \<longrightarrow> (\<exists>w'. zs_recv z sub w = (Some \<lparr>ss_shm = Some b, ss_vector = b\<rparr>, w') \<and> q w' = []))"

text \<open>The handles of a benchmark, given on every request.\<close>

definition zenoh_handles :: "'w zenoh_shm \<Rightarrow> int \<Rightarrow> int \<Rightarrow> bool" where
  "zenoh_handles z sub pub \<longleftrightarrow>
     (\<forall>key. z_key z key = None) \<and>
     (\<forall>session key fifo opts w. z_declare_subscriber z session key fifo opts w = (Inr sub, w)) \<and>
     (\<forall>session key opts w. z_declare_publisher z session key opts w = (Inr pub, w))"

lemma loopback_put:
  assumes fb: "flatbuffer_laws fb" and lo: "zenoh_shm_loopback z sub pub tm q" and "q (lk_env s) = []"
  shows "\<exists>s' ns b. PutShm z fb pub sz sq s = Some (Inr None, s') \<and> q (lk_env s') = [b] \<and>
    ReadSampleMeta fb (Some b) (length b) = Some (sq, ns) \<and> lk_log s' = lk_log s @ [Sent sq ns]"
proof -
  have cl: "close_clock (z_clock z) tm q" using lo by (simp add: zenoh_shm_loopback_def)
  obtain w1 where w1: "zs_alloc_blocking z (length (BuildSample fb sq sz)) (lk_env s) = Some (True, w1)" "q w1 = []"
    using lo assms(3) unfolding zenoh_shm_loopback_def by blast
  obtain s2 where s2: "on_env (z_clock z) (s\<lparr>lk_env := w1\<rparr>) = (tm w1, s2)" "q (lk_env s2) = []"
    using close_clock_env [OF cl, of "s\<lparr>lk_env := w1\<rparr>"] w1(2) by auto
  define ns where "ns = (word_of_int (tm w1) :: u64)"
  obtain b where b: "StampSample fb ns (BuildSample fb sq sz) = Inr b" "ReadSampleMeta fb (Some b) (length b) = Some (sq, ns)"
    using stamped_sample [OF fb] by blast
  obtain w3 where w3: "zs_put_shm z pub b (lk_env s2) = (None, w3)" "q w3 = [b]"
    using lo s2(2) unfolding zenoh_shm_loopback_def by blast
  have "PutShm z fb pub sz sq s = Some (Inr None, note_event (Sent sq ns) (s2\<lparr>lk_env := w3\<rparr>))"
    using w1(1) s2(1) b(1) w3(1) by (simp add: PutShm_def on_env_block_def NowNs_def on_env_def Let_def ns_def split: prod.splits)
  moreover have "lk_log s2 = lk_log s" using on_env_log [OF s2(1)] by simp
  ultimately show ?thesis
    using w3(2) b(2) by (intro exI [of _ "note_event (Sent sq ns) (s2\<lparr>lk_env := w3\<rparr>)"] exI [of _ ns] exI [of _ b]) (simp add: note_event_def)
qed

lemma loopback_recv:
  assumes lo: "zenoh_shm_loopback z sub pub tm q" and "q (lk_env s) = [b]" and "200 \<le> ms"
    and m: "ReadSampleMeta fb (Some b) (length b) = Some (sq, ns)"
  shows "\<exists>s'. RecvMatching_shm z fb sub sq ms require_shm s = Some (Some ns, s') \<and> q (lk_env s') = [] \<and> lk_log s' = lk_log s @ [Got sq]"
proof -
  have cl: "close_clock (z_clock z) tm q" using lo by (simp add: zenoh_shm_loopback_def)
  obtain s1 where s1: "on_env (z_clock z) s = (tm (lk_env s), s1)" "tm (lk_env s1) < tm (lk_env s) + 200000000" "q (lk_env s1) = [b]"
    using close_clock_env [OF cl, of s] assms(2) by metis
  obtain s2 where s2: "on_env (z_clock z) s1 = (tm (lk_env s1), s2)" "q (lk_env s2) = [b]"
    using close_clock_env [OF cl, of s1] s1(3) by metis
  obtain w where w: "zs_recv z sub (lk_env s2) = (Some \<lparr>ss_shm = Some b, ss_vector = b\<rparr>, w)" "q w = []"
    using lo s2(2) unfolding zenoh_shm_loopback_def by blast
  then have "on_env (zs_recv z sub) s2 = (Some \<lparr>ss_shm = Some b, ss_vector = b\<rparr>, s2\<lparr>lk_env := w\<rparr>)" by (simp add: on_env_def)
  moreover have "tm (lk_env s1) < tm (lk_env s) + ms * 1000000" using s1(2) assms(3) by simp
  ultimately have "RecvMatching_shm z fb sub sq ms require_shm s = Some (Some ns, note_event (Got sq) (s2\<lparr>lk_env := w\<rparr>))"
    using s1(1) s2(1) m by (simp add: RecvMatching_shm_def matching_until.simps PayloadMeta_def Let_def)
  moreover have "lk_log s2 = lk_log s" using s1(1) s2(1) by simp
  ultimately show ?thesis using w(2) by (simp add: note_event_def)
qed

interpretation zb_channel: one_way_channel "PutShm z fb pub sz" "zb_get z fb sub" "NowNs (z_clock z)" lk_log "\<lambda>sq. sq \<noteq> 0"
  "\<lambda>s. flatbuffer_laws fb \<and> zenoh_shm_loopback z sub pub tm q \<and> q (lk_env s) = []"
  for z fb pub sub sz tm q
proof
  fix s :: "'a link" and sq :: u64
  assume i: "flatbuffer_laws fb \<and> zenoh_shm_loopback z sub pub tm q \<and> q (lk_env s) = []"
  obtain s1 ns b where put: "PutShm z fb pub sz sq s = Some (Inr None, s1)" "q (lk_env s1) = [b]"
    "ReadSampleMeta fb (Some b) (length b) = Some (sq, ns)" "lk_log s1 = lk_log s @ [Sent sq ns]"
    using loopback_put [of fb z sub pub tm q s] i by blast
  obtain s2 where "RecvMatching_shm z fb sub sq 2000 False s1 = Some (Some ns, s2)" "q (lk_env s2) = []" "lk_log s2 = lk_log s1 @ [Got sq]"
    using loopback_recv [of z sub pub tm q s1 b 2000 fb sq ns False] i put(2,3) by auto
  then show "\<exists>s' s'' ns. PutShm z fb pub sz sq s = Some (Inr None, s') \<and> zb_get z fb sub sq s' = Some (Inr ns, s'') \<and>
      lk_log s'' = lk_log s @ [Sent sq ns, Got sq] \<and>
      flatbuffer_laws fb \<and> zenoh_shm_loopback z sub pub tm q \<and> q (lk_env s'') = []"
    using put i by (intro exI [of _ s1] exI [of _ s2] exI [of _ ns]) (simp add: zb_get_def)
  obtain s3 where "on_env (z_clock z) s = (tm (lk_env s), s3)" "q (lk_env s3) = q (lk_env s)"
    using close_clock_env [of "z_clock z" tm q s] i unfolding zenoh_shm_loopback_def by metis
  then show "flatbuffer_laws fb \<and> zenoh_shm_loopback z sub pub tm q \<and> q (lk_env (snd (NowNs (z_clock z) s))) = []"
    using i by (simp add: NowNs_def)
qed

lemma loopback_links:
  assumes "flatbuffer_laws fb" and "zenoh_shm_loopback z sub pub tm q" and "q (lk_env s) = []"
  shows "\<exists>s' ns. WaitUntilLinked z fb pub sub sz s = Some (Inr 1, s') \<and> q (lk_env s') = [] \<and> lk_log s' = lk_log s @ [Sent 1 ns, Got 1]"
proof -
  obtain s1 ns b where put: "PutShm z fb pub sz 1 s = Some (Inr None, s1)" "q (lk_env s1) = [b]"
    "ReadSampleMeta fb (Some b) (length b) = Some (1, ns)" "lk_log s1 = lk_log s @ [Sent 1 ns]"
    using loopback_put [OF assms] by blast
  obtain s2 where r: "RecvMatching_shm z fb sub 1 500 (4096 \<le> sz) s1 = Some (Some ns, s2)" "q (lk_env s2) = []" "lk_log s2 = lk_log s1 @ [Got 1]"
    using loopback_recv [OF assms(2) put(2) _ put(3), of 500 "4096 \<le> sz"] by auto
  have "map (\<lambda>i. of_nat (i + 1)) [0..<if 256 * 1024 < sz then 4 else 32] = (1 :: u64) # map (\<lambda>i. of_nat (i + 1)) [1..<if 256 * 1024 < sz then 4 else 32]"
    by (subst upt_conv_Cons) simp_all
  then show ?thesis using put r by (simp add: WaitUntilLinked_def Let_def)
qed

section \<open>A concrete Zenoh\<close>

text \<open>The clock ticks at every reading; what is put waits in a queue. Without \<open>shm\<close> the blocking allocation fails.\<close>

definition demo_zenoh_shm :: "bool \<Rightarrow> (int \<times> bytes list) zenoh_shm" where
  "demo_zenoh_shm shm = \<lparr>
     z_clock = (\<lambda>(t, q). (t, (t + 1, q))), z_thread_sleep = (\<lambda>ns w. w), z_yield = (\<lambda>w. w),
     z_config = (\<lambda>c. None), z_key = (\<lambda>k. None), z_open = (\<lambda>c w. (Inr 1, w)),
     z_declare_subscriber = (\<lambda>session key fifo opts w. (Inr 2, w)),
     z_declare_publisher = (\<lambda>session key opts w. (Inr 3, w)),
     z_put = (\<lambda>pub b w. (None, w)), z_try_recv = (\<lambda>sub w. (None, w)),
     zs_socket = (\<lambda>dgram w. (7, w)), zs_bind = (\<lambda>fd any w. (True, w)), zs_getsockname = (\<lambda>fd w. (Some 40001, w)),
     zs_close = (\<lambda>fd w. w), zs_provider = (\<lambda>n align w. (None, w)), zs_alloc = (\<lambda>n w. (True, w)),
     zs_alloc_blocking = (\<lambda>n w. Some (shm, w)), zs_put_shm = (\<lambda>pub b (t, q). (None, (t, q @ [b]))),
     zs_recv = (\<lambda>sub (t, q). case q of [] \<Rightarrow> (None, (t, [])) | b # bs \<Rightarrow> (Some \<lparr>ss_shm = Some b, ss_vector = b\<rparr>, (t, bs)))\<rparr>"

lemma demo_zenoh_shm_laws:
  "zenoh_shm_loopback (demo_zenoh_shm True) 2 3 fst snd" "zenoh_handles (demo_zenoh_shm shm) 2 3" "zenoh_shm_advances (demo_zenoh_shm shm)"
proof -
  show "zenoh_shm_loopback (demo_zenoh_shm True) 2 3 fst snd"
    by (auto simp: zenoh_shm_loopback_def close_clock_def demo_zenoh_shm_def)
  show "zenoh_handles (demo_zenoh_shm shm) 2 3" by (simp add: zenoh_handles_def demo_zenoh_shm_def)
  show "zenoh_shm_advances (demo_zenoh_shm shm)"
    by (auto simp: zenoh_shm_advances_def demo_zenoh_shm_def split: list.splits intro!: exI [of _ fst])
qed

definition demo_zenoh_fixture :: ZenohShmFixture where
  "demo_zenoh_fixture = \<lparr>zf_started = True, zf_pub_session = Some 1, zf_sub_session = Some 1, zf_provider = True\<rparr>"

lemma demo_warm_round:
  "\<exists>s'. warm_round (demo_zenoh_shm shm) demo_fb 3 2 k \<lparr>lk_env = (t, []), lk_log = es\<rparr> = Some (Inr True, s')"
proof -
  let ?z = "demo_zenoh_shm shm" and ?ns = "word_of_int t :: u64"
  have clock: "on_env (z_clock ?z) \<lparr>lk_env = (t, q), lk_log = es\<rparr> = (t, \<lparr>lk_env = (t + 1, q), lk_log = es\<rparr>)" for t q es
    by (simp add: demo_zenoh_shm_def on_env_def)
  obtain b where b: "StampSample demo_fb ?ns (BuildSample demo_fb k 16) = Inr b"
    "ReadSampleMeta demo_fb (Some b) (length b) = Some (k, ?ns)"
    using stamped_sample [OF demo_fb_laws] by blast
  have calls: "on_env (zs_alloc ?z n) s = (True, s)"
    "on_env (zs_put_shm ?z 3 b) \<lparr>lk_env = (t, []), lk_log = es\<rparr> = (None, \<lparr>lk_env = (t, [b]), lk_log = es\<rparr>)"
    "on_env (zs_recv ?z 2) \<lparr>lk_env = (t, [b]), lk_log = es\<rparr> =
      (Some \<lparr>ss_shm = Some b, ss_vector = b\<rparr>, \<lparr>lk_env = (t, []), lk_log = es\<rparr>)" for n s t es
    by (simp_all add: demo_zenoh_shm_def on_env_def)
  show ?thesis
    using b by (simp add: warm_round_def NowNs_def clock calls note_event_def Let_def)
      (subst warm_wait.simps, simp add: clock calls Let_def)
qed

lemma demo_set_up_zenoh:
  "\<exists>s'. SetUp_zenoh (demo_zenoh_shm shm) demo_fb new_zenoh_fixture \<lparr>lk_env = (0, []), lk_log = []\<rparr> =
     Some ((Inr (), demo_zenoh_fixture), s')"
proof -
  let ?z = "demo_zenoh_shm shm" and ?es = "[Call ''open'' 7, Call ''close'' 7]"
  have pp: "PickFreePort ?z \<lparr>lk_env = (0, []), lk_log = []\<rparr> = (Inr 40001, \<lparr>lk_env = (0, []), lk_log = ?es\<rparr>)"
    by (simp add: PickFreePort_def pick_port_def close_fd_def demo_zenoh_shm_def on_env_def env_do_def note_event_def Let_def)
  have calls: "on_env (open_session ?z config) s = (Inr 1, s)" "on_env (zs_provider ?z n a) s = (None, s)"
    "env_do (z_thread_sleep ?z m) s = s" "on_env (MakePublisher ?z p key rel) s = (Inr 3, s)"
    "on_env (MakeSubscriber ?z p key fifo) s = (Inr 2, s)" "z_key ?z key = None" for config s n a m p key rel fifo
    by (simp_all add: open_session_def MakePublisher_def MakeSubscriber_def demo_zenoh_shm_def on_env_def env_do_def)
  have clock: "on_env (z_clock ?z) \<lparr>lk_env = (t, q), lk_log = es\<rparr> = (t, \<lparr>lk_env = (t + 1, q), lk_log = es\<rparr>)" for t q es
    by (simp add: demo_zenoh_shm_def on_env_def)
  obtain s' where "warm_round ?z demo_fb 3 2 1 \<lparr>lk_env = (1 + 1, []), lk_log = ?es\<rparr> = Some (Inr True, s')"
    using demo_warm_round by blast
  then have "warm_rounds ?z demo_fb 3 2 5000000000 (Suc 63) 0 \<lparr>lk_env = (1, []), lk_log = ?es\<rparr> = Some (Inr True, s')"
    by (simp only: warm_rounds.simps) (simp add: clock)
  then have "Warmup ?z demo_fb 1 1 \<lparr>lk_env = (0, []), lk_log = ?es\<rparr> = Some (Inr (), s')"
    by (simp add: Warmup_def calls or_throw_def clock del: warm_rounds.simps)
  then show ?thesis
    by (simp add: SetUp_zenoh_def pp calls new_zenoh_fixture_def demo_zenoh_fixture_def Let_def)
qed

lemma RunPingPong_zenoh_set_up:
  assumes "zenoh_handles z sub pub" and "zf_pub_session fx \<noteq> None" and "zf_sub_session fx \<noteq> None"
  shows "RunPingPong_zenoh z fb fx reliable sz state_addr n s = when_linked z fb pub sub sz (\<lambda>pub sub seq s.
    map_option (\<lambda>(r, s). (map_sum id reported_counters r, s))
      (one_way_rounds (PutShm z fb pub sz) (zb_get z fb sub) (NowNs (z_clock z)) n seq [] s)) s"
proof -
  have "on_env (MakeSubscriber z p key fifo) s = (Inr sub, s)" "on_env (MakePublisher z p key rel) s = (Inr pub, s)" "z_key z key = None"
    for p key fifo rel s
    using assms(1) by (simp_all add: zenoh_handles_def MakeSubscriber_def MakePublisher_def on_env_def)
  then show ?thesis using assms(2,3) by (auto simp: RunPingPong_zenoh_def linked_channel_def or_throw_def)
qed

lemma zenoh_pingpong_delivers:
  assumes "flatbuffer_laws fb" and "zenoh_handles z sub pub" and "zenoh_shm_loopback z sub pub tm q" and "q (lk_env s) = []"
    and "zf_pub_session fx \<noteq> None" and "zf_sub_session fx \<noteq> None"
  shows "\<exists>s' ns0 nss nows. RunPingPong_zenoh z fb fx reliable sz state_addr n s =
      Some (Inr (None, ReportLatencyCounters Map.empty (map2 OneWayLatencySec nss nows)), s') \<and>
    length nss = n \<and> length nows = n \<and>
    lk_log s' = lk_log s @ [Sent 1 ns0, Got 1] @ concat (map2 (\<lambda>k ns. [Sent (2 + of_nat k) ns, Got (2 + of_nat k)]) [0..<n] nss)"
proof -
  obtain s1 ns0 where l: "WaitUntilLinked z fb pub sub sz s = Some (Inr 1, s1)" "q (lk_env s1) = []" "lk_log s1 = lk_log s @ [Sent 1 ns0, Got 1]"
    using loopback_links [OF assms(1,3,4)] by blast
  have idle: "flatbuffer_laws fb \<and> zenoh_shm_loopback z sub pub tm q \<and> q (lk_env s1) = []" using assms(1,3) l(2) by simp
  obtain s' nss nows where r: "one_way_rounds (PutShm z fb pub sz) (zb_get z fb sub) (NowNs (z_clock z)) n 1 [] s1 =
      Some (Inr (None, map2 OneWayLatencySec nss nows), s')" "length nss = n" "length nows = n"
    "lk_log s' = lk_log s1 @ concat (map2 (\<lambda>k ns. [Sent (2 + of_nat k) ns, Got (2 + of_nat k)]) [0..<n] nss)"
    using zb_channel.rounds_delivered [OF idle, of sz n 1 "[]"] by auto
  have "RunPingPong_zenoh z fb fx reliable sz state_addr n s =
      Some (Inr (None, ReportLatencyCounters Map.empty (map2 OneWayLatencySec nss nows)), s')"
    unfolding RunPingPong_zenoh_set_up [OF assms(2,5,6)] using l(1) r(1) by (simp add: when_linked_def reported_counters_def)
  then show ?thesis using r(2-4) l(3) by auto
qed

lemma demo_zenoh_pingpong:
  "\<exists>lats s'. RunPingPong_zenoh (demo_zenoh_shm True) demo_fb demo_zenoh_fixture True 4096 64 n \<lparr>lk_env = (0, []), lk_log = es\<rparr> =
     Some (Inr (None, ReportLatencyCounters Map.empty lats), s')"
  using zenoh_pingpong_delivers [OF demo_fb_laws demo_zenoh_shm_laws(2,1), of "\<lparr>lk_env = (0, []), lk_log = es\<rparr>" demo_zenoh_fixture True 4096 64 n]
  by (auto simp: demo_zenoh_fixture_def)

lemma zenoh_iterations_record_every_take:
  assumes "RunMtOneWay_zenoh z fb fx reliable sz state_addr n s = Some (Inr (None, r), s')"
  shows "\<exists>probes gs lats stats. lk_log s' = lk_log s @ probes @ [Call ''thread'' 1] @ map Got gs @ [Call ''join'' 1] \<and>
    n \<le> length gs \<and> length gs \<le> 33 * n \<and> length lats = n \<and> mt_n stats = of_nat (length gs) \<and>
    r = rbind (ReportLatencyCounters Map.empty lats) (\<lambda>cs. Inr (Report cs stats))"
proof -
  obtain sub s1 es where b: "mt_benchmark (zb_iteration z fb sub) n s1 = Some (Inr (None, r), s')" and l: "lk_log s1 = lk_log s @ es"
    using linked_channel_ok [OF assms [unfolded RunMtOneWay_zenoh_def]] by blast
  show ?thesis using zb_mt.benchmark_takes [OF b] l by auto
qed

section \<open>Properties\<close>

text \<open>
  On a channel that delivers what is put on it, a Zenoh ping-pong neither throws nor ends
  early: one probe links it, and it measures all \<open>n\<close> iterations, each from the stamp of its own
  sample, with numbers that go on from the probe's.
\<close>

theorem zenoh_pingpong_succeeds:
  assumes "flatbuffer_laws fb" and "zenoh_handles z sub pub" and "zenoh_shm_loopback z sub pub tm q" and "q (lk_env s) = []"
    and "zf_pub_session fx \<noteq> None" and "zf_sub_session fx \<noteq> None"
  shows "\<exists>s' ns0 nss nows. RunPingPong_zenoh z fb fx reliable sz state_addr n s =
      Some (Inr (None, ReportLatencyCounters Map.empty (map2 OneWayLatencySec nss nows)), s') \<and>
    length nss = n \<and> length nows = n \<and>
    lk_log s' = lk_log s @ [Sent 1 ns0, Got 1] @ concat (map2 (\<lambda>k ns. [Sent (2 + of_nat k) ns, Got (2 + of_nat k)]) [0..<n] nss)"
  using zenoh_pingpong_delivers [OF assms] .

lemma zenoh_pingpong_succeeds_witness:
  "\<exists>s' nss nows. RunPingPong_zenoh (demo_zenoh_shm True) demo_fb demo_zenoh_fixture True 4096 64 3 \<lparr>lk_env = (0, []), lk_log = []\<rparr> =
      Some (Inr (None, ReportLatencyCounters Map.empty (map2 OneWayLatencySec nss nows)), s') \<and> length nss = 3 \<and> length nows = 3"
  using zenoh_pingpong_succeeds [OF demo_fb_laws demo_zenoh_shm_laws(2,1), of "\<lparr>lk_env = (0, []), lk_log = []\<rparr>" demo_zenoh_fixture True 4096 64 3]
  by (auto simp: demo_zenoh_fixture_def)

text \<open>
  C39. A Zenoh ping-pong that reports \<open>n\<close> iterations without an error has linked with one of at
  most 32 probes, and has then put the \<open>n\<close> numbers after the probe's, each received back before
  the next is put; it reports the statistics of exactly \<open>n\<close> latencies.
\<close>

theorem zenoh_pingpong_measures_every_round:
  assumes "RunPingPong_zenoh z fb fx reliable sz state_addr n s = Some (Inr (None, r), s')" and "n < 2 ^ 63"
  shows "\<exists>linked probes rounds lats. unat linked \<in> {1..32} \<and> probes \<noteq> [] \<and> last probes = Got linked \<and>
    map fst rounds = map (\<lambda>k. linked + 1 + of_nat k) [0..<n] \<and> length lats = n \<and>
    lk_log s' = lk_log s @ probes @ concat (map ping_events rounds) \<and> r = ReportLatencyCounters Map.empty lats"
proof -
  obtain pub sub linked s1 es where k: "map_option (\<lambda>(r, s). (map_sum id reported_counters r, s))
      (one_way_rounds (PutShm z fb pub sz) (zb_get z fb sub) (NowNs (z_clock z)) n linked [] s1) = Some (Inr (None, r), s')"
    and l: "lk_log s1 = lk_log s @ es" "es \<noteq> []" "last es = Got linked" "linked \<noteq> 0" "unat linked \<le> 32"
    using linked_channel_ok [OF assms(1) [unfolded RunPingPong_zenoh_def]] by blast
  obtain r1 where o1: "one_way_rounds (PutShm z fb pub sz) (zb_get z fb sub) (NowNs (z_clock z)) n linked [] s1 = Some (r1, s')"
    and r1: "map_sum id reported_counters r1 = Inr (None, r)" using k by auto
  obtain lats where e: "r1 = Inr (None, lats)" and r: "r = ReportLatencyCounters Map.empty lats"
    using r1 by (cases r1) (auto simp: reported_counters_def split: prod.splits)
  note o = o1 [unfolded e]
  have nz: "linked + 1 + of_nat k \<noteq> 0" if "k < n" for k
  proof -
    have "linked + 1 + of_nat k = (of_nat (unat linked + 1 + k) :: u64)" by simp
    moreover have "unat (of_nat (unat linked + 1 + k) :: u64) = unat linked + 1 + k"
      using that assms(2) l(5) by (simp only: unat_of_nat) simp
    ultimately show ?thesis by (metis add_gr_0 less_numeral_extra(1) less_numeral_extra(3) unat_0)
  qed
  obtain rounds where "map fst rounds = map (\<lambda>k. linked + 1 + of_nat k) [0..<n]" "length lats = n"
    "lk_log s' = lk_log s1 @ concat (map ping_events rounds)"
    using zb.rounds_log [OF o nz] by auto
  moreover have "0 < unat linked" using l(4) by (simp add: unat_gt_0)
  ultimately show ?thesis using l r by (intro exI [of _ linked] exI [of _ es] exI [of _ rounds] exI [of _ lats]) auto
qed

lemma zenoh_pingpong_measures_every_round_witness:
  "\<exists>r s' linked (rounds :: ping_round list).
     RunPingPong_zenoh (demo_zenoh_shm True) demo_fb demo_zenoh_fixture True 4096 64 2 \<lparr>lk_env = (0, []), lk_log = []\<rparr> = Some (Inr (None, r), s') \<and>
     map fst rounds = [linked + 1, linked + 2]"
proof -
  obtain lats s' where r: "RunPingPong_zenoh (demo_zenoh_shm True) demo_fb demo_zenoh_fixture True 4096 64 2 \<lparr>lk_env = (0, []), lk_log = []\<rparr> =
      Some (Inr (None, ReportLatencyCounters Map.empty lats), s')"
    using demo_zenoh_pingpong by blast
  from zenoh_pingpong_measures_every_round [OF r] obtain linked and rounds :: "ping_round list" where
    "map fst rounds = map (\<lambda>k. linked + 1 + of_nat k) [0..<2]" by auto
  then have "map fst rounds = [linked + 1, linked + 2]" by (simp add: numeral_2_eq_2)
  then show ?thesis
    using r by (intro exI [of _ "ReportLatencyCounters Map.empty lats"] exI [of _ s'] exI [of _ linked] exI [of _ rounds] conjI)
qed





text \<open>
  After a set-up that succeeded, the only fault of a Zenoh ping-pong is an exception: it never
  uses a session that is not there.
\<close>

theorem zenoh_pingpong_faults_only_by_exception:
  assumes "SetUp_zenoh z fb0 new_zenoh_fixture s0 = Some ((Inr (), fx), s1)"
    and "RunPingPong_zenoh z fb fx reliable sz state_addr n s = Some (Inl f, s')"
  shows "\<exists>m. f = Thrown m"
proof -
  have fx: "zf_pub_session fx \<noteq> None" "zf_sub_session fx \<noteq> None"
    using SetUp_zenoh_log [OF assms(1)] by (auto simp: new_zenoh_fixture_def zenoh_fixture_ok_def)
  show ?thesis
  proof (rule linked_channel_throws [OF assms(2) [unfolded RunPingPong_zenoh_def] fx])
    show "\<exists>m. f = Thrown m" if "map_option (\<lambda>(r, s). (map_sum id reported_counters r, s))
      (one_way_rounds (PutShm z fb pub sz) (zb_get z fb sub) (NowNs (z_clock z)) n linked [] s2) = Some (Inl f, s')"
      for pub sub linked s2
    proof -
      obtain r1 s3 where o: "one_way_rounds (PutShm z fb pub sz) (zb_get z fb sub) (NowNs (z_clock z)) n linked [] s2 = Some (r1, s3)"
        and e: "map_sum id reported_counters r1 = Inl f" using \<open>map_option _ _ = _\<close> by (auto simp only: option.map_sel map_option_eq_Some split_paired_Ex prod.case Pair_inject)
      then have "r1 = Inl f" by (cases r1) simp_all
      then show ?thesis using zenoh_rounds_throw o by blast
    qed
  qed
qed

lemma zenoh_pingpong_faults_only_by_exception_witness:
  "\<exists>s1 s' m. SetUp_zenoh (demo_zenoh_shm False) demo_fb new_zenoh_fixture \<lparr>lk_env = (0, []), lk_log = []\<rparr> =
     Some ((Inr (), demo_zenoh_fixture), s1) \<and>
   RunPingPong_zenoh (demo_zenoh_shm False) demo_fb demo_zenoh_fixture True 64 4096 5 s1 = Some (Inl (Thrown m), s')"
proof -
  let ?z = "demo_zenoh_shm False"
  obtain s1 where u: "SetUp_zenoh ?z demo_fb new_zenoh_fixture \<lparr>lk_env = (0, []), lk_log = []\<rparr> = Some ((Inr (), demo_zenoh_fixture), s1)"
    using demo_set_up_zenoh by blast
  have put: "PutShm ?z demo_fb 3 64 k s1 = Some (Inl (Thrown ''SHM alloc failed''), s1)" for k
    by (simp add: PutShm_def demo_zenoh_shm_def on_env_block_def Let_def)
  then have "link_up ?z demo_fb 3 2 64 False (k # ks) s1 = Some (Inl (Thrown ''SHM alloc failed''), s1)" for k ks
    by simp
  then have "WaitUntilLinked ?z demo_fb 3 2 64 s1 = Some (Inl (Thrown ''SHM alloc failed''), s1)"
    by (simp add: WaitUntilLinked_def upt_conv_Cons)
  then have r: "RunPingPong_zenoh ?z demo_fb demo_zenoh_fixture True 64 4096 5 s1 = Some (Inl (Thrown ''SHM alloc failed''), s1)"
    using RunPingPong_zenoh_set_up [OF demo_zenoh_shm_laws(2) [of False], of demo_zenoh_fixture]
    by (simp add: demo_zenoh_fixture_def when_linked_def)
  then show ?thesis using u zenoh_pingpong_faults_only_by_exception [OF u r] by blast
qed

end
