(* ===== verification/Publisher_Threads.thy ===== *)
theory Publisher_Threads
  imports Credit_Flow Shm_Bench Subspace_Bench Zenoh_Delivery
begin

text \<open>
  The publisher threads of the three multithreaded benchmarks: what each does between the credit
  test and the count of a credit, and that with it the threads are runs of \<open>Credit_Flow\<close>.
\<close>

section \<open>One sample\<close>

text \<open>
  Where the thread goes next: to the count of the credit when the sample was sent, back to the loop
  or out of it when not. An exception that is not caught ends the program.
\<close>

definition cy_publish ::
  "'w dds \<Rightarrow> int \<Rightarrow> bytes \<Rightarrow> bool \<Rightarrow> u64 \<Rightarrow> 'w link \<Rightarrow> (pub_pc res \<times> 'w link) option" where
  "cy_publish d writer payload reliable sq s =
     (case WriteSample d writer sq payload s of (rc, s) \<Rightarrow>
      if rc < 0
      then if reliable then Some (Inr Pub_loop, env_do (dds_thread_sleep d 10000) s) else Some (Inr Pub_ended, s)
      else Some (Inr Pub_count, s))"

definition zb_publish ::
  "'w zenoh_shm \<Rightarrow> flatbuffers \<Rightarrow> int \<Rightarrow> nat \<Rightarrow> bool \<Rightarrow> u64 \<Rightarrow> 'w link \<Rightarrow> (pub_pc res \<times> 'w link) option" where
  "zb_publish z fb pub sz reliable sq s =
     (case PutShm z fb pub sz sq s of
        None \<Rightarrow> None
      | Some (Inr e, s) \<Rightarrow> Some (Inr Pub_count, s)
      | Some (Inl f, s) \<Rightarrow>
          if reliable then Some (Inr Pub_loop, env_do (z_thread_sleep z 10000) s) else Some (Inr Pub_ended, s))"

text \<open>Subspace: an error ends the thread, a null buffer is tried again.\<close>

definition sx_publish_sample ::
  "'w subspace_shm \<Rightarrow> flatbuffers \<Rightarrow> int \<Rightarrow> nat \<Rightarrow> bool \<Rightarrow> u64 \<Rightarrow> 'w link \<Rightarrow> (pub_pc res \<times> 'w link) option" where
  "sx_publish_sample p fb pub sz reliable sq s =
     (let b = BuildSample fb sq sz; nbytes = int32_of_size (length b) in
      case on_env (sx_get_buffer p pub nbytes) s of
        (Inl m, s) \<Rightarrow> Some (Inr Pub_ended, s)
      | (Inr False, s) \<Rightarrow>
          if \<not> reliable then Some (Inr Pub_loop, env_do (sx_yield p) s)
          else map_option (\<lambda>(w, s). (Inr (if w = None then Pub_loop else Pub_ended), s)) (on_env_block (sx_pub_wait p pub) s)
      | (Inr True, s) \<Rightarrow>
          (case NowNs (sb_clock p) s of (now, s) \<Rightarrow>
           case StampSample fb now b of
             Inl m \<Rightarrow> Some (Inl (Thrown m), s)
           | Inr b \<Rightarrow>
               (case on_env (sx_publish p pub nbytes b) s of
                  (Some m, s) \<Rightarrow> Some (Inr Pub_ended, s)
                | (None, s) \<Rightarrow> Some (Inr Pub_count, note_event (Sent sq now) s))))"

section \<open>The threads with their publisher\<close>

text \<open>
  The steps of \<open>Credit_Flow\<close>, with the step that sends a sample replaced by the program's. The second
  component is the publisher's view of the middleware.
\<close>

inductive threads_step ::
  "(u64 \<Rightarrow> 's \<Rightarrow> (pub_pc res \<times> 's) option) \<Rightarrow> bool \<Rightarrow> mt_state \<times> 's \<Rightarrow> mt_state \<times> 's \<Rightarrow> bool" for publish reliable where
  other: "mt_step reliable s s' \<Longrightarrow> cf_pub s = Pub_send \<longrightarrow> cf_pub s' = Pub_send \<Longrightarrow>
    threads_step publish reliable (s, l) (s', l)"
| sends: "cf_pub s = Pub_send \<Longrightarrow> publish (cf_seq s) l = Some (Inr Pub_count, l') \<Longrightarrow>
    threads_step publish reliable (s, l)
      (s\<lparr>cf_queue := cf_queue s @ [cf_seq s], cf_sent := cf_sent s @ [cf_seq s], cf_pub := Pub_count\<rparr>, l')"
| fails: "cf_pub s = Pub_send \<Longrightarrow> publish (cf_seq s) l = Some (Inr pc, l') \<Longrightarrow> pc \<noteq> Pub_count \<Longrightarrow>
    threads_step publish reliable (s, l) (s\<lparr>cf_pub := pc\<rparr>, l')"

inductive threads_run ::
  "(u64 \<Rightarrow> 's \<Rightarrow> (pub_pc res \<times> 's) option) \<Rightarrow> bool \<Rightarrow> mt_state \<times> 's \<Rightarrow> mt_state \<times> 's \<Rightarrow> bool" for publish reliable where
  here: "threads_run publish reliable x x"
| further: "threads_run publish reliable x y \<Longrightarrow> threads_step publish reliable y z \<Longrightarrow> threads_run publish reliable x z"

text \<open>The numbers sent, in order.\<close>

definition sent_numbers :: "link_event list \<Rightarrow> u64 list" where
  "sent_numbers es = concat (map (\<lambda>e. case e of Sent sq ns \<Rightarrow> [sq] | _ \<Rightarrow> []) es)"

lemma sent_numbers_simps [simp]: "sent_numbers (es @ [Sent sq ns]) = sent_numbers es @ [sq]"
  by (simp add: sent_numbers_def)

text \<open>
  A publisher logs exactly the samples it counts, and otherwise leaves or goes round the loop. The
  counter of \<open>Credit_Flow\<close> starts at zero; \<open>num\<close> gives the number that the program writes.
\<close>

locale publisher_thread =
  fixes publish :: "u64 \<Rightarrow> 's \<Rightarrow> (pub_pc res \<times> 's) option" and log :: "'s \<Rightarrow> link_event list"
    and num :: "u64 \<Rightarrow> u64"
  assumes publish_logs: "publish sq l = Some (Inr pc, l') \<Longrightarrow>
    if pc = Pub_count then \<exists>ns. log l' = log l @ [Sent (num sq) ns] else log l' = log l \<and> pc \<in> {Pub_loop, Pub_ended}"
begin

lemma step_inv:
  assumes "threads_step publish reliable (s, l) (s', l')"
    and "credit_inv s \<and> flow_inv reliable s" and "sent_numbers (log l) = ns @ map num (cf_sent s)"
  shows "credit_inv s' \<and> flow_inv reliable s' \<and> sent_numbers (log l') = ns @ map num (cf_sent s')"
  using assms(1)
proof (cases rule: threads_step.cases)
  case other
  then have "cf_sent s' = cf_sent s" by (auto elim!: mt_stepE split: if_splits)
  then show ?thesis using other credit_step flow_step assms by auto
next
  case sends
  have "mt_step reliable s s'" unfolding sends by (rule mt_step.pub_write) (rule sends)
  moreover obtain t where "log l' = log l @ [Sent (num (cf_seq s)) t]" using publish_logs [OF sends(3)] by auto
  ultimately show ?thesis using credit_step flow_step assms sends by auto
next
  case (fails pc)
  then have "pc = Pub_loop \<or> pc = Pub_ended" "log l' = log l" using publish_logs [OF fails(3)] by auto
  then show ?thesis
    using assms fails by (auto simp: credit_inv_def flow_inv_def counting_def releasing_def)
qed

lemma run_inv:
  assumes "threads_run publish reliable x y" and "credit_inv (fst x) \<and> flow_inv reliable (fst x)"
    and "sent_numbers (log (snd x)) = ns @ map num (cf_sent (fst x))"
  shows "credit_inv (fst y) \<and> flow_inv reliable (fst y) \<and> sent_numbers (log (snd y)) = ns @ map num (cf_sent (fst y))"
  using assms
proof (induction rule: threads_run.induct)
  case (further x y z)
  then show ?case using step_inv [of reliable "fst y" "snd y" "fst z" "snd z"] by simp
qed simp

lemma start_inv:
  assumes "threads_run publish reliable (mt_start, l0) (s, l)"
  shows "credit_inv s \<and> flow_inv reliable s \<and> sent_numbers (log l) = sent_numbers (log l0) @ map num (cf_sent s)"
  using run_inv [OF assms, of "sent_numbers (log l0)"] reachable_inv [OF reachable_start]
  by (simp add: mt_start_def)

end

text \<open>A publisher that, as \<open>mt_step\<close> has it, leaves after a failure exactly when it is not reliable.\<close>

locale strict_publisher = publisher_thread +
  fixes reliable :: bool
  assumes publish_fails: "publish sq l = Some (Inr pc, l') \<Longrightarrow> pc \<noteq> Pub_count \<Longrightarrow> pc = (if reliable then Pub_loop else Pub_ended)"
begin

lemma run_refines:
  assumes "threads_run publish reliable x y" and "mt_reachable reliable (fst x)"
  shows "mt_reachable reliable (fst y)"
  using assms
proof (induction rule: threads_run.induct)
  case (further x y z)
  have "mt_step reliable (fst y) (fst z)"
    using further(2)
  proof (cases rule: threads_step.cases)
    case (sends s l l')
    then show ?thesis using mt_step.pub_write [of s] by simp
  next
    case (fails s l pc l')
    then show ?thesis using publish_fails [OF fails(4,5)] mt_step.pub_failed [of s reliable] by simp
  qed simp
  then show ?case using further(3,4) reachable_step by blast
qed

end

section \<open>The three programs\<close>

interpretation cy_pub: strict_publisher "cy_publish d writer payload reliable" lk_log "\<lambda>sq. sq" reliable for d writer payload reliable
proof
  fix sq pc and l l' :: "'a link"
  assume p: "cy_publish d writer payload reliable sq l = Some (Inr pc, l')"
  obtain rc s where w: "WriteSample d writer sq payload l = (rc, s)" by fastforce
  show "if pc = Pub_count then \<exists>ns. lk_log l' = lk_log l @ [Sent sq ns] else lk_log l' = lk_log l \<and> pc \<in> {Pub_loop, Pub_ended}"
    using p w WriteSample_log [OF w] by (auto simp: cy_publish_def split: if_splits)
  show "pc = (if reliable then Pub_loop else Pub_ended)" if "pc \<noteq> Pub_count"
    using p w that by (auto simp: cy_publish_def split: if_splits)
qed

interpretation zb_pub: strict_publisher "\<lambda>sq. zb_publish z fb pub sz reliable (linked + sq)" lk_log "\<lambda>sq. linked + sq" reliable
  for z fb pub sz reliable linked
proof
  fix sq pc and l l' :: "'a link"
  assume p: "zb_publish z fb pub sz reliable (linked + sq) l = Some (Inr pc, l')"
  obtain r s where w: "PutShm z fb pub sz (linked + sq) l = Some (r, s)" using p by (auto simp: zb_publish_def split: option.splits)
  show "if pc = Pub_count then \<exists>ns. lk_log l' = lk_log l @ [Sent (linked + sq) ns] else lk_log l' = lk_log l \<and> pc \<in> {Pub_loop, Pub_ended}"
    using p w PutShm_log [OF w] by (cases r) (auto simp: zb_publish_def split: if_splits)
  show "pc = (if reliable then Pub_loop else Pub_ended)" if "pc \<noteq> Pub_count"
    using p w that by (cases r) (auto simp: zb_publish_def split: if_splits)
qed

interpretation sx_pub: publisher_thread "sx_publish_sample p fb pub sz reliable" lk_log "\<lambda>sq. sq" for p fb pub sz reliable
proof
  fix sq pc and l l' :: "'a link"
  assume p: "sx_publish_sample p fb pub sz reliable sq l = Some (Inr pc, l')"
  show "if pc = Pub_count then \<exists>ns. lk_log l' = lk_log l @ [Sent sq ns] else lk_log l' = lk_log l \<and> pc \<in> {Pub_loop, Pub_ended}"
    using p by (auto simp: sx_publish_sample_def Let_def note_event_def dest!: on_env_log on_env_block_log NowNs_log
      split: prod.splits sum.splits bool.splits option.splits if_splits)
qed

text \<open>The first steps of the publisher thread, up to its first sample.\<close>

lemma first_sample:
  assumes "threads_step publish reliable (mt_start\<lparr>cf_seq := 1, cf_pub := Pub_send\<rparr>, l0) y"
  shows "threads_run publish reliable (mt_start, l0) y"
proof -
  have "threads_step publish reliable (mt_start, l0) (mt_start\<lparr>cf_pub := Pub_gate\<rparr>, l0)"
    using mt_step.pub_enter [of mt_start] by (intro threads_step.other) (simp_all add: mt_start_def)
  moreover have "threads_step publish reliable (mt_start\<lparr>cf_pub := Pub_gate\<rparr>, l0) (mt_start\<lparr>cf_seq := 1, cf_pub := Pub_send\<rparr>, l0)"
    using mt_step.pub_pass [of "mt_start\<lparr>cf_pub := Pub_gate\<rparr>" reliable]
    by (intro threads_step.other) (simp_all add: mt_start_def max_in_flight_def)
  ultimately show ?thesis using assms by (blast intro: threads_run.here threads_run.further)
qed

section \<open>Properties\<close>

text \<open>
  C24. With Cyclone's publisher thread, which writes a sample and sleeps or leaves when the write
  fails, the threads of the multithreaded benchmark are runs of \<open>Credit_Flow\<close>, and the samples
  written are exactly those the model has sent, in its order.
\<close>

theorem cyclone_publisher_refines:
  assumes "threads_run (cy_publish d writer payload reliable) reliable (mt_start, l0) (s, l)"
  shows "mt_reachable reliable s \<and> sent_numbers (lk_log l) = sent_numbers (lk_log l0) @ cf_sent s"
  using cy_pub.run_refines [OF assms] cy_pub.start_inv [OF assms] reachable_start by simp

lemma cyclone_publisher_refines_witness:
  "\<exists>s l. threads_run (cy_publish demo_dds 3 [] True) True (mt_start, \<lparr>lk_env = (0, []), lk_log = []\<rparr>) (s, l) \<and>
     mt_reachable True s \<and> sent_numbers (lk_log l) = [1] \<and> cf_pub s = Pub_count"
proof -
  let ?l0 = "\<lparr>lk_env = (0, []), lk_log = []\<rparr> :: (int \<times> Bench_Sample list) link"
  obtain rc l where w: "WriteSample demo_dds 3 1 [] ?l0 = (rc, l)" by fastforce
  then have "\<not> rc < 0" by (auto simp: WriteSample_def NowNs_def on_env_def demo_dds_def Let_def split: prod.splits)
  then have "cy_publish demo_dds 3 [] True 1 ?l0 = Some (Inr Pub_count, l)" using w by (simp add: cy_publish_def)
  then have "threads_step (cy_publish demo_dds 3 [] True) True (mt_start\<lparr>cf_seq := 1, cf_pub := Pub_send\<rparr>, ?l0)
      (mt_start\<lparr>cf_seq := 1, cf_queue := [1], cf_sent := [1], cf_pub := Pub_count\<rparr>, l)"
    using threads_step.sends [of "mt_start\<lparr>cf_seq := 1, cf_pub := Pub_send\<rparr>" _ ?l0 l] by (simp add: mt_start_def)
  note r = first_sample [OF this]
  from cyclone_publisher_refines [OF r] show ?thesis
    using r by (intro exI conjI) (auto simp: sent_numbers_def mt_start_def)
qed

text \<open>
  The same holds for Zenoh's publisher thread, which catches the exceptions of \<open>PutShm\<close> and whose
  numbers start after the last one of the warm-up.
\<close>

theorem zenoh_publisher_refines:
  assumes "threads_run (\<lambda>sq. zb_publish z fb pub sz reliable (linked + sq)) reliable (mt_start, l0) (s, l)"
  shows "mt_reachable reliable s \<and>
    sent_numbers (lk_log l) = sent_numbers (lk_log l0) @ map (\<lambda>sq. linked + sq) (cf_sent s)"
  using zb_pub.run_refines [OF assms] zb_pub.start_inv [OF assms] reachable_start by simp

lemma zenoh_publisher_refines_witness:
  "\<exists>s l. threads_run (\<lambda>sq. zb_publish (demo_zenoh_shm False) demo_fb 3 64 False (2 + sq)) False (mt_start, \<lparr>lk_env = (0, []), lk_log = []\<rparr>) (s, l) \<and>
     mt_reachable False s \<and> cf_pub s = Pub_ended \<and> cf_sent s = []"
proof -
  let ?l0 = "\<lparr>lk_env = (0, []), lk_log = []\<rparr> :: (int \<times> bytes list) link" 
    and ?p = "\<lambda>sq. zb_publish (demo_zenoh_shm False) demo_fb 3 64 False (2 + sq)"
  have "?p 1 ?l0 = Some (Inr Pub_ended, ?l0)"
    by (simp add: zb_publish_def PutShm_def demo_zenoh_shm_def on_env_block_def Let_def)
  then have "threads_step ?p False (mt_start\<lparr>cf_seq := 1, cf_pub := Pub_send\<rparr>, ?l0)
      (mt_start\<lparr>cf_seq := 1, cf_pub := Pub_ended\<rparr>, ?l0)"
    using threads_step.fails [of "mt_start\<lparr>cf_seq := 1, cf_pub := Pub_send\<rparr>" ?p ?l0 Pub_ended ?l0 False] by simp
  note r = first_sample [OF this]
  from zenoh_publisher_refines [OF r] show ?thesis using r by (intro exI conjI) (auto simp: mt_start_def)
qed

text \<open>
  C25. Subspace's publisher thread goes round the loop when a buffer is null and leaves on an error,
  reliable or not, so its threads are not runs of \<open>Credit_Flow\<close>; credits are conserved all the same,
  never more than two are out, and over a reliable channel the samples are taken in the order they
  were published, each once.
\<close>

theorem subspace_threads_conserve_credits:
  assumes "threads_run (sx_publish_sample p fb pub sz reliable) reliable (mt_start, l0) (s, l)"
  shows "int (length (cf_queue s)) + releasing s + int (cf_skipped s) + int (cf_lost s) = cf_in_flight s + counting s \<and>
    0 \<le> cf_in_flight s \<and> cf_in_flight s + counting s \<le> max_in_flight \<and>
    sent_numbers (lk_log l) = sent_numbers (lk_log l0) @ cf_sent s \<and>
    (reliable \<longrightarrow> cf_sent s = cf_taken s @ cf_queue s)"
  using sx_pub.start_inv [OF assms] by (simp add: credit_inv_def flow_inv_def)

lemma subspace_threads_conserve_credits_witness:
  "\<exists>s l. threads_run (sx_publish_sample (demo_subspace_shm True) demo_fb 2 64 False) False (mt_start, \<lparr>lk_env = (0, []), lk_log = []\<rparr>) (s, l) \<and>
     cf_pub s = Pub_loop \<and> cf_seq s = 1 \<and> sent_numbers (lk_log l) = [] \<and> 0 \<le> cf_in_flight s"
proof -
  let ?l0 = "\<lparr>lk_env = (0, []), lk_log = []\<rparr> :: (int \<times> bytes list) link"
    and ?p = "sx_publish_sample (demo_subspace_shm True) demo_fb 2 64 False"
  obtain l where "?p 1 ?l0 = Some (Inr Pub_loop, l)"
    by (simp add: sx_publish_sample_def demo_subspace_shm_def on_env_def Let_def)
  then have "threads_step ?p False (mt_start\<lparr>cf_seq := 1, cf_pub := Pub_send\<rparr>, ?l0)
      (mt_start\<lparr>cf_seq := 1, cf_pub := Pub_loop\<rparr>, l)"
    using threads_step.fails [of "mt_start\<lparr>cf_seq := 1, cf_pub := Pub_send\<rparr>" ?p ?l0 Pub_loop l False] by simp
  note r = first_sample [OF this]
  from subspace_threads_conserve_credits [OF r] show ?thesis
    using r by (intro exI conjI) (auto simp: mt_start_def sent_numbers_def)
qed

end
