(* ===== verification/Spec2Isabelle.thy ===== *)
theory Spec2Isabelle
  imports Plan_Limits Echo_Safety Ready_File Publisher_Threads
begin

text \<open>
  A verification library for the middleware latency benchmarks of this repository: the vsomeip
  publisher and subscriber (\<open>src/vsomeip/bench/\<close>), the ping-pong tools over a network
  (\<open>src/benchmarks/net/\<close>) and the shared-memory benchmarks of one process (\<open>src/benchmarks/\<close>).

  The program. A vsomeip run has two processes. \<open>event_service\<close> waits until it is registered and
  subscribed to, then publishes frames: each frame is one block, cut into chunks that fit a
  datagram, every chunk with a header, the first with the send time. \<open>event_client\<close> puts chunks
  together (\<open>FrameTracker\<close>), measures complete frames after the warm-up, and prints a CSV line; in
  its echo mode it measures request and response calls instead. The network tools ping-pong
  numbered samples over Cyclone DDS, Zenoh or Subspace and halve the round-trip time. The
  shared-memory benchmarks measure one-way latencies within a process, in a ping-pong of one thread
  and with a publisher thread that keeps at most two samples in flight to the benchmark thread.

  Representation. Machine integers are words of their width (\<open>u8\<close> to \<open>u64\<close>) or, where the code
  uses \<open>int\<close> and overflow is undefined, \<open>int\<close> with a range test; \<open>double\<close> is a rational kept at
  binary64 precision by the rounding function \<open>fl\<close>, which every arithmetic operation applies.
  Blocks of memory are byte lists read and written within bounds. A value of type \<open>'a res\<close> is a
  result or a fault: undefined behaviour (a write out of bounds, a division by zero, an overflow)
  or an exception that leaves the program. What vsomeip, Cyclone DDS, Zenoh, Subspace, FlatBuffers,
  the operating system and the clock do is not in the repository: calls into vsomeip are recorded
  in a trace and its callbacks are events of a run; the other libraries are records of functions on
  a world, parameters of the definitions. What a proof needs of them is a named hypothesis
  (\<open>dds_clock_advances\<close>, \<open>dds_loopback\<close>, \<open>zenoh_loopback\<close>, \<open>subspace_loopback\<close>, \<open>flatbuffer_laws\<close>;
  for the shared-memory benchmarks \<open>shm_loopback\<close>, \<open>shm_handles\<close>, \<open>zenoh_shm_loopback\<close>,
  \<open>zenoh_handles\<close> and \<open>zenoh_shm_advances\<close>), and each has a concrete instance (\<open>demo_dds\<close>,
  \<open>demo_zenoh\<close>, \<open>demo_subspace\<close>, \<open>demo_fb\<close>, \<open>demo_subspace_shm\<close>, \<open>demo_zenoh_shm\<close>) on which it is
  proved to hold.

  The theories.

  \<^item> \<open>Bench_Prelude\<close>: words, faults, byte blocks, little-endian fields, lists. \<open>Float64\<close>: rounding to
    binary64 and its laws. \<open>CText\<close>: \<open>strtoull\<close>, \<open>atoi\<close>, \<open>atof\<close> and printed numbers.

  \<^item> \<open>Stats\<close>: means and percentiles of the three harnesses, counters and \<open>MtTakeStats\<close>
    (\<open>benchmarks/common.h\<close>). Percentiles index within the samples and the median lies between the
    middle samples in spite of rounding.

  \<^item> \<open>Fragment\<close> (\<open>constants.h\<close>, \<open>fragment.h\<close>): \<open>PlanChunks\<close>, \<open>WriteChunkHeaders\<close>, \<open>StampSendNs\<close> and
    \<open>FrameTracker\<close>. The plan is a minimal tiling, headers stay in the block exactly when the last
    chunk has room for one, and the tracker reports only complete frames. \<open>Tracker_Spec\<close>: the tracker
    is equivalent to a reference that keeps no state.

  \<^item> \<open>Bench_Common\<close> (\<open>bench_common.h\<close>): options, CSV line, done marker, echo payload; round trips of
    options and payloads, and what the parser accepts.

  \<^item> \<open>Event_Service\<close> (\<open>event_service.cc\<close>) and \<open>Event_Client\<close> (\<open>event_client.cc\<close>): the state of each
    class as a record (\<open>service\<close>, \<open>client\<close>), one definition per handler, the worker as a function of
    its program counter, and both \<open>main\<close> functions. \<open>Vsomeip_Run\<close> puts publisher and subscriber
    together: what complete and lossy runs deliver. \<open>Publisher_Run\<close> proves the publisher's invariant
    \<open>pub_inv\<close> over every interleaving of its handlers with its worker.

  \<^item> Publisher and subscriber under less benign circumstances. \<open>Network_Safety\<close>: notifications are
    lost, duplicated and reordered at will, and still every latency recorded is that of a whole frame
    of the publisher. \<open>Plan_Limits\<close>: the option values for which this cannot hold, datagram limits
    without room for a stamp and frames of more than 65535 chunks, and what is reported then.
    \<open>Echo_Safety\<close>: an echo call is timed against the response to its own request. \<open>Ready_File\<close>: with
    a sync directory, nothing is published before the subscriber has subscribed.

  \<^item> \<open>Net_Common\<close> (\<open>net_common.h\<close>) and \<open>Bench_Sample\<close> (\<open>bench_sample.h\<close>, the headers of \<open>common.h\<close>):
    what the network tools share. \<open>Echo_Link\<close>: their probe loop, timed loop, receive loop and
    echo loop, each defined once over the functions of a tool. The locales \<open>echo_link\<close>,
    \<open>tool_link\<close>, \<open>live_link\<close>, \<open>live_tool\<close>, \<open>echoing_link\<close>, \<open>echoing_tool\<close>, \<open>quiet_tool\<close> and
    \<open>echo_server\<close> state what a tool's functions promise and prove the loops correct under it.

  \<^item> \<open>Cyclone_Net\<close>, \<open>Zenoh_Net\<close>, \<open>Subspace_Net\<close> (\<open>cyclone_net.cc\<close>, \<open>zenoh_net.cc\<close> with
    \<open>zenoh_common.h\<close>, \<open>subspace_net.cc\<close>): the three tools from \<open>main\<close> down, and the interpretation
    of the locales on their own send, receive and echo functions. \<open>Subspace_Net\<close> also follows the
    embedded server, its thread and its descriptors.

  \<^item> \<open>One_Way\<close>: the timed loop of the shared-memory ping-pongs and the benchmark thread of the
    multithreaded benchmark, each defined once over the functions of a program. The locales
    \<open>one_way_link\<close> (the receive function returns only the sample waited for), \<open>one_way_channel\<close> (a
    sample sent arrives), \<open>one_way_live\<close> (time passes), \<open>mt_thread\<close> and \<open>mt_link_thread\<close> (what an
    iteration does to log and statistics) state what those functions promise.

  \<^item> \<open>Shm_Bench\<close> (\<open>cyclone_bench.cc\<close>, \<open>process.h\<close>), \<open>Subspace_Bench\<close> (\<open>subspace_bench.cc\<close>) and
    \<open>Zenoh_Bench\<close> (\<open>zenoh_bench.cc\<close> and the free ports of \<open>zenoh_common.h\<close>): the fixtures from set-up
    to tear-down, the child process of the first, the server thread of the second, the two sessions
    and the warm-up of the third; their send and receive functions, on which the locales of
    \<open>One_Way\<close> are interpreted; and what a ping-pong and an iteration of the benchmark thread record.
    \<open>Zenoh_Delivery\<close>: a set-up that succeeds leaves all it needs, the only faults left after it are
    exceptions of the library, and a ping-pong over a channel that delivers measures every round.

  \<^item> \<open>Credit_Flow\<close> (the threads of \<open>RunMtOneWay\<close>): publisher thread and benchmark thread as a step
    relation with one step per atomic operation; conservation of credits, order of samples, what a
    lost sample costs, and that joining the publisher ends. \<open>TakeOne_takes\<close> in \<open>Shm_Bench\<close>
    justifies what the timed step takes from the middleware. \<open>Publisher_Threads\<close>: the body of each
    publisher thread from the credit test to the count of the credit. The locale
    \<open>publisher_thread\<close> gives what the three share, \<open>strict_publisher\<close> the two that stop at a failed
    write; these two refine the steps of \<open>Credit_Flow\<close>. Subspace's thread tries again with the
    next number when it gets a null buffer, and leaves on an error even when reliable, so its
    conservation of credits is stated for its own runs.

  Bounds and loops. A receive loop runs until a deadline and is a partial function: that it
  returns is a theorem under the hypothesis that the clock advances, and for Subspace that a wait
  returns. The echo loops of the subscribers never return by themselves and are run for any number
  of iterations. Loops with a bound in the code (200 or 100 probes of the network tools, \<open>warmup + count\<close> rounds, 600
  readiness checks, the 64 warm-up rounds and the 4 and 32 port probes of the Zenoh benchmark) are
  recursions over that bound, so no fuel has to be chosen.

  Not modelled. \<open>bench_tracy.h\<close> and the profiler's macros have no effect on the state. Messages on
  standard error are not part of the result; exit codes and standard output are. The
  vsomeip handlers share only data guarded by the program's mutex, or used by one thread, with the
  worker, so a handler and a step of the worker are atomic and the mutex is left out. Weak
  memory is left out of \<open>Credit_Flow\<close>: its atomics are sequentially consistent. Allocation never
  fails. The benchmark library, which registers and calls the shared-memory benchmarks, is not in
  the repository, so their \<open>main\<close> is left out: a benchmark is a fixture's set-up, any number of
  iterations and its tear-down. The files of \<open>benchmarks/gen/\<close> are generated, and the remaining
  files are build, container and plotting scripts.
\<close>

end
